(* ===== verification/Prelude.thy ===== *)
theory Prelude
  imports Main "HOL-Library.Sublist" "HOL-Library.List_Lexorder" "HOL-Library.Char_ord"
begin

text \<open>
  What every component shares: the clock, the unsigned integers of the source, the part of
  Rust's string library the source calls, lemmas on time-ordered deques, and the contract of
  a one-way latch, which the valve, the credential state and the session jar all keep.

  Instants and durations are counted in nanoseconds as \<open>nat\<close>. Rust's
  \<open>Instant::duration_since\<close> saturates at zero, and so does subtraction on \<open>nat\<close>.
  Strings are lists of bytes (\<open>char\<close>), as a Rust \<open>str\<close> is UTF-8 bytes.
\<close>

section \<open>Lemma collections\<close>

named_theorems op_defs \<open>unfoldings of the operations of a component\<close>
named_theorems inv_intros \<open>an operation keeps its component's invariant\<close>
named_theorems frame_simps \<open>an operation leaves a field alone\<close>

section \<open>Time and machine integers\<close>

type_synonym instant = nat
type_synonym duration = nat

definition from_secs :: "nat \<Rightarrow> duration" where
  "from_secs n = n * 1000000000"

definition from_millis :: "nat \<Rightarrow> duration" where
  "from_millis n = n * 1000000"

definition as_secs :: "duration \<Rightarrow> nat" where
  "as_secs d = d div 1000000000"

lemma as_secs_from_secs [simp]: "as_secs (from_secs n) = n"
  by (simp add: as_secs_def from_secs_def)

lemma from_secs_le_iff [simp]: "from_secs m \<le> from_secs n \<longleftrightarrow> m \<le> n"
  by (simp add: from_secs_def)

lemma from_secs_less_iff [simp]: "from_secs m < from_secs n \<longleftrightarrow> m < n"
  by (simp add: from_secs_def)

lemma from_secs_pos_iff [simp]: "0 < from_secs n \<longleftrightarrow> 0 < n"
  by (simp add: from_secs_def)

definition u32_max :: nat where
  "u32_max = 4294967295"

definition u64_max :: nat where
  "u64_max = 18446744073709551615"

text \<open>\<open>u32::saturating_add\<close> and \<open>u32::try_from(..).unwrap_or(u32::MAX)\<close>.\<close>

definition sat_add_u32 :: "nat \<Rightarrow> nat \<Rightarrow> nat" where
  "sat_add_u32 a b = min (a + b) u32_max"

definition sat_u32 :: "nat \<Rightarrow> nat" where
  "sat_u32 n = (if n \<le> u32_max then n else u32_max)"

lemma sat_u32_le [simp]: "sat_u32 n \<le> u32_max"
  by (simp add: sat_u32_def)

lemma sat_u32_exact: "n \<le> u32_max \<Longrightarrow> sat_u32 n = n"
  by (simp add: sat_u32_def)

lemma sat_add_u32_le [simp]: "sat_add_u32 a b \<le> u32_max"
  by (simp add: sat_add_u32_def)

lemma sat_add_u32_mono: "a \<le> u32_max \<Longrightarrow> a \<le> sat_add_u32 a b"
  by (simp add: sat_add_u32_def)

text \<open>
  \<open>Instant::checked_add\<close>: the seconds of an instant are a signed 64-bit count on the
  platforms the program is built for (macOS and Linux), so a sum past them is \<open>None\<close>.
\<close>

definition instant_end :: instant where
  "instant_end = from_secs (2 ^ 63)"

definition checked_add :: "instant \<Rightarrow> duration \<Rightarrow> instant option" where
  "checked_add t d = (if t + d < instant_end then Some (t + d) else None)"

section \<open>Searching a list\<close>

lemma find_first_filter: "filter P xs = x # ys \<Longrightarrow> find P xs = Some x"
  by (induction xs) (auto split: if_splits)

lemma find_Some_in: "find P xs = Some x \<Longrightarrow> x \<in> set xs \<and> P x"
  by (induction xs) (auto split: if_splits)

section \<open>Strings\<close>

definition to_lower :: "char \<Rightarrow> char" where
  "to_lower c = (let n = (of_char c :: nat) in
     if 65 \<le> n \<and> n \<le> 90 then char_of (n + 32) else c)"

definition to_upper :: "char \<Rightarrow> char" where
  "to_upper c = (let n = (of_char c :: nat) in
     if 97 \<le> n \<and> n \<le> 122 then char_of (n - 32) else c)"

definition eq_ci :: "char \<Rightarrow> char \<Rightarrow> bool" where
  "eq_ci a b \<longleftrightarrow> to_lower a = to_lower b"

definition eq_ignore_ascii_case :: "string \<Rightarrow> string \<Rightarrow> bool" where
  "eq_ignore_ascii_case s t \<longleftrightarrow> map to_lower s = map to_lower t"

lemma eq_ci_refl [simp]: "eq_ci a a"
  by (simp add: eq_ci_def)

lemma eq_ci_sym: "eq_ci a b \<longleftrightarrow> eq_ci b a"
  by (auto simp: eq_ci_def)

lemma eq_ignore_ascii_case_refl [simp]: "eq_ignore_ascii_case s s"
  by (simp add: eq_ignore_ascii_case_def)

lemma eq_ignore_ascii_case_all2: "eq_ignore_ascii_case s t \<longleftrightarrow> list_all2 eq_ci s t"
  by (auto simp: eq_ignore_ascii_case_def eq_ci_def list_all2_conv_all_nth list_eq_iff_nth_eq)

text \<open>
  \<open>str::trim\<close> removes Unicode white space. The sequences are the UTF-8 encodings of the
  characters with the property \<open>White_Space\<close>.
\<close>

definition white_space :: "string list" where
  "white_space =
     map (\<lambda>n. [char_of n]) [9, 10, 11, 12, 13, 32 :: nat] @
     map (map char_of) ([[0xC2, 0x85], [0xC2, 0xA0], [0xE1, 0x9A, 0x80]] @
       map (\<lambda>n. [0xE2, 0x80, n]) ([0x80..<0x8B] @ [0xA8, 0xA9, 0xAF]) @
       [[0xE2, 0x81, 0x9F], [0xE3, 0x80, 0x80 :: nat]])"

lemma white_space_nonempty: "w \<in> set white_space \<Longrightarrow> 0 < length w"
  by (auto simp: white_space_def)

function trim_start :: "string \<Rightarrow> string" where
  "trim_start s = (case find (\<lambda>w. prefix w s) white_space of
       None \<Rightarrow> s
     | Some w \<Rightarrow> trim_start (drop (length w) s))"
  by pat_completeness auto
termination
proof (relation "measure length", goal_cases)
  case 1
  show ?case by simp
next
  case (2 s w)
  then have "w \<in> set white_space" and "prefix w s"
    by (auto simp: find_Some_iff)
  then show ?case
    using white_space_nonempty [of w] prefix_length_le [of w s] by (simp, linarith)
qed

declare trim_start.simps [simp del]

text \<open>From the end the same, on the reversed bytes.\<close>

function trim_end_rev :: "string \<Rightarrow> string" where
  "trim_end_rev s = (case find (\<lambda>w. prefix (rev w) s) white_space of
       None \<Rightarrow> s
     | Some w \<Rightarrow> trim_end_rev (drop (length w) s))"
  by pat_completeness auto
termination
proof (relation "measure length", goal_cases)
  case 1
  show ?case by simp
next
  case (2 s w)
  then have "w \<in> set white_space" and "prefix (rev w) s"
    by (auto simp: find_Some_iff)
  then show ?case
    using white_space_nonempty [of w] prefix_length_le [of "rev w" s] by (simp, linarith)
qed

declare trim_end_rev.simps [simp del]

definition trim :: "string \<Rightarrow> string" where
  "trim s = rev (trim_end_rev (rev (trim_start s)))"

text \<open>Text that starts and ends with a visible ASCII character is already trimmed.\<close>

definition graphic :: "char \<Rightarrow> bool" where
  "graphic c \<longleftrightarrow> 33 \<le> (of_char c :: nat) \<and> (of_char c :: nat) \<le> 126"

lemma white_space_ends:
  assumes "w \<in> set white_space"
  shows "\<not> graphic (hd w)" and "\<not> graphic (last w)"
  using assms by (auto simp: white_space_def graphic_def upt_conv_Cons)

lemma trim_start_graphic: "s = [] \<or> graphic (hd s) \<Longrightarrow> trim_start s = s"
proof -
  assume s: "s = [] \<or> graphic (hd s)"
  have "\<not> prefix w s" if "w \<in> set white_space" for w
    using s white_space_ends(1) [OF that] white_space_nonempty [OF that]
    by (cases w; cases s) auto
  then have "find (\<lambda>w. prefix w s) white_space = None"
    by (auto simp: find_None_iff)
  then show ?thesis by (subst trim_start.simps) simp
qed

lemma trim_end_rev_graphic: "s = [] \<or> graphic (hd s) \<Longrightarrow> trim_end_rev s = s"
proof -
  assume s: "s = [] \<or> graphic (hd s)"
  have "\<not> prefix (rev w) s" if "w \<in> set white_space" for w
    using s white_space_ends(2) [OF that] white_space_nonempty [OF that]
    by (cases w rule: rev_cases; cases s) auto
  then have "find (\<lambda>w. prefix (rev w) s) white_space = None"
    by (auto simp: find_None_iff)
  then show ?thesis by (subst trim_end_rev.simps) simp
qed

lemma trim_graphic: "s = [] \<or> graphic (hd s) \<and> graphic (last s) \<Longrightarrow> trim s = s"
  by (auto simp: trim_def trim_start_graphic trim_end_rev_graphic hd_rev)

text \<open>\<open>strip_prefix\<close>, \<open>strip_suffix\<close>, \<open>split_once\<close> and \<open>split\<close> on one byte, and \<open>join\<close>.\<close>

definition strip_prefix :: "string \<Rightarrow> string \<Rightarrow> string option" where
  "strip_prefix p s = (if prefix p s then Some (drop (length p) s) else None)"

definition strip_suffix :: "string \<Rightarrow> string \<Rightarrow> string option" where
  "strip_suffix p s = (if suffix p s then Some (take (length s - length p) s) else None)"

definition split_once :: "char \<Rightarrow> string \<Rightarrow> (string \<times> string) option" where
  "split_once c s = (if c \<in> set s
     then Some (takeWhile (\<lambda>x. x \<noteq> c) s, tl (dropWhile (\<lambda>x. x \<noteq> c) s)) else None)"

fun split_on :: "char \<Rightarrow> string \<Rightarrow> string list" where
  "split_on c [] = [[]]"
| "split_on c (x # xs) = (if x = c then [] # split_on c xs
     else (case split_on c xs of [] \<Rightarrow> [[x]] | w # ws \<Rightarrow> (x # w) # ws))"

fun join :: "string \<Rightarrow> string list \<Rightarrow> string" where
  "join sep [] = []"
| "join sep [w] = w"
| "join sep (w # ws) = w @ sep @ join sep ws"

lemma split_on_nonempty [simp]: "split_on c s \<noteq> []"
  by (cases s) (auto split: list.splits)

lemma split_on_no_sep: "w \<in> set (split_on c s) \<Longrightarrow> c \<notin> set w"
  by (induction s arbitrary: w) (auto split: if_splits list.splits)

lemma join_Cons: "ws \<noteq> [] \<Longrightarrow> join sep (w # ws) = w @ sep @ join sep ws"
  by (cases ws) auto

lemma join_split_on: "join [c] (split_on c s) = s"
proof (induction s)
  case Nil
  then show ?case by simp
next
  case (Cons x xs)
  obtain w ws where w: "split_on c xs = w # ws"
    by (cases "split_on c xs") auto
  with Cons show ?case by (cases ws) auto
qed

lemma split_on_append: "c \<notin> set w \<Longrightarrow> split_on c (w @ c # s) = w # split_on c s"
  by (induction w) auto

lemma split_on_single: "c \<notin> set w \<Longrightarrow> split_on c w = [w]"
  by (induction w) auto

lemma split_on_join:
  "ws \<noteq> [] \<Longrightarrow> \<forall>w \<in> set ws. c \<notin> set w \<Longrightarrow> split_on c (join [c] ws) = ws"
  by (induction ws rule: list_nonempty_induct) (auto simp: split_on_single join_Cons split_on_append)

text \<open>\<open>format!("{s:?}")\<close>, for text without other control characters.\<close>

definition escape_char :: "char \<Rightarrow> string" where
  "escape_char c =
     (let n = (of_char c :: nat) in
      if n = 9 then [CHR 0x5C, CHR ''t''] else if n = 13 then [CHR 0x5C, CHR ''r'']
      else if n = 10 then [CHR 0x5C, CHR ''n''] else if n = 34 then [CHR 0x5C, CHR 0x22]
      else if n = 92 then [CHR 0x5C, CHR 0x5C] else if n = 0 then [CHR 0x5C, CHR ''0'']
      else [c])"

definition debug_str :: "string \<Rightarrow> string" where
  "debug_str s = [CHR 0x22] @ concat (map escape_char s) @ [CHR 0x22]"

section \<open>Numbers in text\<close>

definition digit_val :: "char \<Rightarrow> nat option" where
  "digit_val c = (let n = (of_char c :: nat) in
     if 48 \<le> n \<and> n \<le> 57 then Some (n - 48) else None)"

fun parse_digits :: "nat \<Rightarrow> string \<Rightarrow> nat option" where
  "parse_digits acc [] = Some acc"
| "parse_digits acc (c # cs) =
     (case digit_val c of None \<Rightarrow> None | Some d \<Rightarrow> parse_digits (acc * 10 + d) cs)"

text \<open>
  \<open>str::parse::<u64>\<close> and its kin: an optional \<open>+\<close>, at least one digit, nothing else, and no
  more than the type holds.
\<close>

definition parse_uint :: "nat \<Rightarrow> string \<Rightarrow> nat option" where
  "parse_uint hi s =
     (let ds = (case s of c # cs \<Rightarrow> if c = CHR ''+'' then cs else s | [] \<Rightarrow> s)
      in if ds = [] then None
         else case parse_digits 0 ds of
             None \<Rightarrow> None
           | Some n \<Rightarrow> if n \<le> hi then Some n else None)"

text \<open>\<open>str::parse::<i64>\<close>.\<close>

definition parse_i64 :: "string \<Rightarrow> int option" where
  "parse_i64 s =
     (case s of
        [] \<Rightarrow> None
      | c # cs \<Rightarrow>
          (if c = CHR ''-'' then
             (if cs = [] then None
              else case parse_digits 0 cs of
                  None \<Rightarrow> None
                | Some n \<Rightarrow> if n \<le> 2 ^ 63 then Some (- int n) else None)
           else map_option int (parse_uint (2 ^ 63 - 1) s)))"

lemma parse_uint_le: "parse_uint hi s = Some n \<Longrightarrow> n \<le> hi"
  by (auto simp: parse_uint_def Let_def split: if_splits option.splits)

lemma parse_uint_Nil [simp]: "parse_uint hi [] = None"
  by (simp add: parse_uint_def)

text \<open>Decimal printing, as \<open>format!\<close> does for an unsigned integer.\<close>

definition digit_char :: "nat \<Rightarrow> char" where
  "digit_char d = char_of (48 + d)"

fun show_nat :: "nat \<Rightarrow> string" where
  "show_nat n = (if n < 10 then [digit_char n] else show_nat (n div 10) @ [digit_char (n mod 10)])"

declare show_nat.simps [simp del]

lemma digit_val_digit_char: "d < 10 \<Longrightarrow> digit_val (digit_char d) = Some d"
  by (simp add: digit_val_def digit_char_def Let_def)

lemma parse_digits_append:
  "parse_digits acc (xs @ ys) =
     (case parse_digits acc xs of None \<Rightarrow> None | Some a \<Rightarrow> parse_digits a ys)"
  by (induction xs arbitrary: acc) (auto split: option.splits)

lemma parse_digits_show_nat: "parse_digits 0 (show_nat n) = Some n"
proof (induction n rule: show_nat.induct)
  case (1 n)
  then show ?case
    by (subst show_nat.simps) (auto simp: digit_val_digit_char parse_digits_append)
qed

lemma show_nat_nonempty [simp]: "show_nat n \<noteq> []"
  by (subst show_nat.simps) simp

lemma digit_char_plus: "d < 10 \<Longrightarrow> digit_char d \<noteq> CHR ''+''"
proof
  assume "d < 10" and "digit_char d = CHR ''+''"
  then have "digit_val (CHR ''+'') = Some d" by (metis digit_val_digit_char)
  then show False by (simp add: digit_val_def)
qed

lemma show_nat_no_plus: "hd (show_nat n) \<noteq> CHR ''+''"
proof (induction n rule: show_nat.induct)
  case (1 n)
  then show ?case by (subst show_nat.simps) (auto simp: digit_char_plus)
qed

lemma parse_show_nat: "n \<le> hi \<Longrightarrow> parse_uint hi (show_nat n) = Some n"
  using show_nat_no_plus [of n] parse_digits_show_nat [of n]
  by (cases "show_nat n") (auto simp: parse_uint_def Let_def simp del: parse_digits.simps)

text \<open>
  An \<open>IndexMap\<close> is the list of its entries: \<open>insert\<close> is in place when the key is there and at the
  end when it is not, \<open>shift_remove\<close> keeps the order of the rest.
\<close>

fun im_insert :: "'k \<Rightarrow> 'v \<Rightarrow> ('k \<times> 'v) list \<Rightarrow> ('k \<times> 'v) list" where
  "im_insert k v [] = [(k, v)]"
| "im_insert k v ((k', v') # m) = (if k' = k then (k, v) # m else (k', v') # im_insert k v m)"

definition im_remove :: "'k \<Rightarrow> ('k \<times> 'v) list \<Rightarrow> ('k \<times> 'v) list" where
  "im_remove k m = filter (\<lambda>kv. fst kv \<noteq> k) m"

definition im_of :: "('k \<times> 'v) list \<Rightarrow> ('k \<times> 'v) list" where
  "im_of kvs = fold (\<lambda>(k, v). im_insert k v) kvs []"

lemma map_of_im_insert: "map_of (im_insert k v m) = (map_of m)(k \<mapsto> v)"
  by (induction k v m rule: im_insert.induct) auto

lemma keys_im_insert: "fst ` set (im_insert k v m) = insert k (fst ` set m)"
  by (induction k v m rule: im_insert.induct) auto

lemma distinct_im_insert: "distinct (map fst m) \<Longrightarrow> distinct (map fst (im_insert k v m))"
  by (induction k v m rule: im_insert.induct) (auto simp: keys_im_insert)

lemma im_insert_new: "k \<notin> fst ` set m \<Longrightarrow> im_insert k v m = m @ [(k, v)]"
  by (induction k v m rule: im_insert.induct) auto

lemma set_im_insert: "kv \<in> set (im_insert k v m) \<Longrightarrow> kv = (k, v) \<or> kv \<in> set m"
  by (induction k v m rule: im_insert.induct) (auto split: if_splits)

lemma map_of_im_remove: "map_of (im_remove k m) = (map_of m)(k := None)"
  by (induction m) (auto simp: im_remove_def)

lemma distinct_im_remove: "distinct (map fst m) \<Longrightarrow> distinct (map fst (im_remove k m))"
  by (simp add: im_remove_def distinct_map_filter)

lemma im_fold:
  "distinct (map fst m) \<Longrightarrow>
    map_of (fold (\<lambda>(k, v). im_insert k v) kvs m) = map_of m ++ map_of (rev kvs) \<and>
    distinct (map fst (fold (\<lambda>(k, v). im_insert k v) kvs m))"
proof (induction kvs arbitrary: m)
  case Nil
  then show ?case by simp
next
  case (Cons kv kvs)
  obtain k v where kv: "kv = (k, v)" by force
  show ?case
    using Cons.IH [OF distinct_im_insert [OF Cons.prems, of k v]] kv
    by (simp add: map_of_im_insert map_add_def fun_eq_iff split: option.split)
qed

lemma map_of_im_of: "map_of (im_of kvs) = map_of (rev kvs)"
  using im_fold [of "[]" kvs] by (simp add: im_of_def)

lemma distinct_im_of: "distinct (map fst (im_of kvs))"
  using im_fold [of "[]" kvs] by (simp add: im_of_def)

lemma im_of_append_new: "k \<notin> fst ` set kvs \<Longrightarrow> im_of (kvs @ [(k, v)]) = im_of kvs @ [(k, v)]"
proof -
  assume "k \<notin> fst ` set kvs"
  then have "map_of (im_of kvs) k = None" by (simp add: map_of_im_of map_of_eq_None_iff)
  then have "k \<notin> fst ` set (im_of kvs)" by (simp add: map_of_eq_None_iff)
  then show ?thesis by (simp add: im_of_def im_insert_new)
qed

lemma im_of_distinct: "distinct (map fst kvs) \<Longrightarrow> im_of kvs = kvs"
proof (induction kvs rule: rev_induct)
  case Nil
  then show ?case by (simp add: im_of_def)
next
  case (snoc kv kvs)
  obtain k v where "kv = (k, v)" by force
  then show ?case using snoc by (simp add: im_of_append_new)
qed

lemma length_filter_all: "length (filter P xs) = length xs \<longleftrightarrow> (\<forall>x \<in> set xs. P x)"
  using length_filter_less [of _ xs P] by (metis filter_True less_irrefl)

lemma find_self: "v \<in> set xs \<Longrightarrow> find (\<lambda>w. w = v) xs = Some v"
  by (induction xs) auto

section \<open>Deques of instants\<close>

lemma sorted_le_last: "sorted xs \<Longrightarrow> x \<in> set xs \<Longrightarrow> x \<le> last xs"
  by (induction xs) (auto split: if_splits)

text \<open>
  The rate budget and the valve both remember instants oldest first and forget the ones at the
  front that are a whole window old. On a sorted deque that is the same as keeping the recent
  ones.
\<close>

definition within :: "duration \<Rightarrow> instant \<Rightarrow> instant \<Rightarrow> bool" where
  "within w now t \<longleftrightarrow> now - t < w"

definition prune :: "duration \<Rightarrow> instant \<Rightarrow> instant list \<Rightarrow> instant list" where
  "prune w now ts = dropWhile (\<lambda>t. \<not> within w now t) ts"

lemma within_mono: "within w now t \<Longrightarrow> t \<le> t' \<Longrightarrow> within w now t'"
  by (simp add: within_def)

lemma within_earlier: "within w now' t \<Longrightarrow> now \<le> now' \<Longrightarrow> within w now t"
  by (simp add: within_def)

lemma prune_eq_filter: "sorted ts \<Longrightarrow> prune w now ts = filter (within w now) ts"
proof (induction ts)
  case Nil
  then show ?case by (simp add: prune_def)
next
  case (Cons t ts)
  show ?case
  proof (cases "within w now t")
    case True
    then have "\<forall>t' \<in> set ts. within w now t'"
      using Cons.prems within_mono by auto
    with True show ?thesis by (simp add: prune_def)
  next
    case False
    with Cons show ?thesis by (simp add: prune_def)
  qed
qed

lemma prune_Nil [simp]: "prune w now [] = []"
  by (simp add: prune_def)

lemma sorted_prune [simp]: "sorted ts \<Longrightarrow> sorted (prune w now ts)"
  by (simp add: prune_def sorted_dropWhile)

lemma set_prune_subset: "set (prune w now ts) \<subseteq> set ts"
  using set_dropWhileD by (fastforce simp: prune_def)

lemma filter_within_suffix:
  assumes "sorted ts"
  shows "filter (within w now) ts = drop (length ts - length (filter (within w now) ts)) ts"
proof -
  have "\<exists>xs. ts = xs @ prune w now ts"
    unfolding prune_def using takeWhile_dropWhile_id by metis
  then obtain xs where "ts = xs @ filter (within w now) ts"
    using prune_eq_filter [OF assms] by metis
  then show ?thesis
    by (metis append_eq_conv_conj diff_add_inverse2 length_append)
qed

section \<open>One-way latches\<close>

text \<open>
  A state with a condition no operation undoes. \<open>step\<close> applies one operation; a whole run of
  operations keeps the condition too.
\<close>

locale one_way =
  fixes step :: "'e \<Rightarrow> 's \<Rightarrow> 's"
    and shut :: "'s \<Rightarrow> bool"
  assumes stays_shut: "shut s \<Longrightarrow> shut (step e s)"
begin

lemma run_stays_shut: "shut s \<Longrightarrow> shut (fold step es s)"
  by (induction es arbitrary: s) (auto simp: stays_shut)

lemma open_before: "\<not> shut (fold step (xs @ ys) s) \<Longrightarrow> \<not> shut (fold step xs s)"
  using run_stays_shut by auto

end

end
