(* ===== verification/Catalog.thy ===== *)
theory Catalog
  imports Prelude
begin

text \<open>
  The data model of the v4 API (\<open>crates/catalog/src/lib.rs\<close>): rate tiers, methods, actions,
  namespaces and kinds, the version order that decides which Prism Central serves a kind, and
  the operations on API path templates. The generated tables \<open>KINDS\<close> and \<open>NAMESPACES\<close> are
  data: the definitions that search them take them as arguments.
\<close>

section \<open>Rate tiers\<close>

text \<open>\<open>count\<close> and \<open>per_secs\<close> are \<open>u32\<close>: see \<open>rate_ok\<close>.\<close>

record rate_limit =
  rl_count :: nat
  rl_per_secs :: nat

definition rate_limit_default :: rate_limit where
  "rate_limit_default = \<lparr>rl_count = 5, rl_per_secs = 1\<rparr>"

text \<open>
  The source multiplies two \<open>u32\<close> as \<open>u64\<close>, which cannot overflow (\<open>tighter_no_overflow\<close>),
  so the products are exact.
\<close>

definition tighter_than :: "rate_limit \<Rightarrow> rate_limit \<Rightarrow> bool" where
  "tighter_than a b \<longleftrightarrow> rl_count a * rl_per_secs b < rl_count b * rl_per_secs a"

definition rate_u32 :: "rate_limit \<Rightarrow> bool" where
  "rate_u32 r \<longleftrightarrow> rl_count r \<le> u32_max \<and> rl_per_secs r \<le> u32_max"

definition rate_ok :: "rate_limit \<Rightarrow> bool" where
  "rate_ok r \<longleftrightarrow> 1 \<le> rl_count r \<and> 1 \<le> rl_per_secs r"

lemma tighter_no_overflow:
  assumes "rate_u32 a" and "rate_u32 b"
  shows "rl_count a * rl_per_secs b \<le> u64_max"
proof -
  have "rl_count a * rl_per_secs b \<le> u32_max * u32_max"
    using assms by (intro mult_le_mono) (auto simp: rate_u32_def)
  then show ?thesis by (simp add: u32_max_def u64_max_def)
qed

lemma tighter_irrefl [simp]: "\<not> tighter_than a a"
  by (simp add: tighter_than_def)

lemma tighter_asym: "tighter_than a b \<Longrightarrow> \<not> tighter_than b a"
  by (simp add: tighter_than_def)

lemma not_tighter_trans:
  assumes "rate_ok b" and "\<not> tighter_than b a" and "\<not> tighter_than c b"
  shows "\<not> tighter_than c a"
proof -
  let ?ca = "rl_count a" and ?cb = "rl_count b" and ?cc = "rl_count c"
  let ?pa = "rl_per_secs a" and ?pb = "rl_per_secs b" and ?pc = "rl_per_secs c"
  have ab: "?ca * ?pb \<le> ?cb * ?pa" and bc: "?cb * ?pc \<le> ?cc * ?pb"
    using assms(2,3) by (auto simp: tighter_than_def)
  have "(?ca * ?pc) * ?pb = (?ca * ?pb) * ?pc" by simp
  also have "\<dots> \<le> (?cb * ?pa) * ?pc" using ab by (rule mult_le_mono1)
  also have "\<dots> = (?cb * ?pc) * ?pa" by simp
  also have "\<dots> \<le> (?cc * ?pb) * ?pa" using bc by (rule mult_le_mono1)
  also have "\<dots> = (?cc * ?pa) * ?pb" by simp
  finally show ?thesis
    using assms(1) by (simp add: tighter_than_def rate_ok_def)
qed

section \<open>Actions and their confirmation\<close>

datatype http_method = Get | Post | Put | Patch | Delete

datatype action_return = RTask | RPayload | RNone

datatype confirm_kind = CNone | CYes | CTypeName

text \<open>
  \<open>ConfirmKind\<close> derives \<open>Ord\<close> in the order of its variants: a rule may raise the floor of an
  action and never lower it.
\<close>

fun confirm_rank :: "confirm_kind \<Rightarrow> nat" where
  "confirm_rank CNone = 0"
| "confirm_rank CYes = 1"
| "confirm_rank CTypeName = 2"

lemma confirm_rank_inj: "confirm_rank a = confirm_rank b \<longleftrightarrow> a = b"
  by (cases a; cases b) auto

instantiation confirm_kind :: linorder
begin

definition less_eq_confirm_kind :: "confirm_kind \<Rightarrow> confirm_kind \<Rightarrow> bool" where
  "less_eq_confirm_kind a b \<longleftrightarrow> confirm_rank a \<le> confirm_rank b"

definition less_confirm_kind :: "confirm_kind \<Rightarrow> confirm_kind \<Rightarrow> bool" where
  "less_confirm_kind a b \<longleftrightarrow> confirm_rank a < confirm_rank b"

instance
  by standard (auto simp: less_eq_confirm_kind_def less_confirm_kind_def confirm_rank_inj)

end

lemma CNone_least [simp]: "CNone \<le> k"
  by (simp add: less_eq_confirm_kind_def)

lemma CTypeName_greatest [simp]: "k \<le> CTypeName"
  by (cases k) (auto simp: less_eq_confirm_kind_def)

lemma max_CNone [simp]: "max CNone k = k"
  by (simp add: max_def)

datatype field_type =
    FText
  | FEnum "string list"
  | FBool
  | FInteger
  | FReference "string option"
  | FJson string

record field =
  f_name :: string
  f_label :: string
  f_type :: field_type
  f_required :: bool
  f_value :: "string option"
  f_hidden :: bool

record action =
  a_name :: string
  a_path :: string
  a_method :: http_method
  a_needs_etag :: bool
  a_needs_body :: bool
  a_takes_body :: bool
  a_returns :: action_return
  a_scope :: "string list"
  a_roles :: "string list"
  a_confirm :: confirm_kind
  a_body :: "string option"
  a_form :: "field list"
  a_rate :: rate_limit

text \<open>\<open>str::split_once\<close> on a string: the part before the first occurrence, the part after it.\<close>

fun split_once_str :: "string \<Rightarrow> string \<Rightarrow> (string \<times> string) option" where
  "split_once_str pat [] = (if pat = [] then Some ([], []) else None)"
| "split_once_str pat (c # cs) =
     (if prefix pat (c # cs) then Some ([], drop (length pat) (c # cs))
      else map_option (\<lambda>(a, b). (c # a, b)) (split_once_str pat cs))"

definition actions_sep :: string where
  "actions_sep = ''/'' @ [CHR 0x24] @ ''actions/''"

definition names_entity :: "action \<Rightarrow> bool" where
  "names_entity a = (let head = (case split_once_str actions_sep (a_path a) of
       None \<Rightarrow> a_path a | Some (h, _) \<Rightarrow> h)
     in suffix ''}'' head)"

definition parents_needed :: "action \<Rightarrow> nat" where
  "parents_needed a = (if names_entity a then length (a_scope a) - 1 else length (a_scope a))"

definition ext_id_subst :: string where
  "ext_id_subst = CHR 0x24 # ''ext_id''"

definition acts_on_a_row :: "action \<Rightarrow> bool" where
  "acts_on_a_row a \<longleftrightarrow> names_entity a \<or> (\<exists>f \<in> set (a_form a). f_value f = Some ext_id_subst)"

section \<open>Kinds and namespaces\<close>

datatype role = Ok | Off | Pending | Error | Warn | Info | Ending | Muted | Neutral

record list_params =
  lp_page :: bool
  lp_limit :: bool
  lp_filter :: bool
  lp_orderby :: bool
  lp_select :: bool
  lp_required :: bool

record ns_info =
  n_name :: string
  n_version :: string
  n_versions :: "string list"

record kind =
  k_id :: string
  k_namespace :: string
  k_version :: string
  k_since :: string
  k_display :: string
  k_aliases :: "string list"
  k_poll_secs :: nat
  k_list_path :: string
  k_get_path :: "string option"
  k_list_params :: list_params
  k_orderby :: "string option"
  k_probe_by :: "string option"
  k_max_rows :: "nat option"
  k_parent :: "string option"
  k_actions :: "action list"
  k_action_kind :: "string option"
  k_action_parents :: "string list"
  k_rate :: rate_limit
  k_select :: "string option"
  k_ext_id_key :: string
  k_name_path :: string
  k_warm :: bool
  k_status_roles :: "(string \<times> role) list"

definition is_top_level :: "kind \<Rightarrow> bool" where
  "is_top_level k \<longleftrightarrow> k_parent k = None"

text \<open>\<open>Kind::action\<close>, \<open>kind\<close> and \<open>namespace\<close>: the first entry of a table with the name.\<close>

definition kind_action :: "kind \<Rightarrow> string \<Rightarrow> action option" where
  "kind_action k name = find (\<lambda>a. a_name a = name) (k_actions k)"

definition kind_of_id :: "kind list \<Rightarrow> string \<Rightarrow> kind option" where
  "kind_of_id kinds i = find (\<lambda>k. k_id k = i) kinds"

definition namespace_of :: "ns_info list \<Rightarrow> string \<Rightarrow> ns_info option" where
  "namespace_of nss name = find (\<lambda>n. n_name n = name) nss"

definition action_target :: "kind list \<Rightarrow> kind \<Rightarrow> kind" where
  "action_target kinds k = (case k_action_kind k of
       None \<Rightarrow> k
     | Some i \<Rightarrow> (case kind_of_id kinds i of None \<Rightarrow> k | Some t \<Rightarrow> t))"

section \<open>API versions\<close>

definition ga_rank :: nat where
  "ga_rank = 2"

text \<open>The length of the UTF-8 character a leading byte opens (\<open>char::len_utf8\<close>).\<close>

definition utf8_len :: "char \<Rightarrow> nat" where
  "utf8_len c = (let n = (of_char c :: nat) in
     if n < 0x80 then 1 else if n < 0xE0 then 2 else if n < 0xF0 then 3 else 4)"

definition parse_or_zero :: "string \<Rightarrow> nat" where
  "parse_or_zero s = (case parse_uint u64_max s of None \<Rightarrow> 0 | Some n \<Rightarrow> n)"

definition stage_key :: "string \<Rightarrow> nat list" where
  "stage_key stage = (case stage of
       [] \<Rightarrow> [ga_rank, 0]
     | c # _ \<Rightarrow> [if c = CHR ''a'' then 0 else if c = CHR ''b'' then 1 else ga_rank,
                  parse_or_zero (drop (utf8_len c) stage)])"

definition version_key :: "string \<Rightarrow> nat list" where
  "version_key version =
     (let parts = split_on CHR ''.'' (case strip_prefix ''v'' version of
            None \<Rightarrow> version | Some s \<Rightarrow> s)
      in case parts of
           [] \<Rightarrow> [0, 0, ga_rank, 0]
         | [major] \<Rightarrow> [parse_or_zero major, 0, ga_rank, 0]
         | [major, minor] \<Rightarrow> [parse_or_zero major, parse_or_zero minor, ga_rank, 0]
         | major # minor # stage # _ \<Rightarrow>
             [parse_or_zero major, parse_or_zero minor] @ stage_key stage)"

text \<open>Arrays compare lexicographically.\<close>

definition served_at :: "kind \<Rightarrow> string \<Rightarrow> bool" where
  "served_at k pinned \<longleftrightarrow> version_key (k_since k) \<le> version_key pinned"

lemma length_version_key: "length (version_key v) = 4"
  by (auto simp: version_key_def stage_key_def Let_def split: list.splits)

lemma served_at_since [simp]: "served_at k (k_since k)"
  by (simp add: served_at_def)

lemma served_at_mono:
  "served_at k v \<Longrightarrow> version_key v \<le> version_key w \<Longrightarrow> served_at k w"
  by (simp add: served_at_def)

section \<open>Path templates\<close>

definition placeholder_count :: "string \<Rightarrow> nat" where
  "placeholder_count path = length (filter (\<lambda>c. c = CHR ''{'') path)"

function fill_loop :: "string \<Rightarrow> string list \<Rightarrow> string option" where
  "fill_loop rest values =
     (if CHR ''{'' \<notin> set rest then Some rest
      else let before = takeWhile (\<lambda>c. c \<noteq> CHR ''{'') rest;
               open_brace = dropWhile (\<lambda>c. c \<noteq> CHR ''{'') rest
           in if CHR ''}'' \<notin> set open_brace then None
              else (case values of
                  [] \<Rightarrow> None
                | v # vs \<Rightarrow> map_option (\<lambda>out. before @ v @ out)
                    (fill_loop (tl (dropWhile (\<lambda>c. c \<noteq> CHR ''}'') open_brace)) vs)))"
  by pat_completeness auto
termination
  by (relation "measure (\<lambda>(rest, values). length values)") auto

declare fill_loop.simps [simp del]

definition fill_placeholders :: "string \<Rightarrow> string list \<Rightarrow> string option" where
  "fill_placeholders path values =
     (if placeholder_count path \<noteq> length values then None else fill_loop path values)"

definition with_version :: "string \<Rightarrow> string \<Rightarrow> string" where
  "with_version path version =
     (let segments = split_on CHR ''/'' path
      in if length segments < 3 \<or> \<not> prefix ''/'' path then path
         else join ''/'' (segments[2 := version]))"

definition version_in :: "string \<Rightarrow> string option" where
  "version_in path =
     (if \<not> prefix ''/'' path then None
      else let segments = split_on CHR ''/'' path
           in if 2 < length segments \<and> segments ! 2 \<noteq> [] then Some (segments ! 2) else None)"

text \<open>
  What a template is: text before the first placeholder, then each placeholder's name and the
  text after it.
\<close>

fun mk_template :: "string \<Rightarrow> (string \<times> string) list \<Rightarrow> string" where
  "mk_template s [] = s"
| "mk_template s ((n, t) # ps) = s @ ''{'' @ n @ ''}'' @ mk_template t ps"

fun mk_filled :: "string \<Rightarrow> (string \<times> string) list \<Rightarrow> string list \<Rightarrow> string" where
  "mk_filled s ((n, t) # ps) (v # vs) = s @ v @ mk_filled t ps vs"
| "mk_filled s _ _ = s"

definition plain_text :: "string \<Rightarrow> bool" where
  "plain_text s \<longleftrightarrow> CHR ''{'' \<notin> set s \<and> CHR ''}'' \<notin> set s"

definition template_ok :: "string \<Rightarrow> (string \<times> string) list \<Rightarrow> bool" where
  "template_ok s ps \<longleftrightarrow> plain_text s \<and> (\<forall>(n, t) \<in> set ps. plain_text n \<and> plain_text t)"

lemma placeholder_count_append [simp]:
  "placeholder_count (s @ t) = placeholder_count s + placeholder_count t"
  by (simp add: placeholder_count_def)

lemma placeholder_count_plain: "plain_text s \<Longrightarrow> placeholder_count s = 0"
  by (auto simp: placeholder_count_def plain_text_def filter_empty_conv)

lemma placeholder_count_template:
  "template_ok s ps \<Longrightarrow> placeholder_count (mk_template s ps) = length ps"
proof (induction s ps rule: mk_template.induct)
  case (1 s)
  then show ?case by (simp add: template_ok_def placeholder_count_plain)
next
  case (2 s n t ps)
  then have "template_ok t ps" and "plain_text s" and "plain_text n"
    by (auto simp: template_ok_def)
  moreover from this have "filter (\<lambda>c. c = CHR ''{'') n = []"
    by (auto simp: plain_text_def filter_empty_conv)
  ultimately show ?case
    using 2 by (simp add: placeholder_count_plain) (simp add: placeholder_count_def)
qed

lemma fill_loop_plain: "plain_text s \<Longrightarrow> fill_loop s vs = Some s"
  by (simp add: fill_loop.simps plain_text_def)

lemma fill_loop_step:
  assumes "plain_text s" and "plain_text n"
  shows "fill_loop (s @ ''{'' @ n @ ''}'' @ rest) (v # vs) =
     map_option (\<lambda>out. s @ v @ out) (fill_loop rest vs)"
proof -
  have s: "\<forall>c \<in> set s. c \<noteq> CHR ''{''" and n: "\<forall>c \<in> set n. c \<noteq> CHR ''}''"
    using assms by (auto simp: plain_text_def)
  have "takeWhile (\<lambda>c. c \<noteq> CHR ''{'') (s @ ''{'' @ n @ ''}'' @ rest) = s"
    using s by (simp add: takeWhile_append2)
  moreover have "dropWhile (\<lambda>c. c \<noteq> CHR ''{'') (s @ ''{'' @ n @ ''}'' @ rest) =
      ''{'' @ n @ ''}'' @ rest"
    using s by (simp add: dropWhile_append2)
  moreover have "dropWhile (\<lambda>c. c \<noteq> CHR ''}'') (''{'' @ n @ ''}'' @ rest) = ''}'' @ rest"
    using n by (simp add: dropWhile_append2)
  ultimately show ?thesis
    by (subst fill_loop.simps) (simp add: Let_def)
qed

lemma fill_loop_template:
  "template_ok s ps \<Longrightarrow> length vs = length ps \<Longrightarrow>
     fill_loop (mk_template s ps) vs = Some (mk_filled s ps vs)"
proof (induction s ps arbitrary: vs rule: mk_template.induct)
  case (1 s)
  then show ?case by (simp add: template_ok_def fill_loop_plain)
next
  case (2 s n t ps)
  then obtain v vs' where vs: "vs = v # vs'" and "length vs' = length ps"
    by (cases vs) auto
  moreover have "template_ok t ps" and "plain_text s" and "plain_text n"
    using 2(2) by (auto simp: template_ok_def)
  ultimately show ?case
    using 2(1) [of vs'] fill_loop_step [of s n "mk_template t ps" v vs'] by simp
qed

text \<open>
  Paths by their segments: with a leading slash the split has an empty first segment.
\<close>

lemma split_version:
  assumes "prefix ''/'' path" and "length (split_on CHR ''/'' path) \<ge> 3" and "CHR ''/'' \<notin> set v"
  shows "split_on CHR ''/'' (with_version path v) = (split_on CHR ''/'' path)[2 := v]"
proof -
  let ?ss = "(split_on CHR ''/'' path)[2 := v]"
  have "set ?ss \<subseteq> insert v (set (split_on CHR ''/'' path))"
    by (rule set_update_subset_insert)
  then have "\<forall>w \<in> set ?ss. CHR ''/'' \<notin> set w"
    using assms(3) split_on_no_sep by blast
  moreover have "?ss \<noteq> []" using assms(2) by auto
  ultimately have "split_on CHR ''/'' (join ''/'' ?ss) = ?ss"
    by (rule split_on_join [rotated])
  then show ?thesis using assms by (simp add: with_version_def Let_def)
qed

lemma prefix_with_version:
  assumes "prefix ''/'' path"
  shows "prefix ''/'' (with_version path v)"
proof (cases "length (split_on CHR ''/'' path) < 3")
  case True
  then show ?thesis using assms by (simp add: with_version_def)
next
  case False
  obtain p where p: "path = CHR ''/'' # p" using assms by (auto elim: prefixE)
  then obtain w ws where "split_on CHR ''/'' path = [] # w # ws"
    using False by (cases "split_on CHR ''/'' p") auto
  then show ?thesis
    using False assms by (cases ws) (auto simp: with_version_def Let_def join_Cons)
qed

text \<open>\<open>version_in\<close> is the inverse of \<open>with_version\<close>.\<close>

lemma version_in_with_version:
  assumes "prefix ''/'' path" and "length (split_on CHR ''/'' path) \<ge> 3"
    and "CHR ''/'' \<notin> set v" and "v \<noteq> []"
  shows "version_in (with_version path v) = Some v"
  using assms prefix_with_version [of path v] split_version [of path v]
  by (simp add: version_in_def Let_def)

lemma with_version_version_in: "version_in path = Some v \<Longrightarrow> with_version path v = path"
  by (auto simp: version_in_def with_version_def Let_def join_split_on split: if_splits)

lemma with_version_twice:
  assumes "CHR ''/'' \<notin> set v"
  shows "with_version (with_version path v) w = with_version path w"
proof (cases "prefix ''/'' path \<and> length (split_on CHR ''/'' path) \<ge> 3")
  case True
  then show ?thesis
    using assms split_version [of path v] prefix_with_version [of path v]
    by (simp add: with_version_def [of "with_version path v"] with_version_def [of path w] Let_def)
next
  case False
  then show ?thesis by (auto simp: with_version_def Let_def)
qed

end
