(* ===== verification/Bucket.thy ===== *)
theory Bucket
  imports Catalog
begin

text \<open>
  The preventive rate budget of one operation, or of the whole host
  (\<open>crates/prism/src/bucket.rs\<close>): a sliding window of the last takes, held empty for a while
  after a 429. The operations are pure in the source too: the clock is an argument.
\<close>

section \<open>State and operations\<close>

record bucket =
  limit :: rate_limit
  taken :: "instant list"
  blocked_until :: "instant option"

definition host_ceiling :: rate_limit where
  "host_ceiling = \<lparr>rl_count = 30, rl_per_secs = 1\<rparr>"

definition host_start :: rate_limit where
  "host_start = \<lparr>rl_count = 3, rl_per_secs = 1\<rparr>"

text \<open>\<open>limits::MAX_RETRY_AFTER\<close>: the longest hold this client sits out.\<close>

definition max_retry_after :: duration where
  "max_retry_after = from_secs 60"

definition per :: "bucket \<Rightarrow> duration" where
  "per b = from_secs (rl_per_secs (limit b))"

definition relimit :: "rate_limit \<Rightarrow> bucket \<Rightarrow> bucket" where
  "relimit l b = b\<lparr>limit := \<lparr>rl_count = max (rl_count l) 1, rl_per_secs = max (rl_per_secs l) 1\<rparr>\<rparr>"

definition new_bucket :: "rate_limit \<Rightarrow> bucket" where
  "new_bucket l = relimit l \<lparr>limit = l, taken = [], blocked_until = None\<rparr>"

definition live :: "bucket \<Rightarrow> instant \<Rightarrow> instant list" where
  "live b now = filter (within (per b) now) (taken b)"

text \<open>
  The wait \<open>take_token\<close> would report. The \<open>?\<close> on \<open>nth\<close> returns \<open>None\<close> past the end; a tier of
  at least one, which \<open>relimit\<close> establishes, never gets there.
\<close>

definition peek :: "bucket \<Rightarrow> instant \<Rightarrow> duration option" where
  "peek b now = (case blocked_until b of
       Some until \<Rightarrow> (if now < until then Some (until - now) else None)
     | None \<Rightarrow>
         (let lv = live b now; n = length lv; c = rl_count (limit b)
          in if n < c then None
             else if n - c < n then Some (per b - (now - lv ! (n - c))) else None))"

definition take_token :: "instant \<Rightarrow> bucket \<Rightarrow> bucket \<times> duration option" where
  "take_token now b = (case peek b now of
       Some wait \<Rightarrow> (b, Some wait)
     | None \<Rightarrow>
         (let remembered = (case blocked_until b of Some _ \<Rightarrow> [] | None \<Rightarrow> taken b)
          in (b\<lparr>blocked_until := None, taken := prune (per b) now remembered @ [now]\<rparr>, None)))"

definition drain :: "instant \<Rightarrow> duration \<Rightarrow> bucket \<Rightarrow> bucket" where
  "drain now retry_after b =
     (let until = (case checked_add now retry_after of
            Some u \<Rightarrow> u | None \<Rightarrow> now + max_retry_after)
      in b\<lparr>taken := replicate (rl_count (limit b)) now,
           blocked_until := Some (case blocked_until b of
             None \<Rightarrow> until | Some held \<Rightarrow> max held until)\<rparr>)"

definition debt :: "bucket \<Rightarrow> nat" where
  "debt b = sat_u32 (length (taken b))"

lemmas bucket_defs = peek_def take_token_def drain_def relimit_def new_bucket_def live_def per_def

section \<open>The invariant\<close>

text \<open>
  The tier is at least one over one second, the takes are in time order and none is in the
  future.
\<close>

definition bucket_ok :: "bucket \<Rightarrow> instant \<Rightarrow> bool" where
  "bucket_ok b now \<longleftrightarrow> rate_ok (limit b) \<and> sorted (taken b) \<and> (\<forall>t \<in> set (taken b). t \<le> now)"

lemma bucket_ok_later: "bucket_ok b now \<Longrightarrow> now \<le> now' \<Longrightarrow> bucket_ok b now'"
  by (auto simp: bucket_ok_def)

lemma bucket_ok_new [inv_intros]: "bucket_ok (new_bucket l) now"
  by (simp add: bucket_ok_def new_bucket_def relimit_def rate_ok_def)

lemma bucket_ok_relimit [inv_intros]: "bucket_ok b now \<Longrightarrow> bucket_ok (relimit l b) now"
  by (simp add: bucket_ok_def relimit_def rate_ok_def)

lemma bucket_ok_drain [inv_intros]: "bucket_ok b now \<Longrightarrow> bucket_ok (drain now d b) now"
  by (simp add: bucket_ok_def drain_def Let_def)

lemma bucket_ok_take [inv_intros]:
  assumes "bucket_ok b now"
  shows "bucket_ok (fst (take_token now b)) now"
proof -
  have "bucket_ok (b\<lparr>blocked_until := None, taken := prune (per b) now r @ [now]\<rparr>) now"
    if "sorted r" and "\<forall>t \<in> set r. t \<le> now" for r
    using that assms set_prune_subset [of "per b" now r]
    by (auto simp: bucket_ok_def sorted_append)
  then show ?thesis
    using assms by (auto simp: take_token_def Let_def bucket_ok_def split: option.splits)
qed

lemma limit_take [frame_simps]: "limit (fst (take_token now b)) = limit b"
  by (simp add: take_token_def Let_def split: option.splits)

lemma limit_drain [frame_simps]: "limit (drain now d b) = limit b"
  by (simp add: drain_def Let_def)

lemma per_pos: "bucket_ok b now \<Longrightarrow> 0 < per b"
  by (auto simp: bucket_ok_def per_def rate_ok_def)

section \<open>Waiting\<close>

lemma peek_window:
  assumes "bucket_ok b now" and "blocked_until b = None"
  shows "peek b now = None \<longleftrightarrow> length (live b now) < rl_count (limit b)"
  using assms by (auto simp: peek_def Let_def bucket_ok_def rate_ok_def)

lemma length_live_later: "now \<le> now' \<Longrightarrow> length (live b now') \<le> length (live b now)"
proof -
  assume le: "now \<le> now'"
  have "live b now' = filter (within (per b) now') (live b now)"
    using le within_earlier by (auto simp: live_def intro!: filter_cong)
  then show ?thesis by (metis length_filter_le)
qed

text \<open>A free bucket stays free while nothing is taken.\<close>

lemma peek_free_later:
  assumes "bucket_ok b now" and "peek b now = None" and "now \<le> now'"
  shows "peek b now' = None"
proof (cases "blocked_until b")
  case None
  then show ?thesis
    using assms peek_window [of b now] peek_window [of b now'] bucket_ok_later [of b now now']
      length_live_later [of now now' b] by simp
next
  case (Some u)
  then show ?thesis using assms by (auto simp: peek_def split: if_splits)
qed

lemma peek_wait_positive:
  assumes "bucket_ok b now" and "peek b now = Some w"
  shows "0 < w"
proof (cases "blocked_until b")
  case None
  let ?lv = "live b now" and ?c = "rl_count (limit b)"
  have lt: "length ?lv - ?c < length ?lv" and w: "w = per b - (now - ?lv ! (length ?lv - ?c))"
    using assms None by (auto simp: peek_def Let_def split: if_splits)
  have "?lv ! (length ?lv - ?c) \<in> set ?lv" using lt by simp
  then have "now - ?lv ! (length ?lv - ?c) < per b" by (auto simp: live_def within_def)
  with w show ?thesis by simp
next
  case (Some u)
  then show ?thesis using assms by (auto simp: peek_def split: if_splits)
qed

text \<open>
  After the reported wait the token is there: the take that has to fall out of the window has
  fallen out, and at most \<open>count - 1\<close> newer ones are left.
\<close>

lemma peek_wait_suffices:
  assumes ok: "bucket_ok b now" and p: "peek b now = Some w"
  shows "peek b (now + w) = None"
proof (cases "blocked_until b")
  case None
  let ?lv = "live b now" and ?c = "rl_count (limit b)"
  let ?k = "length ?lv - ?c"
  have c: "1 \<le> ?c" "?c \<le> length ?lv" and lt: "?k < length ?lv"
    and w: "w = per b - (now - ?lv ! ?k)"
    using assms None by (auto simp: peek_def Let_def bucket_ok_def rate_ok_def split: if_splits)
  have srt: "sorted ?lv" using ok by (auto simp: live_def bucket_ok_def sorted_filter [of id, simplified])
  have mem: "?lv ! ?k \<in> set ?lv" using lt by simp
  have old: "now - ?lv ! ?k < per b" "?lv ! ?k \<le> now"
    using mem ok by (auto simp: live_def within_def bucket_ok_def)
  have gone: "\<not> within (per b) (now + w) t" if early: "t \<in> set (take (Suc ?k) ?lv)" for t
  proof -
    obtain i where "i < length (take (Suc ?k) ?lv)" "t = take (Suc ?k) ?lv ! i"
      using early unfolding in_set_conv_nth by blast
    then have i: "i \<le> ?k" "t = ?lv ! i" by auto
    then have "t \<le> ?lv ! ?k" using srt lt sorted_nth_mono [of ?lv i ?k] by simp
    with w old show ?thesis by (simp add: within_def)
  qed
  have "live b (now + w) = filter (within (per b) (now + w)) ?lv"
    using within_earlier by (auto simp: live_def intro!: filter_cong)
  also have "\<dots> = filter (within (per b) (now + w)) (take (Suc ?k) ?lv @ drop (Suc ?k) ?lv)"
    by simp
  also have "\<dots> = filter (within (per b) (now + w)) (drop (Suc ?k) ?lv)"
    using gone by (simp only: filter_append) (simp add: filter_empty_conv)
  finally have "length (live b (now + w)) \<le> length (drop (Suc ?k) ?lv)"
    by (simp only: length_filter_le)
  then have "length (live b (now + w)) < ?c" using c by simp
  then show ?thesis
    using peek_window [of b "now + w"] bucket_ok_later [OF ok, of "now + w"] None by simp
next
  case (Some u)
  then show ?thesis using p by (auto simp: peek_def split: if_splits)
qed

text \<open>And not before: the reported wait is the shortest one.\<close>

lemma peek_wait_needed:
  assumes ok: "bucket_ok b now" and p: "peek b now = Some w" and early: "v < w"
  shows "peek b (now + v) \<noteq> None"
proof (cases "blocked_until b")
  case None
  let ?lv = "live b now" and ?c = "rl_count (limit b)"
  let ?k = "length ?lv - ?c"
  have c: "1 \<le> ?c" "?c \<le> length ?lv" and lt: "?k < length ?lv"
    and w: "w = per b - (now - ?lv ! ?k)"
    using ok p None by (auto simp: peek_def Let_def bucket_ok_def rate_ok_def split: if_splits)
  have srt: "sorted ?lv" using ok by (auto simp: live_def bucket_ok_def sorted_filter [of id, simplified])
  have le: "?lv ! ?k \<le> now"
    using lt ok nth_mem [OF lt] by (auto simp: live_def bucket_ok_def)
  have stays: "within (per b) (now + v) t" if late: "t \<in> set (drop ?k ?lv)" for t
  proof -
    obtain i where "i < length (drop ?k ?lv)" "t = drop ?k ?lv ! i"
      using late unfolding in_set_conv_nth by blast
    then have "?lv ! ?k \<le> t" using srt lt sorted_nth_mono [of ?lv ?k "?k + i"] by simp
    with w le early show ?thesis by (simp add: within_def)
  qed
  have "filter (within (per b) (now + v)) (drop ?k ?lv) = drop ?k ?lv"
    using stays by simp
  moreover have "live b (now + v) = filter (within (per b) (now + v)) (take ?k ?lv @ drop ?k ?lv)"
    using within_earlier by (auto simp: live_def intro!: filter_cong)
  ultimately have "length (drop ?k ?lv) \<le> length (live b (now + v))"
    by (simp only: filter_append length_append)
  then have "?c \<le> length (live b (now + v))" using c by simp
  then show ?thesis
    using peek_window [of b "now + v"] bucket_ok_later [OF ok, of "now + v"] None by simp
next
  case (Some u)
  then show ?thesis using p early by (auto simp: peek_def split: if_splits)
qed

lemma take_refused: "peek b now = Some w \<Longrightarrow> take_token now b = (b, Some w)"
  by (simp add: take_token_def)

lemma take_granted: "peek b now = None \<Longrightarrow> snd (take_token now b) = None"
  by (simp add: take_token_def Let_def)

section \<open>The tier over any span\<close>

text \<open>Attempts at the given times, and the times at which a token was granted.\<close>

fun take_run :: "bucket \<Rightarrow> instant list \<Rightarrow> bucket \<times> instant list" where
  "take_run b [] = (b, [])"
| "take_run b (t # ts) = (case take_token t b of
       (b', None) \<Rightarrow> (case take_run b' ts of (b'', gs) \<Rightarrow> (b'', t # gs))
     | (b', Some w) \<Rightarrow> take_run b' ts)"

definition in_span :: "duration \<Rightarrow> instant \<Rightarrow> instant \<Rightarrow> bool" where
  "in_span w x t \<longleftrightarrow> x \<le> t \<and> t < x + w"

definition spans_ok :: "bucket \<Rightarrow> instant list \<Rightarrow> bool" where
  "spans_ok b gs \<longleftrightarrow> (\<forall>x. length (filter (in_span (per b) x) gs) \<le> rl_count (limit b))"

lemma per_cong: "limit b' = limit b \<Longrightarrow> per b' = per b"
  by (simp add: per_def)

lemma spans_ok_cong: "limit b' = limit b \<Longrightarrow> spans_ok b' gs \<longleftrightarrow> spans_ok b gs"
  by (simp add: spans_ok_def per_def)

lemma take_run_granted:
  "peek b t = None \<Longrightarrow>
     snd (take_run b (t # ts)) = t # snd (take_run (fst (take_token t b)) ts)"
  by (simp add: take_token_def Let_def split: prod.splits)

lemma take_run_refused: "peek b t = Some w \<Longrightarrow> take_run b (t # ts) = take_run b ts"
  by (simp add: take_token_def)

text \<open>
  What ties the deque to the whole history \<open>log\<close> of grants: from \<open>now\<close> on the two agree on
  what is inside the window.
\<close>

definition remembers :: "bucket \<Rightarrow> instant list \<Rightarrow> instant \<Rightarrow> bool" where
  "remembers b log now \<longleftrightarrow> blocked_until b = None \<and> bucket_ok b now \<and> (\<forall>t \<in> set log. t \<le> now) \<and>
     (\<forall>t \<ge> now. filter (within (per b) t) log = filter (within (per b) t) (taken b)) \<and>
     spans_ok b log"

lemma remembers_later: "remembers b log now \<Longrightarrow> now \<le> t \<Longrightarrow> remembers b log t"
  by (auto simp: remembers_def bucket_ok_later)

lemma take_window:
  assumes "blocked_until b = None" and "bucket_ok b t" and "peek b t = None"
  shows "take_token t b = (b\<lparr>taken := live b t @ [t]\<rparr>, None)"
  using assms by (simp add: take_token_def live_def bucket_ok_def prune_eq_filter)

lemma spans_ok_snoc:
  assumes "spans_ok b log" and "\<forall>s \<in> set log. s \<le> t"
    and "length (filter (within (per b) t) log) < rl_count (limit b)"
  shows "spans_ok b (log @ [t])"
  unfolding spans_ok_def
proof
  fix x
  show "length (filter (in_span (per b) x) (log @ [t])) \<le> rl_count (limit b)"
  proof (cases "in_span (per b) x t")
    case True
    have "filter (in_span (per b) x) log = filter (in_span (per b) x) (filter (within (per b) t) log)"
      using True assms(2) by (auto simp: in_span_def within_def intro!: filter_cong)
    then have "length (filter (in_span (per b) x) log) \<le> length (filter (within (per b) t) log)"
      by (metis length_filter_le)
    with assms(3) show ?thesis by simp
  next
    case False
    then show ?thesis using assms(1) by (simp add: spans_ok_def)
  qed
qed

lemma remembers_take:
  assumes r: "remembers b log now" and "now \<le> t" and p: "peek b t = None"
  shows "remembers (fst (take_token t b)) (log @ [t]) t"
proof -
  have rt: "remembers b log t" using r \<open>now \<le> t\<close> by (rule remembers_later)
  then have ok: "bucket_ok b t" and blk: "blocked_until b = None"
    by (auto simp: remembers_def)
  have room: "length (filter (within (per b) t) log) < rl_count (limit b)"
    using rt p peek_window [OF ok blk] by (simp add: remembers_def live_def)
  have same: "filter (within (per b) u) (live b t) = filter (within (per b) u) (taken b)" if "t \<le> u" for u
    using that within_earlier by (auto simp: live_def intro!: filter_cong)
  have "bucket_ok (b\<lparr>taken := live b t @ [t]\<rparr>) t"
    using bucket_ok_take [OF ok] take_window [OF blk ok p] by simp
  moreover have "spans_ok b (log @ [t])"
    using rt room by (intro spans_ok_snoc) (auto simp: remembers_def)
  ultimately show ?thesis
    using rt take_window [OF blk ok p] same per_cong [of "b\<lparr>taken := live b t @ [t]\<rparr>" b]
      spans_ok_cong [of "b\<lparr>taken := live b t @ [t]\<rparr>" b]
    by (auto simp: remembers_def)
qed

lemma take_run_remembers:
  assumes "remembers b log now" and "sorted ts" and "\<forall>t \<in> set ts. now \<le> t"
  shows "spans_ok b (log @ snd (take_run b ts))"
  using assms
proof (induction ts arbitrary: b log now)
  case Nil
  then show ?case by (simp add: remembers_def)
next
  case (Cons t ts)
  show ?case
  proof (cases "peek b t")
    case None
    let ?b = "fst (take_token t b)"
    have "remembers ?b (log @ [t]) t"
      using remembers_take Cons.prems None by auto
    then have "spans_ok ?b ((log @ [t]) @ snd (take_run ?b ts))"
      using Cons.prems by (intro Cons.IH [where now = t]) auto
    then show ?thesis
      using take_run_granted [OF None, of ts] spans_ok_cong [OF limit_take] by simp
  next
    case (Some w)
    then show ?thesis
      using Cons.IH [where now = now] Cons.prems take_run_refused [OF Some] by auto
  qed
qed

lemma remembers_new: "remembers (new_bucket l) [] now"
  using bucket_ok_new [of l now]
  by (simp add: remembers_def spans_ok_def new_bucket_def relimit_def)

section \<open>A hold\<close>

text \<open>
  After a drain nothing is granted before the hold ends, and the first take past it starts the
  window afresh: what was taken before the 429 is no longer counted.
\<close>

lemma drain_holds:
  assumes "checked_add now d = Some until" and "t < until"
  shows "\<exists>w. peek (drain now d b) t = Some w \<and> until \<le> t + w"
  using assms by (auto simp: peek_def drain_def Let_def split: option.splits)

lemma take_after_hold:
  assumes "blocked_until b = Some u" and "u \<le> t"
  shows "take_token t b = (b\<lparr>blocked_until := None, taken := [t]\<rparr>, None)"
  using assms by (simp add: take_token_def peek_def)

lemma live_replicate: "0 < per b \<Longrightarrow> taken b = replicate n t \<Longrightarrow> live b t = replicate n t"
  by (simp add: live_def within_def filter_replicate)

lemma take_run_burst:
  assumes "blocked_until b = None" and "bucket_ok b t" and "taken b = replicate n t"
    and "n + m \<le> rl_count (limit b)"
  shows "snd (take_run b (replicate m t)) = replicate m t"
  using assms
proof (induction m arbitrary: b n)
  case 0
  then show ?case by simp
next
  case (Suc m)
  have "live b t = replicate n t"
    using Suc.prems per_pos by (intro live_replicate) auto
  moreover from this have free: "peek b t = None"
    using Suc.prems peek_window by simp
  ultimately have step: "take_token t b = (b\<lparr>taken := replicate (Suc n) t\<rparr>, None)"
    using take_window Suc.prems by (simp add: replicate_append_same)
  moreover have "bucket_ok (b\<lparr>taken := replicate (Suc n) t\<rparr>) t"
    using bucket_ok_take [OF Suc.prems(2)] step by simp
  ultimately show ?case
    using Suc.IH [of "b\<lparr>taken := replicate (Suc n) t\<rparr>" "Suc n"] Suc.prems
      take_run_granted [OF free, of "replicate m t"] by simp
qed

lemma burst_after_hold:
  assumes "bucket_ok b now" and "blocked_until b = Some u" and "u \<le> t" and "now \<le> t"
  shows "snd (take_run b (replicate (rl_count (limit b)) t)) = replicate (rl_count (limit b)) t"
proof -
  let ?b = "b\<lparr>blocked_until := None, taken := [t]\<rparr>"
  obtain c where c: "rl_count (limit b) = Suc c"
    using assms(1) by (cases "rl_count (limit b)") (auto simp: bucket_ok_def rate_ok_def)
  have "bucket_ok ?b t" using assms(1) by (simp add: bucket_ok_def)
  then have "snd (take_run ?b (replicate c t)) = replicate c t"
    using c by (intro take_run_burst [where n = 1]) auto
  moreover have "peek b t = None" using assms(2,3) by (simp add: peek_def)
  ultimately show ?thesis
    using c take_after_hold [OF assms(2,3)] take_run_granted [of b t "replicate c t"] by simp
qed

section \<open>Properties\<close>

lemmas bucket_eval = bucket_defs prune_def within_def Let_def from_secs_def from_millis_def
  host_start_def

text \<open>
  C1: over any span of one window, a bucket grants at most its tier, whatever the times of the
  attempts: a sliding window has no seam across which a tier could be spent twice.
\<close>

theorem tier_never_exceeded:
  assumes "sorted ts"
  shows "length (filter (in_span (per (new_bucket l)) x) (snd (take_run (new_bucket l) ts)))
    \<le> rl_count (limit (new_bucket l))"
  using take_run_remembers [OF remembers_new [of l 0] assms] by (simp add: spans_ok_def)

theorem tier_never_exceeded_witness:
  "let ms = map from_millis [0, 990, 990, 1000, 1001] in
     sorted ms \<and> snd (take_run (new_bucket host_start) ms) = map from_millis [0, 990, 990, 1000] \<and>
     length (filter (in_span (per (new_bucket host_start)) (from_millis 990))
       (snd (take_run (new_bucket host_start) ms))) \<le> rl_count (limit (new_bucket host_start))"
proof -
  have s: "sorted (map from_millis [0, 990, 990, 1000, 1001])"
    by (simp add: from_millis_def)
  have r: "snd (take_run (new_bucket host_start) (map from_millis [0, 990, 990, 1000, 1001]))
      = map from_millis [0, 990, 990, 1000]"
    by (simp add: bucket_eval)
  show ?thesis
    unfolding Let_def using s r tier_never_exceeded [OF s, of host_start "from_millis 990"]
    by blast
qed

text \<open>
  C2: the wait a bucket reports is positive, is enough, and nothing shorter is: a caller that
  sleeps it never spins and never sleeps longer than it has to.
\<close>

theorem reported_wait_is_exact:
  assumes "bucket_ok b now" and "peek b now = Some w"
  shows "0 < w \<and> peek b (now + w) = None \<and> (\<forall>v < w. peek b (now + v) \<noteq> None)"
  using assms peek_wait_positive peek_wait_suffices peek_wait_needed by blast

definition busy_bucket :: bucket where
  "busy_bucket = \<lparr>limit = \<lparr>rl_count = 2, rl_per_secs = 1\<rparr>,
     taken = [from_millis 1, from_millis 2, from_millis 3, from_millis 4], blocked_until = None\<rparr>"

theorem reported_wait_is_exact_witness:
  "peek busy_bucket (from_millis 5) = Some (from_millis 998) \<and>
   peek busy_bucket (from_millis 5 + from_millis 998) = None"
proof -
  have ok: "bucket_ok busy_bucket (from_millis 5)"
    by (simp add: bucket_ok_def busy_bucket_def rate_ok_def from_millis_def)
  have p: "peek busy_bucket (from_millis 5) = Some (from_millis 998)"
    by (simp add: bucket_eval busy_bucket_def)
  show ?thesis using p reported_wait_is_exact [OF ok p] by blast
qed

text \<open>
  C3: after a 429 nothing is granted before the hold the server asked for is over, and the
  moment it is over a whole tier is granted at once: the hold replaces the window, and what was
  taken before the 429 is forgotten even when it is less than a window old.
\<close>

theorem hold_then_full_tier:
  assumes "bucket_ok b now" and "checked_add now d = Some until" and "blocked_until b = None"
    and "now \<le> t"
  shows "(t < until \<longrightarrow> snd (take_run (drain now d b) [t]) = []) \<and>
    (until \<le> t \<longrightarrow> snd (take_run (drain now d b) (replicate (rl_count (limit b)) t))
       = replicate (rl_count (limit b)) t)"
proof (intro conjI impI)
  assume "t < until"
  then obtain w where "peek (drain now d b) t = Some w"
    using drain_holds [OF assms(2), of t b] by blast
  then have "take_run (drain now d b) [t] = take_run (drain now d b) []"
    by (rule take_run_refused)
  then show "snd (take_run (drain now d b) [t]) = []" by (simp del: take_run.simps(2))
next
  assume t: "until \<le> t"
  have "blocked_until (drain now d b) = Some until"
    using assms(2,3) by (simp add: drain_def)
  then show "snd (take_run (drain now d b) (replicate (rl_count (limit b)) t))
       = replicate (rl_count (limit b)) t"
    using burst_after_hold [OF bucket_ok_drain [OF assms(1)], of d until t] t assms(4)
    by (simp add: limit_drain)
qed

definition slow_bucket :: bucket where
  "slow_bucket = \<lparr>limit = \<lparr>rl_count = 2, rl_per_secs = 60\<rparr>,
     taken = [from_secs 1, from_secs 1], blocked_until = None\<rparr>"

theorem hold_then_full_tier_witness:
  "snd (take_run (drain (from_secs 2) (from_secs 1) slow_bucket) (replicate 2 (from_secs 3)))
     = replicate 2 (from_secs 3)"
proof -
  have ok: "bucket_ok slow_bucket (from_secs 2)"
    by (simp add: bucket_ok_def slow_bucket_def rate_ok_def)
  have u: "checked_add (from_secs 2) (from_secs 1) = Some (from_secs 3)"
    by (simp add: checked_add_def instant_end_def from_secs_def)
  have f: "blocked_until slow_bucket = None" and c: "rl_count (limit slow_bucket) = 2"
    by (simp_all add: slow_bucket_def)
  show ?thesis
    using hold_then_full_tier [OF ok u f, of "from_secs 3"] c by simp
qed

end
