(* ===== verification/Valve.thy ===== *)
theory Valve
  imports Prelude
begin

text \<open>
  The last resort (\<open>crates/prism/src/valve.rs\<close>): refused credentials are counted over a
  sliding window, and three of them, or one verdict, shut the client for good. The mutex
  around the state makes each operation one step.
\<close>

section \<open>State and operations\<close>

record valve =
  refusals :: "instant list"
  latched :: bool

definition presentations :: nat where
  "presentations = 3"

definition window :: duration where
  "window = from_secs 600"

definition valve_default :: valve where
  "valve_default = \<lparr>refusals = [], latched = False\<rparr>"

definition valve_open :: "valve \<Rightarrow> bool" where
  "valve_open v \<longleftrightarrow> \<not> latched v"

definition latch :: "valve \<Rightarrow> valve" where
  "latch v = v\<lparr>latched := True\<rparr>"

definition refused :: "instant \<Rightarrow> valve \<Rightarrow> valve" where
  "refused now v =
     (let kept = prune window now (refusals v) @ [now]
      in v\<lparr>refusals := kept, latched := latched v \<or> presentations \<le> length kept\<rparr>)"

section \<open>Nothing reopens it\<close>

datatype valve_op = Refused instant | Latch

fun valve_step :: "valve_op \<Rightarrow> valve \<Rightarrow> valve" where
  "valve_step (Refused now) v = refused now v"
| "valve_step Latch v = latch v"

interpretation valve_latch: one_way valve_step latched
proof
  fix v :: valve and e
  assume "latched v"
  then show "latched (valve_step e v)"
    by (cases e) (simp_all add: refused_def latch_def Let_def)
qed

section \<open>The count over a window\<close>

definition refuse_all :: "instant list \<Rightarrow> valve" where
  "refuse_all ts = fold refused ts valve_default"

lemma refuse_all_Nil [simp]: "refuse_all [] = valve_default"
  by (simp add: refuse_all_def)

lemma refuse_all_snoc: "refuse_all (ts @ [t]) = refused t (refuse_all ts)"
  by (simp add: refuse_all_def)

lemma refusals_all:
  "sorted ts \<Longrightarrow> ts \<noteq> [] \<Longrightarrow> refusals (refuse_all ts) = filter (within window (last ts)) ts"
proof (induction ts rule: rev_induct)
  case Nil
  then show ?case by simp
next
  case (snoc t ts)
  have srt: "sorted ts" and le: "\<forall>s \<in> set ts. s \<le> t"
    using snoc.prems by (auto simp: sorted_append)
  have "prune window t (refusals (refuse_all ts)) = filter (within window t) ts"
  proof (cases "ts = []")
    case True
    then show ?thesis by (simp add: valve_default_def)
  next
    case False
    then have eq: "refusals (refuse_all ts) = filter (within window (last ts)) ts"
      using snoc.IH srt by simp
    have "sorted (filter (within window (last ts)) ts)"
      using srt sorted_filter [of id ts] by simp
    moreover have "filter (within window t) (filter (within window (last ts)) ts)
        = filter (within window t) ts"
      using le False within_earlier [of window t _ "last ts"] by (auto intro!: filter_cong)
    ultimately show ?thesis by (simp add: eq prune_eq_filter)
  qed
  moreover have "within window t t" by (simp add: within_def window_def)
  ultimately show ?case by (simp add: refuse_all_snoc refused_def Let_def)
qed

text \<open>Three refusals, the first and the last of them less than a window apart.\<close>

definition crowded :: "instant list \<Rightarrow> bool" where
  "crowded ts \<longleftrightarrow> (\<exists>i. i + 2 < length ts \<and> within window (ts ! (i + 2)) (ts ! i))"

lemma crowded_snoc:
  "crowded (ts @ [t]) \<longleftrightarrow> crowded ts \<or> (2 \<le> length ts \<and> within window t (ts ! (length ts - 2)))"
proof
  assume "crowded (ts @ [t])"
  then obtain i where i: "i + 2 < Suc (length ts)"
    "within window ((ts @ [t]) ! (i + 2)) ((ts @ [t]) ! i)"
    by (auto simp: crowded_def)
  show "crowded ts \<or> (2 \<le> length ts \<and> within window t (ts ! (length ts - 2)))"
  proof (cases "i + 2 = length ts")
    case True
    then have "i = length ts - 2" and "2 \<le> length ts" by linarith+
    with True i(2) show ?thesis by (auto simp: nth_append)
  next
    case False
    then have "i + 2 < length ts" using i(1) by linarith
    with i(2) have "within window (ts ! (i + 2)) (ts ! i)" by (simp add: nth_append)
    with \<open>i + 2 < length ts\<close> show ?thesis unfolding crowded_def by blast
  qed
next
  assume "crowded ts \<or> (2 \<le> length ts \<and> within window t (ts ! (length ts - 2)))"
  then show "crowded (ts @ [t])"
  proof
    assume "crowded ts"
    then obtain i where "i + 2 < length ts" "within window (ts ! (i + 2)) (ts ! i)"
      by (auto simp: crowded_def)
    then show ?thesis
      by (auto simp: crowded_def nth_append intro!: exI [of _ i])
  next
    assume "2 \<le> length ts \<and> within window t (ts ! (length ts - 2))"
    then show ?thesis
      by (auto simp: crowded_def nth_append intro!: exI [of _ "length ts - 2"])
  qed
qed

lemma long_filter_iff:
  assumes "sorted ts"
  shows "2 \<le> length (filter (within w t) ts) \<longleftrightarrow> 2 \<le> length ts \<and> within w t (ts ! (length ts - 2))"
    (is "2 \<le> length ?f \<longleftrightarrow> _")
proof
  assume two: "2 \<le> length ?f"
  then have len: "2 \<le> length ts" using length_filter_le [of "within w t" ts] by linarith
  let ?d = "length ts - length ?f"
  have "?f = drop ?d ts" using assms by (rule filter_within_suffix)
  then have "?f ! (length ?f - 2) = drop ?d ts ! (length ?f - 2)" by (rule arg_cong)
  also have "\<dots> = ts ! (?d + (length ?f - 2))" using length_filter_le by (intro nth_drop) simp
  also have "?d + (length ?f - 2) = length ts - 2"
    using two length_filter_le [of "within w t" ts] by linarith
  finally have "?f ! (length ?f - 2) = ts ! (length ts - 2)" .
  moreover have "?f ! (length ?f - 2) \<in> set ?f" using two by (intro nth_mem) linarith
  ultimately show "2 \<le> length ts \<and> within w t (ts ! (length ts - 2))"
    using len by simp
next
  assume r: "2 \<le> length ts \<and> within w t (ts ! (length ts - 2))"
  then have "\<forall>s \<in> set (drop (length ts - 2) ts). within w t s"
    using assms sorted_nth_mono [of ts "length ts - 2"]
    by (auto simp: in_set_conv_nth intro!: within_mono [of w t "ts ! (length ts - 2)"])
  then have "filter (within w t) (drop (length ts - 2) ts) = drop (length ts - 2) ts"
    by simp
  then have "length (drop (length ts - 2) ts) \<le> length ?f"
    by (metis append_take_drop_id filter_append le_add2 length_append)
  then show "2 \<le> length ?f" using r by simp
qed

lemma latched_refuse_all: "sorted ts \<Longrightarrow> latched (refuse_all ts) \<longleftrightarrow> crowded ts"
proof (induction ts rule: rev_induct)
  case Nil
  then show ?case by (simp add: valve_default_def crowded_def)
next
  case (snoc t ts)
  have srt: "sorted ts" using snoc.prems by (simp add: sorted_append)
  have len: "length (prune window t (refusals (refuse_all ts)) @ [t])
      = length (filter (within window t) ts) + 1"
    using refusals_all [OF snoc.prems] by (simp add: refuse_all_snoc refused_def Let_def within_def window_def)
  have "latched (refuse_all (ts @ [t]))
      \<longleftrightarrow> latched (refuse_all ts) \<or> 3 \<le> length (prune window t (refusals (refuse_all ts)) @ [t])"
    by (simp only: refuse_all_snoc) (simp add: refused_def Let_def presentations_def)
  also have "\<dots> \<longleftrightarrow> crowded ts \<or> 2 \<le> length (filter (within window t) ts)"
    using snoc.IH [OF srt] len by auto
  also have "\<dots> \<longleftrightarrow> crowded (ts @ [t])"
    using long_filter_iff [OF srt] crowded_snoc by simp
  finally show ?case .
qed

section \<open>Properties\<close>

text \<open>
  C4: the valve is shut by refusals alone exactly when three of them fell inside one window,
  so a burst always shuts it and refusals a window apart never add up.
\<close>

theorem valve_shut_iff_crowded:
  assumes "sorted ts"
  shows "valve_open (refuse_all ts) \<longleftrightarrow>
    \<not> (\<exists>i. i + 2 < length ts \<and> ts ! (i + 2) - ts ! i < window)"
  using latched_refuse_all [OF assms] by (simp add: valve_open_def crowded_def within_def)

theorem valve_shut_iff_crowded_witness:
  "valve_open (refuse_all [0, 0, window]) \<and> \<not> valve_open (refuse_all [0, 1, 2])"
proof -
  have a: "sorted [0, 0, window]" and b: "sorted [0, 1, 2 :: nat]"
    by (simp_all add: window_def)
  have "\<not> (\<exists>i. i + 2 < length [0, 0, window] \<and> [0, 0, window] ! (i + 2) - [0, 0, window] ! i < window)"
    by auto
  moreover have "\<exists>i. i + 2 < length [0, 1, 2 :: nat] \<and> [0, 1, 2] ! (i + 2) - [0, 1, 2] ! i < window"
    by (rule exI [of _ 0]) (simp add: window_def from_secs_def)
  ultimately show ?thesis
    using valve_shut_iff_crowded [OF a] valve_shut_iff_crowded [OF b] by blast
qed

text \<open>once shut, no sequence of refusals and verdicts, at any time, opens the valve.\<close>

theorem valve_never_reopens:
  assumes "\<not> valve_open v"
  shows "\<not> valve_open (fold valve_step es v)"
  using assms valve_latch.run_stays_shut by (simp add: valve_open_def)

theorem valve_never_reopens_witness:
  "\<not> valve_open (fold valve_step [Refused (window * 100), Latch] (latch valve_default))"
proof -
  have "\<not> valve_open (latch valve_default)" by (simp add: valve_open_def latch_def)
  then show ?thesis by (rule valve_never_reopens)
qed

end
