(* ===== verification/Rate_Limits.thy ===== *)
theory Rate_Limits
  imports Bucket
begin

text \<open>
  What a response says about its own rate limits (\<open>crates/prism/src/limits.rs\<close>), and
  \<open>retry_after\<close> of \<open>crates/prism/src/client.rs\<close>. A number off the network is a claim: it may
  widen the budget up to a bound and hold the client up to a minute, and no further.
\<close>

section \<open>Headers\<close>

text \<open>
  The header map by lower-case name: \<open>None\<close> for an absent header, \<open>Some None\<close> for a value
  that \<open>HeaderValue::to_str\<close> refuses, \<open>Some (Some s)\<close> for the text it reads.
\<close>

type_synonym headers = "string \<Rightarrow> string option option"

definition number :: "headers \<Rightarrow> string \<Rightarrow> nat option" where
  "number h name = (case h name of Some (Some s) \<Rightarrow> parse_uint u64_max (trim s) | _ \<Rightarrow> None)"

definition retry_after :: "headers \<Rightarrow> duration" where
  "retry_after h = min (from_secs (case number h ''retry-after'' of None \<Rightarrow> 5 | Some s \<Rightarrow> s))
     max_retry_after"

section \<open>What was advertised\<close>

definition reserve :: nat where
  "reserve = 10"

definition max_refresh_period :: nat where
  "max_refresh_period = 3600"

record budget =
  b_limit :: nat
  b_remaining :: nat
  b_reset :: "duration option"

record advertised =
  tier :: "rate_limit option"
  budget :: "budget option"

definition read_headers :: "headers \<Rightarrow> advertised" where
  "read_headers h =
     \<lparr>tier = (case (number h ''x-api-ratelimit-limit'',
                    number h ''x-api-ratelimit-refresh-period-seconds'') of
         (Some c, Some p) \<Rightarrow> Some \<lparr>rl_count = sat_u32 c,
            rl_per_secs = (let q = min p max_refresh_period
              in if q \<le> u32_max then q else max_refresh_period)\<rparr>
       | _ \<Rightarrow> None),
      budget = (case (number h ''x-ratelimit-limit'', number h ''x-ratelimit-remaining'') of
         (Some l, Some r) \<Rightarrow> Some \<lparr>b_limit = l, b_remaining = r,
            b_reset = (case number h ''x-ratelimit-reset'' of
                None \<Rightarrow> None
              | Some s \<Rightarrow> (if 0 < s then Some (min (from_secs s) max_retry_after) else None))\<rparr>
       | _ \<Rightarrow> None)\<rparr>"

definition nearly_spent :: "advertised \<Rightarrow> bool" where
  "nearly_spent a = (case budget a of
       None \<Rightarrow> False
     | Some b \<Rightarrow> 0 < b_limit b \<and> 0 < b_remaining b \<and>
         b_remaining b \<le> max (b_limit b div reserve) 1)"

definition ceiling_of :: "advertised \<Rightarrow> rate_limit \<Rightarrow> rate_limit" where
  "ceiling_of a current =
     (let stated = (case tier a of None \<Rightarrow> current | Some t \<Rightarrow> t);
          t = (if tighter_than host_ceiling stated then host_ceiling else stated)
      in if nearly_spent a then \<lparr>rl_count = 1, rl_per_secs = max (rl_per_secs t) 1\<rparr> else t)"

definition hold :: "advertised \<Rightarrow> rate_limit \<Rightarrow> duration option" where
  "hold a current = (case budget a of
       None \<Rightarrow> None
     | Some b \<Rightarrow> (if 0 < b_remaining b then None
         else Some (min (case b_reset b of
             Some d \<Rightarrow> d | None \<Rightarrow> from_secs (max (rl_per_secs current) 1)) max_retry_after)))"

section \<open>Lemmas\<close>

lemma max_retry_after_pos [simp]: "0 < max_retry_after"
  by (simp add: max_retry_after_def)

lemma retry_after_le: "retry_after h \<le> max_retry_after"
  by (simp add: retry_after_def)

lemma read_headers_tier:
  "tier (read_headers h) = Some t \<Longrightarrow> rl_count t \<le> u32_max \<and> rl_per_secs t \<le> max_refresh_period"
  by (auto simp: read_headers_def Let_def split: option.splits if_splits)

lemma read_headers_reset:
  "budget (read_headers h) = Some b \<Longrightarrow> b_reset b = Some d \<Longrightarrow> 0 < d \<and> d \<le> max_retry_after"
  by (auto simp: read_headers_def split: option.splits if_splits)

lemma ceiling_capped: "\<not> tighter_than host_ceiling (ceiling_of a current)"
  by (auto simp: ceiling_of_def Let_def tighter_than_def host_ceiling_def split: if_splits)

lemma ceiling_brakes:
  "nearly_spent a \<Longrightarrow> rl_count (ceiling_of a current) = 1"
  by (simp add: ceiling_of_def Let_def)

lemma ceiling_silent:
  assumes "tier a = None" and "budget a = None" and "\<not> tighter_than host_ceiling current"
  shows "ceiling_of a current = current"
  using assms by (simp add: ceiling_of_def nearly_spent_def)

lemma hold_bounds: "hold (read_headers h) current = Some d \<Longrightarrow> 0 < d \<and> d \<le> max_retry_after"
  using read_headers_reset [of h]
  by (auto simp: hold_def min_def split: option.splits if_splits)

section \<open>Properties\<close>

text \<open>
  C5: whatever headers arrive, the adopted host tier is never looser than the built-in ceiling,
  its window is at most an hour when the headers set it, a hold is positive and at most a
  minute, and so is the wait after a 429.
\<close>

theorem advertisement_is_bounded:
  "\<not> tighter_than host_ceiling (ceiling_of (read_headers h) current) \<and>
   rl_per_secs (ceiling_of (read_headers h) current) \<le>
     max (max (rl_per_secs current) 1) max_refresh_period \<and>
   (\<forall>d \<in> set_option (hold (read_headers h) current). 0 < d \<and> d \<le> max_retry_after) \<and>
   retry_after h \<le> max_retry_after"
proof (intro conjI)
  show "\<not> tighter_than host_ceiling (ceiling_of (read_headers h) current)"
    by (rule ceiling_capped)
  show "rl_per_secs (ceiling_of (read_headers h) current) \<le>
      max (max (rl_per_secs current) 1) max_refresh_period"
    using read_headers_tier [of h]
    by (auto simp: ceiling_of_def Let_def host_ceiling_def max_refresh_period_def split: option.splits)
  show "\<forall>d \<in> set_option (hold (read_headers h) current). 0 < d \<and> d \<le> max_retry_after"
    using hold_bounds [of h current] by (auto simp: elem_set)
  show "retry_after h \<le> max_retry_after"
    by (rule retry_after_le)
qed

definition lab_headers :: headers where
  "lab_headers = map_of [
     (''x-api-ratelimit-limit'', Some ''3''),
     (''x-api-ratelimit-refresh-period-seconds'', Some ''4294967296''),
     (''x-ratelimit-limit'', Some ''80''),
     (''x-ratelimit-remaining'', Some ''0''),
     (''x-ratelimit-reset'', Some ''9223372036854775807'')]"

lemmas number_eval = number_def trim_graphic graphic_def parse_uint_def digit_val_def
  Let_def u64_max_def

lemma lab_numbers:
  "number lab_headers ''x-api-ratelimit-limit'' = Some 3"
  "number lab_headers ''x-api-ratelimit-refresh-period-seconds'' = Some 4294967296"
  "number lab_headers ''x-ratelimit-limit'' = Some 80"
  "number lab_headers ''x-ratelimit-remaining'' = Some 0"
  "number lab_headers ''x-ratelimit-reset'' = Some 9223372036854775807"
  by (simp_all add: number_eval lab_headers_def)

theorem advertisement_is_bounded_witness:
  "tier (read_headers lab_headers) = Some \<lparr>rl_count = 3, rl_per_secs = 3600\<rparr> \<and>
   hold (read_headers lab_headers) host_start = Some max_retry_after \<and>
   \<not> tighter_than host_ceiling (ceiling_of (read_headers lab_headers) host_start)"
proof -
  have "tier (read_headers lab_headers) = Some \<lparr>rl_count = 3, rl_per_secs = 3600\<rparr>"
    by (simp add: read_headers_def lab_numbers Let_def sat_u32_def u32_max_def max_refresh_period_def)
  moreover have "hold (read_headers lab_headers) host_start = Some max_retry_after"
    by (simp add: read_headers_def hold_def lab_numbers max_retry_after_def from_secs_def)
  ultimately show ?thesis
    using advertisement_is_bounded [of lab_headers host_start] by blast
qed

end
