(* ===== verification/Metrics.thy ===== *)
theory Metrics
  imports Prelude "HOL-Library.Word" Complex_Main
begin

text \<open>
  The request meter (\<open>crates/prism/src/metrics.rs\<close>): lifetime counters, a ring of sixty
  one-second slots that is reset lazily, and the list of the last calls. Every counter of the
  source is a \<open>u64\<close> that wraps, so the counts here are 64-bit words.
\<close>

section \<open>Counts\<close>

text \<open>The five counts a slot and a window's total have in common, as a commutative monoid.\<close>

datatype counts = Counts (made: "64 word") (avoided: "64 word") (avoidable_made: "64 word")
  (throttled: "64 word") (failed: "64 word")

instantiation counts :: comm_monoid_add
begin

definition zero_counts :: counts where
  "zero_counts = Counts 0 0 0 0 0"

definition plus_counts :: "counts \<Rightarrow> counts \<Rightarrow> counts" where
  "plus_counts a b = Counts (made a + made b) (avoided a + avoided b)
     (avoidable_made a + avoidable_made b) (throttled a + throttled b) (failed a + failed b)"

instance
  by standard (auto simp: plus_counts_def zero_counts_def algebra_simps)

end

lemma counts_sel_plus [simp]:
  "made (a + b) = made a + made b"
  "avoided (a + b) = avoided a + avoided b"
  "avoidable_made (a + b) = avoidable_made a + avoidable_made b"
  "throttled (a + b) = throttled a + throttled b"
  "failed (a + b) = failed a + failed b"
  by (simp_all add: plus_counts_def)

lemma counts_sel_zero [simp]:
  "made 0 = 0" "avoided 0 = 0" "avoidable_made 0 = 0" "throttled 0 = 0" "failed 0 = 0"
  by (simp_all add: zero_counts_def)

section \<open>The ring\<close>

definition ring_buckets :: nat where
  "ring_buckets = 60"

definition rate_buckets :: nat where
  "rate_buckets = 10"

record slot =
  second :: nat
  slot_counts :: counts

definition empty_slot :: slot where
  "empty_slot = \<lparr>second = u64_max, slot_counts = 0\<rparr>"

type_synonym ring = "slot list"

definition new_ring :: ring where
  "new_ring = replicate ring_buckets empty_slot"

text \<open>
  \<open>Ring::at\<close> returns the slot of a second, reset first when it holds an older one, and its
  caller adds to it; \<open>ring_add\<close> is the two together.
\<close>

definition ring_at :: "nat \<Rightarrow> ring \<Rightarrow> ring" where
  "ring_at s r = (let i = s mod ring_buckets in
     if second (r ! i) \<noteq> s then r[i := empty_slot\<lparr>second := s\<rparr>] else r)"

definition ring_add :: "nat \<Rightarrow> counts \<Rightarrow> ring \<Rightarrow> ring" where
  "ring_add s d r = (let r' = ring_at s r; i = s mod ring_buckets
     in r'[i := (r' ! i)\<lparr>slot_counts := slot_counts (r' ! i) + d\<rparr>])"

definition ring_sum :: "ring \<Rightarrow> nat \<Rightarrow> nat \<Rightarrow> counts" where
  "ring_sum r now w = (let lo = now - (w - 1) in
     sum_list (map slot_counts (filter (\<lambda>s. lo \<le> second s \<and> second s \<le> now) r)))"

section \<open>The meter\<close>

record call =
  c_at :: instant
  c_method :: string
  c_path :: string
  c_status :: "nat option"
  c_ms :: nat
  c_credential :: string
  c_paced :: bool

definition calls_cap :: nat where
  "calls_cap = 500"

record metrics =
  origin :: instant
  m_started :: "64 word"
  m_completed :: "64 word"
  m_failed :: "64 word"
  m_throttled :: "64 word"
  m_rate_limited :: "64 word"
  elapsed_micros :: "64 word"
  ring :: ring
  calls :: "call list"

definition metrics_since :: "instant \<Rightarrow> metrics" where
  "metrics_since t = \<lparr>origin = t, m_started = 0, m_completed = 0, m_failed = 0, m_throttled = 0,
     m_rate_limited = 0, elapsed_micros = 0, ring = new_ring, calls = []\<rparr>"

definition metrics_second :: "metrics \<Rightarrow> instant \<Rightarrow> nat" where
  "metrics_second m now = as_secs (now - origin m)"

definition bump :: "instant \<Rightarrow> counts \<Rightarrow> metrics \<Rightarrow> metrics" where
  "bump now d m = m\<lparr>ring := ring_add (metrics_second m now) d (ring m)\<rparr>"

definition record_call :: "call \<Rightarrow> metrics \<Rightarrow> metrics" where
  "record_call c m = m\<lparr>calls :=
     (if length (calls m) = calls_cap then tl (calls m) else calls m) @ [c]\<rparr>"

definition record_started :: "instant \<Rightarrow> metrics \<Rightarrow> metrics" where
  "record_started now m = bump now (Counts 1 0 0 0 0) (m\<lparr>m_started := m_started m + 1\<rparr>)"

definition record_completed :: "duration \<Rightarrow> metrics \<Rightarrow> metrics" where
  "record_completed elapsed m = m\<lparr>m_completed := m_completed m + 1,
     elapsed_micros := elapsed_micros m + of_nat (min (elapsed div 1000) u64_max)\<rparr>"

definition record_failed :: "instant \<Rightarrow> metrics \<Rightarrow> metrics" where
  "record_failed now m = bump now (Counts 0 0 0 0 1) (m\<lparr>m_failed := m_failed m + 1\<rparr>)"

definition record_throttled :: "instant \<Rightarrow> metrics \<Rightarrow> metrics" where
  "record_throttled now m = bump now (Counts 0 0 0 1 0) (m\<lparr>m_throttled := m_throttled m + 1\<rparr>)"

definition record_rate_limited :: "instant \<Rightarrow> metrics \<Rightarrow> metrics" where
  "record_rate_limited now m =
     bump now (Counts 0 0 0 1 0) (m\<lparr>m_rate_limited := m_rate_limited m + 1\<rparr>)"

definition record_avoided :: "instant \<Rightarrow> 64 word \<Rightarrow> metrics \<Rightarrow> metrics" where
  "record_avoided now n m = bump now (Counts 0 n 0 0 0) m"

definition record_avoidable :: "instant \<Rightarrow> 64 word \<Rightarrow> metrics \<Rightarrow> metrics" where
  "record_avoidable now n m = bump now (Counts 0 0 n 0 0) m"

definition mean_latency :: "metrics \<Rightarrow> duration option" where
  "mean_latency m = (if m_completed m = 0 then None
     else Some (unat (elapsed_micros m div m_completed m) * 1000))"

text \<open>
  The meter's two ratios are \<open>f64\<close> in the source, of counts far below \<open>2 ^ 53\<close>; here they are
  the exact quotients.
\<close>

record meter =
  mt_rate :: rat
  mt_cached :: "rat option"
  mt_throttled :: bool
  mt_failed :: bool

definition max_rate :: rat where
  "max_rate = 999 / 10"

definition snapshot :: "metrics \<Rightarrow> instant \<Rightarrow> meter" where
  "snapshot m now =
     (let s = metrics_second m now; short = ring_sum (ring m) s rate_buckets;
          long = ring_sum (ring m) s ring_buckets;
          denominator = avoided long + avoidable_made long
      in \<lparr>mt_rate = min (of_nat (unat (made short)) / of_nat rate_buckets) max_rate,
          mt_cached = (if 0 < denominator
            then Some (of_nat (unat (avoided long)) / of_nat (unat denominator)) else None),
          mt_throttled = 0 < throttled short,
          mt_failed = 0 < failed short\<rparr>)"

section \<open>The ring is the sum over a window\<close>

text \<open>The abstract meter: everything that was added, with its second.\<close>

type_synonym events = "(nat \<times> counts) list"

definition event_sum :: "events \<Rightarrow> counts" where
  "event_sum es = sum_list (map snd es)"

definition window_sum :: "events \<Rightarrow> nat \<Rightarrow> nat \<Rightarrow> counts" where
  "window_sum es now w = event_sum (filter (\<lambda>(s, d). now - (w - 1) \<le> s \<and> s \<le> now) es)"

fun ring_run :: "events \<Rightarrow> ring \<Rightarrow> ring" where
  "ring_run [] r = r"
| "ring_run ((s, d) # es) r = ring_run es (ring_add s d r)"

lemma ring_run_append: "ring_run (xs @ ys) r = ring_run ys (ring_run xs r)"
  by (induction xs r rule: ring_run.induct) auto

text \<open>What slot \<open>i\<close> holds after a history: the last second of that residue, summed.\<close>

definition slot_of :: "events \<Rightarrow> nat \<Rightarrow> slot" where
  "slot_of es i = (let mine = filter (\<lambda>(s, d). s mod ring_buckets = i) es
     in if mine = [] then empty_slot
        else \<lparr>second = fst (last mine),
          slot_counts = event_sum (filter (\<lambda>(s, d). s = fst (last mine)) es)\<rparr>)"

lemma event_sum_append [simp]: "event_sum (xs @ ys) = event_sum xs + event_sum ys"
  by (simp add: event_sum_def)

lemma event_sum_Nil [simp]: "event_sum [] = 0"
  by (simp add: event_sum_def)

lemma event_sum_single [simp]: "event_sum [(s, d)] = d"
  by (simp add: event_sum_def)

lemma filter_last_mod:
  "filter (\<lambda>(s, d). s mod n = i) es \<noteq> [] \<Longrightarrow>
     fst (last (filter (\<lambda>(s, d). s mod n = i) es)) mod n = i"
  using last_in_set by fastforce

lemma slot_of_Nil [simp]: "slot_of [] i = empty_slot"
  by (simp add: slot_of_def)

lemma slot_of_other:
  "s mod ring_buckets \<noteq> i \<Longrightarrow> slot_of (es @ [(s, d)]) i = slot_of es i"
  using filter_last_mod [of ring_buckets i es]
  by (auto simp: slot_of_def Let_def)

lemma slot_of_same:
  assumes "s mod ring_buckets = i"
  shows "slot_of (es @ [(s, d)]) i =
    \<lparr>second = s, slot_counts = event_sum (filter (\<lambda>(t, d). t = s) es) + d\<rparr>"
  using assms by (simp add: slot_of_def)

lemma slot_of_second:
  assumes "second (slot_of es (s mod ring_buckets)) = s" and "s < u64_max"
  shows "slot_counts (slot_of es (s mod ring_buckets)) = event_sum (filter (\<lambda>(t, d). t = s) es)"
  using assms by (auto simp: slot_of_def empty_slot_def Let_def split: if_splits)

text \<open>With seconds in order, a slot whose second is not \<open>s\<close> has no event of \<open>s\<close>.\<close>

lemma no_event_of_second:
  assumes srt: "sorted (map fst (es @ [(s, d)]))"
    and ne: "second (slot_of es (s mod ring_buckets)) \<noteq> s"
  shows "filter (\<lambda>(t, d). t = s) es = []"
proof (rule ccontr)
  let ?mine = "filter (\<lambda>(t, d). t mod ring_buckets = s mod ring_buckets) es"
  assume "filter (\<lambda>(t, d). t = s) es \<noteq> []"
  then obtain e where e: "(s, e) \<in> set es" by (auto simp: filter_empty_conv)
  then have m: "(s, e) \<in> set ?mine" by simp
  then have ne2: "?mine \<noteq> []" by (metis empty_iff list.set(1))
  have "sorted (map fst ?mine)" using srt by (simp add: sorted_append sorted_filter)
  moreover have "s \<in> set (map fst ?mine)" using m by force
  ultimately have "s \<le> last (map fst ?mine)" by (rule sorted_le_last)
  then have "s \<le> fst (last ?mine)" using ne2 by (simp add: last_map)
  moreover have "fst (last ?mine) \<le> s"
    using last_in_set [OF ne2] srt by (auto simp: sorted_append)
  ultimately have "second (slot_of es (s mod ring_buckets)) = s"
    using ne2 by (simp add: slot_of_def)
  with ne show False by simp
qed

definition ring_of :: "events \<Rightarrow> ring" where
  "ring_of es = map (slot_of es) [0..<ring_buckets]"

lemma ring_buckets_pos [simp]: "0 < ring_buckets"
  by (simp add: ring_buckets_def)

lemma length_ring_of [simp]: "length (ring_of es) = ring_buckets"
  by (simp add: ring_of_def)

lemma nth_ring_of [simp]: "i < ring_buckets \<Longrightarrow> ring_of es ! i = slot_of es i"
  by (simp add: ring_of_def)

lemma ring_of_Nil: "ring_of [] = new_ring"
  by (rule nth_equalityI) (simp_all add: new_ring_def)

lemma ring_add_slot:
  assumes "length r = ring_buckets"
  shows "ring_add s d r = r[s mod ring_buckets := \<lparr>second = s, slot_counts =
     (if second (r ! (s mod ring_buckets)) = s then slot_counts (r ! (s mod ring_buckets)) else 0) + d\<rparr>]"
  using assms
  by (cases "r ! (s mod ring_buckets)") (simp add: ring_add_def ring_at_def Let_def empty_slot_def)

lemma ring_add_ring_of:
  assumes "sorted (map fst (es @ [(s, d)]))" and "s < u64_max"
  shows "ring_add s d (ring_of es) = ring_of (es @ [(s, d)])"
proof (rule nth_equalityI)
  fix i
  assume "i < length (ring_add s d (ring_of es))"
  then have i: "i < ring_buckets" by (simp add: ring_add_slot)
  show "ring_add s d (ring_of es) ! i = ring_of (es @ [(s, d)]) ! i"
  proof (cases "i = s mod ring_buckets")
    case True
    then show ?thesis
      using i slot_of_second [OF _ assms(2), of es] no_event_of_second [OF assms(1)]
      by (auto simp: ring_add_slot slot_of_same)
  next
    case False
    then show ?thesis using i by (simp add: ring_add_slot slot_of_other)
  qed
qed (simp add: ring_add_slot)

lemma ring_run_ring_of:
  "sorted (map fst es) \<Longrightarrow> \<forall>(s, d) \<in> set es. s < u64_max \<Longrightarrow> ring_run es new_ring = ring_of es"
proof (induction es rule: rev_induct)
  case Nil
  then show ?case by (simp add: ring_of_Nil)
next
  case (snoc e es)
  obtain s d where e: "e = (s, d)" by force
  then have "ring_run es new_ring = ring_of es"
    using snoc by (simp add: sorted_append)
  then show ?case
    using snoc.prems e by (simp add: ring_run_append ring_add_ring_of)
qed

text \<open>One slot holds exactly the events of its residue that lie in a window of at most sixty seconds.\<close>

definition in_window :: "nat \<Rightarrow> nat \<Rightarrow> nat \<Rightarrow> bool" where
  "in_window now w s \<longleftrightarrow> now - (w - 1) \<le> s \<and> s \<le> now"

lemma small_multiple:
  fixes s t n :: nat
  assumes "t \<le> s" and "s < t + n" and "s mod n = t mod n"
  shows "s = t"
proof -
  have "n dvd s - t" using assms(1,3) mod_eq_dvd_iff_nat [of t s n] by simp
  then have "s - t = 0" using assms(2) dvd_imp_le [of n "s - t"] by (cases "s - t = 0") auto
  with assms(1) show ?thesis by simp
qed

lemma window_residue:
  assumes "in_window now w s" and "in_window now w t" and "w \<le> n" and "0 < n"
    and "s mod n = t mod n"
  shows "s = t"
proof -
  have "s < t + n" and "t < s + n"
    using assms by (auto simp: in_window_def)
  then show ?thesis
    using small_multiple [of t s n] small_multiple [of s t n] assms(5) by (cases "t \<le> s") auto
qed

lemma filter_residue:
  assumes "in_window now w u" and "w \<le> ring_buckets" and "u mod ring_buckets = i"
  shows "filter (\<lambda>(s, d). s mod ring_buckets = i \<and> in_window now w s) es = filter (\<lambda>(s, d). s = u) es"
proof -
  have "s mod ring_buckets = i \<and> in_window now w s \<longleftrightarrow> s = u" for s
    using assms window_residue [OF _ assms(1,2) ring_buckets_pos, of s] by auto
  then show ?thesis by simp
qed

lemma slot_of_window:
  assumes srt: "sorted (map fst es)" and le: "\<forall>(s, d) \<in> set es. s \<le> now"
    and now: "now < u64_max" and w: "w \<le> ring_buckets"
  shows "(if in_window now w (second (slot_of es i)) then slot_counts (slot_of es i) else 0)
    = event_sum (filter (\<lambda>(s, d). s mod ring_buckets = i \<and> in_window now w s) es)"
proof (cases "filter (\<lambda>(s, d). s mod ring_buckets = i) es = []")
  case True
  then have "filter (\<lambda>(s, d). s mod ring_buckets = i \<and> in_window now w s) es = []"
    by (auto simp: filter_empty_conv)
  with True now show ?thesis
    by (simp add: slot_of_def empty_slot_def in_window_def)
next
  case False
  let ?mine = "filter (\<lambda>(s, d). s mod ring_buckets = i) es"
  let ?u = "fst (last ?mine)"
  have slot: "slot_of es i = \<lparr>second = ?u, slot_counts = event_sum (filter (\<lambda>(s, d). s = ?u) es)\<rparr>"
    using False by (simp add: slot_of_def Let_def)
  show ?thesis
  proof (cases "in_window now w ?u")
    case True
    then show ?thesis
      using filter_residue [OF True w filter_last_mod [OF False], of es] by (simp add: slot)
  next
    case out: False
    have "?u \<le> now" using last_in_set [OF False] le by auto
    then have old: "?u < now - (w - 1)" using out by (auto simp: in_window_def)
    have "\<not> in_window now w s" if m: "(s, d) \<in> set es" "s mod ring_buckets = i" for s d
    proof -
      have "s \<in> set (map fst ?mine)" using m by force
      moreover have "sorted (map fst ?mine)" using srt by (simp add: sorted_filter)
      ultimately have "s \<le> last (map fst ?mine)" by (rule sorted_le_last [rotated])
      then show ?thesis using old False by (simp add: last_map in_window_def)
    qed
    then have "filter (\<lambda>(s, d). s mod ring_buckets = i \<and> in_window now w s) es = []"
      by (auto simp: filter_empty_conv)
    with out show ?thesis by (simp add: slot)
  qed
qed

lemma residue_sum:
  "0 < n \<Longrightarrow> sum_list (map (\<lambda>i. event_sum (filter (\<lambda>(s, d). s mod n = i \<and> P s) es)) [0..<n])
     = event_sum (filter (\<lambda>(s, d). P s) es)"
proof (induction es)
  case Nil
  then show ?case by (simp add: interv_sum_list_conv_sum_set_nat)
next
  case (Cons e es)
  obtain s d where e: "e = (s, d)" by force
  have "sum_list (map (\<lambda>i. event_sum (filter (\<lambda>(s, d). s mod n = i \<and> P s) (e # es))) [0..<n])
      = sum_list (map (\<lambda>i. (if i = s mod n then (if P s then d else 0) else 0)
          + event_sum (filter (\<lambda>(s, d). s mod n = i \<and> P s) es)) [0..<n])"
    by (intro arg_cong [where f = sum_list] map_cong) (auto simp: e event_sum_def)
  also have "\<dots> = sum (\<lambda>i. if i = s mod n then (if P s then d else 0) else 0) {0..<n}
      + event_sum (filter (\<lambda>(s, d). P s) es)"
    using Cons by (simp add: sum_list_addf interv_sum_list_conv_sum_set_nat)
  also have "\<dots> = (if P s then d else 0) + event_sum (filter (\<lambda>(s, d). P s) es)"
    using Cons.prems by (simp add: sum.delta)
  also have "\<dots> = event_sum (filter (\<lambda>(s, d). P s) (e # es))"
    by (simp add: e event_sum_def)
  finally show ?case .
qed

lemma ring_sum_ring_of:
  assumes "sorted (map fst es)" and "\<forall>(s, d) \<in> set es. s \<le> now"
    and "now < u64_max" and "w \<le> ring_buckets"
  shows "ring_sum (ring_of es) now w = window_sum es now w"
proof -
  have "ring_sum (ring_of es) now w =
      sum_list (map (\<lambda>i. if in_window now w (second (slot_of es i))
        then slot_counts (slot_of es i) else 0) [0..<ring_buckets])"
    by (simp add: ring_sum_def ring_of_def Let_def filter_map o_def sum_list_map_filter' in_window_def)
  also have "\<dots> = sum_list (map (\<lambda>i. event_sum
      (filter (\<lambda>(s, d). s mod ring_buckets = i \<and> in_window now w s) es)) [0..<ring_buckets])"
    by (simp add: slot_of_window [OF assms])
  also have "\<dots> = event_sum (filter (\<lambda>(s, d). in_window now w s) es)"
    by (rule residue_sum) simp
  finally show ?thesis by (simp add: window_sum_def in_window_def)
qed

section \<open>Properties\<close>

text \<open>
  C6: the lazily reset ring of sixty slots refines the whole history: after any sequence of
  recordings at times that do not go back, the sum it reports over a window of up to sixty
  seconds is exactly the sum (modulo \<open>2 ^ 64\<close>) of what was recorded in that window.
\<close>

theorem ring_refines_history:
  assumes "sorted (map fst es)" and "\<forall>(s, d) \<in> set es. s \<le> now"
    and "now < u64_max" and "w \<le> ring_buckets"
  shows "ring_sum (ring_run es new_ring) now w = window_sum es now w"
proof -
  have "\<forall>(s, d) \<in> set es. s < u64_max" using assms(2,3) by auto
  then show ?thesis
    using ring_run_ring_of [OF assms(1)] ring_sum_ring_of [OF assms] by simp
qed

definition two_minutes :: events where
  "two_minutes = [(1, Counts 1 0 0 0 0), (58, Counts 2 0 0 0 0), (61, Counts 4 0 0 0 1),
     (61, Counts 8 0 0 0 0), (70, Counts 16 0 0 0 0)]"

theorem ring_refines_history_witness:
  "ring_sum (ring_run two_minutes new_ring) 70 10 = Counts 28 0 0 0 1 \<and>
   ring_sum (ring_run two_minutes new_ring) 117 60 = Counts 30 0 0 0 1"
proof -
  have srt: "sorted (map fst two_minutes)" by (simp add: two_minutes_def)
  have "\<forall>(s, d) \<in> set two_minutes. s \<le> 70" and "\<forall>(s, d) \<in> set two_minutes. s \<le> 117"
    by (auto simp: two_minutes_def)
  moreover have "window_sum two_minutes 70 10 = Counts 28 0 0 0 1"
    and "window_sum two_minutes 117 60 = Counts 30 0 0 0 1"
    by (simp_all add: window_sum_def two_minutes_def event_sum_def plus_counts_def zero_counts_def)
  ultimately show ?thesis
    using ring_refines_history [OF srt, of 70 10] ring_refines_history [OF srt, of 117 60]
    by (simp add: u64_max_def ring_buckets_def)
qed

end
