(* ===== verification/Pacing.thy ===== *)
theory Pacing
  imports Rate_Limits Metrics "HOL-Library.Option_ord"
begin

text \<open>
  Pacing (\<open>crates/prism/src/client/pacing.rs\<close>): a request waits for a token of its operation's
  bucket and of the host's, a 429 drains both, and every response's headers may move the host
  tier and tighten the operation's.
\<close>

section \<open>What pacing relies on\<close>

text \<open>
  The contract of a budget, as \<open>acquire\<close> uses it: what a reported wait promises and that a
  refused take spends nothing.
\<close>

locale rate_budget =
  fixes peek :: "'b \<Rightarrow> instant \<Rightarrow> duration option"
    and tak :: "instant \<Rightarrow> 'b \<Rightarrow> 'b \<times> duration option"
    and ok :: "'b \<Rightarrow> instant \<Rightarrow> bool"
  assumes wait_ends: "ok b t \<Longrightarrow> peek b t = Some w \<Longrightarrow> peek b (t + w) = None"
    and wait_positive: "ok b t \<Longrightarrow> peek b t = Some w \<Longrightarrow> 0 < w"
    and stays_free: "ok b t \<Longrightarrow> peek b t = None \<Longrightarrow> t \<le> t' \<Longrightarrow> peek b t' = None"
    and ok_later: "ok b t \<Longrightarrow> t \<le> t' \<Longrightarrow> ok b t'"
    and take_spends: "peek b t = None \<Longrightarrow> snd (tak t b) = None"
    and ok_taken: "ok b t \<Longrightarrow> ok (fst (tak t b)) t"
begin

lemma free_after: "ok b t \<Longrightarrow> peek b t \<le> Some w \<Longrightarrow> t + w \<le> t' \<Longrightarrow> peek b t' = None"
proof (cases "peek b t")
  case None
  then show "ok b t \<Longrightarrow> t + w \<le> t' \<Longrightarrow> peek b t' = None" using stays_free by simp
next
  case (Some v)
  assume ok: "ok b t" and le: "peek b t \<le> Some w" and t': "t + w \<le> t'"
  have "peek b (t + v) = None" using ok Some by (rule wait_ends)
  moreover have "t + v \<le> t'" using le Some t' by simp
  ultimately show "peek b t' = None"
    using stays_free ok_later [OF ok, of "t + v"] by simp
qed

lemma both_free_after:
  assumes "ok a t" and "ok b t" and "max (peek a t) (peek b t) = Some w" and "t + w \<le> t'"
  shows "max (peek a t') (peek b t') = None"
proof -
  have "peek a t \<le> Some w" and "peek b t \<le> Some w"
    using assms(3) by (metis max.cobounded1, metis max.cobounded2)
  then show ?thesis
    using free_after [of a t w t'] free_after [of b t w t'] assms(1,2,4) by simp
qed

lemma pair_wait_positive:
  assumes "ok a t" and "ok b t" and "max (peek a t) (peek b t) = Some w"
  shows "0 < w"
  using assms wait_positive [of a t] wait_positive [of b t] by (auto simp: max_def split: if_splits)

end

interpretation bucket_budget: rate_budget peek take_token bucket_ok
proof
  fix b :: bucket and t t' w
  show "bucket_ok b t \<Longrightarrow> peek b t = Some w \<Longrightarrow> peek b (t + w) = None"
    by (rule peek_wait_suffices)
  show "bucket_ok b t \<Longrightarrow> peek b t = Some w \<Longrightarrow> 0 < w"
    by (rule peek_wait_positive)
  show "bucket_ok b t \<Longrightarrow> peek b t = None \<Longrightarrow> t \<le> t' \<Longrightarrow> peek b t' = None"
    by (rule peek_free_later)
  show "bucket_ok b t \<Longrightarrow> t \<le> t' \<Longrightarrow> bucket_ok b t'"
    by (rule bucket_ok_later)
  show "peek b t = None \<Longrightarrow> snd (take_token t b) = None"
    by (rule take_granted)
  show "bucket_ok b t \<Longrightarrow> bucket_ok (fst (take_token t b)) t"
    by (rule bucket_ok_take)
qed

section \<open>State and operations\<close>

type_synonym op_key = "http_method \<times> string"

record buckets =
  host :: bucket
  per_op :: "op_key \<Rightarrow> bucket option"

record pacer =
  p_buckets :: buckets
  p_metrics :: metrics

definition new_buckets :: buckets where
  "new_buckets = \<lparr>host = new_bucket host_start, per_op = Map.empty\<rparr>"

text \<open>\<open>entry(key).or_insert_with(..)\<close>.\<close>

definition op_bucket :: "op_key \<Rightarrow> rate_limit \<Rightarrow> buckets \<Rightarrow> bucket" where
  "op_bucket key l bs = (case per_op bs key of Some b \<Rightarrow> b | None \<Rightarrow> new_bucket l)"

text \<open>One turn of the loop, under the lock: the longer of the two waits, or both tokens.\<close>

definition acquire_try :: "op_key \<Rightarrow> rate_limit \<Rightarrow> instant \<Rightarrow> buckets \<Rightarrow> buckets \<times> duration option"
  where
  "acquire_try key l now bs =
     (let op = op_bucket key l bs
      in case max (peek (host bs) now) (peek op now) of
           None \<Rightarrow> (\<lparr>host = fst (take_token now (host bs)),
              per_op = (per_op bs)(key \<mapsto> fst (take_token now op))\<rparr>, None)
         | Some w \<Rightarrow> (bs\<lparr>per_op := (per_op bs)(key \<mapsto> op)\<rparr>, Some w))"

text \<open>
  The loop, run by one caller. A sleep of \<open>w\<close> ends at \<open>w\<close> or later: \<open>late i\<close> is by how much
  the \<open>i\<close>-th one overshoots. The result is \<open>None\<close> when the fuel is out; otherwise the state,
  whether it slept, and the time of the grant.
\<close>

fun acquire :: "nat \<Rightarrow> (nat \<Rightarrow> duration) \<Rightarrow> op_key \<Rightarrow> rate_limit \<Rightarrow> instant \<Rightarrow> bool \<Rightarrow> pacer
    \<Rightarrow> (pacer \<times> bool \<times> instant) option" where
  "acquire 0 late key l now slept p = None"
| "acquire (Suc n) late key l now slept p =
     (case acquire_try key l now (p_buckets p) of
        (bs, None) \<Rightarrow> Some (p\<lparr>p_buckets := bs\<rparr>, slept, now)
      | (bs, Some w) \<Rightarrow> acquire n (\<lambda>i. late (Suc i)) key l (now + w + late 0) True
          (p\<lparr>p_buckets := bs, p_metrics := record_throttled now (p_metrics p)\<rparr>))"

definition drain_bucket :: "op_key \<Rightarrow> duration \<Rightarrow> instant \<Rightarrow> pacer \<Rightarrow> pacer" where
  "drain_bucket key after now p =
     (let bs = p_buckets p
      in p\<lparr>p_metrics := record_rate_limited now (p_metrics p),
           p_buckets := bs\<lparr>host := drain now after (host bs),
             per_op := (case per_op bs key of
                 None \<Rightarrow> per_op bs
               | Some b \<Rightarrow> (per_op bs)(key \<mapsto> drain now after b))\<rparr>\<rparr>)"

definition tighten_op :: "rate_limit option \<Rightarrow> bucket \<Rightarrow> bucket" where
  "tighten_op advertised b = (case advertised of
       None \<Rightarrow> b
     | Some stated \<Rightarrow> (if tighter_than stated (limit b) then relimit stated b else b))"

definition observe_limits :: "headers \<Rightarrow> op_key \<Rightarrow> instant \<Rightarrow> buckets \<Rightarrow> buckets" where
  "observe_limits h key now bs =
     (let adv = read_headers h;
          before = limit (host bs);
          after = ceiling_of adv before;
          host1 = (if after \<noteq> before then relimit after (host bs) else host bs);
          ops = (per_op bs)(key := map_option (tighten_op (tier adv)) (per_op bs key));
          host2 = (case hold adv after of None \<Rightarrow> host1 | Some d \<Rightarrow> drain now d host1)
      in \<lparr>host = host2, per_op = ops\<rparr>)"

definition max_fan_out :: nat where
  "max_fan_out = 4"

definition fan_out :: "buckets \<Rightarrow> nat" where
  "fan_out bs = min (max (rl_count (limit (host bs))) 1) max_fan_out"

section \<open>The invariant\<close>

text \<open>
  Both kinds of bucket are well formed, and the host tier never exceeds the built-in ceiling.
\<close>

definition buckets_ok :: "buckets \<Rightarrow> instant \<Rightarrow> bool" where
  "buckets_ok bs now \<longleftrightarrow> bucket_ok (host bs) now \<and> \<not> tighter_than host_ceiling (limit (host bs)) \<and>
     (\<forall>b \<in> ran (per_op bs). bucket_ok b now)"

lemma max_eq_None_iff: "max a b = None \<longleftrightarrow> a = None \<and> b = (None :: nat option)"
  by (cases a; cases b) (auto simp: max_def)

lemma buckets_ok_op: "buckets_ok bs now \<Longrightarrow> per_op bs key = Some b \<Longrightarrow> bucket_ok b now"
  by (auto simp: buckets_ok_def intro: ranI)

lemma ran_upd_subset: "ran (m(k \<mapsto> v)) \<subseteq> insert v (ran m)"
  by (auto simp: ran_def)

lemma buckets_ok_upd:
  "\<forall>b \<in> ran m. bucket_ok b now \<Longrightarrow> bucket_ok v now \<Longrightarrow> \<forall>b \<in> ran (m(k \<mapsto> v)). bucket_ok b now"
  using ran_upd_subset [of m k v] by blast

lemma buckets_ok_later: "buckets_ok bs now \<Longrightarrow> now \<le> now' \<Longrightarrow> buckets_ok bs now'"
  by (auto simp: buckets_ok_def bucket_ok_later)

lemma buckets_ok_new [inv_intros]: "buckets_ok new_buckets now"
  using bucket_ok_new [of host_start now]
  by (simp add: buckets_ok_def new_buckets_def new_bucket_def relimit_def host_start_def
      host_ceiling_def tighter_than_def)

lemma op_bucket_ok [inv_intros]: "buckets_ok bs now \<Longrightarrow> bucket_ok (op_bucket key l bs) now"
  by (auto simp: op_bucket_def bucket_ok_new buckets_ok_op split: option.splits)

lemma buckets_ok_acquire_try [inv_intros]:
  assumes "buckets_ok bs now"
  shows "buckets_ok (fst (acquire_try key l now bs)) now"
proof -
  let ?op = "op_bucket key l bs"
  have op: "bucket_ok ?op now" using assms by (rule op_bucket_ok)
  have h: "bucket_ok (host bs) now" and r: "\<forall>b \<in> ran (per_op bs). bucket_ok b now"
    and t: "\<not> tighter_than host_ceiling (limit (host bs))"
    using assms by (simp_all add: buckets_ok_def)
  note u = buckets_ok_upd [OF r, of _ key]
  show ?thesis
  proof (cases "max (peek (host bs) now) (peek ?op now)")
    case None
    then show ?thesis
      using bucket_ok_take [OF h] t u [OF bucket_ok_take [OF op]]
      by (simp add: acquire_try_def buckets_ok_def limit_take del: fun_upd_apply)
  next
    case (Some w)
    then show ?thesis
      using h t u [OF op] by (simp add: acquire_try_def buckets_ok_def del: fun_upd_apply)
  qed
qed

lemma buckets_ok_drain [inv_intros]:
  assumes "buckets_ok (p_buckets p) now"
  shows "buckets_ok (p_buckets (drain_bucket key d now p)) now"
proof -
  let ?bs = "p_buckets p"
  have h: "bucket_ok (host ?bs) now" and r: "\<forall>b \<in> ran (per_op ?bs). bucket_ok b now"
    and t: "\<not> tighter_than host_ceiling (limit (host ?bs))"
    using assms by (simp_all add: buckets_ok_def)
  show ?thesis
  proof (cases "per_op ?bs key")
    case None
    then show ?thesis
      using bucket_ok_drain [OF h] t r by (simp add: drain_bucket_def Let_def buckets_ok_def limit_drain)
  next
    case (Some b)
    have "bucket_ok (drain now d b) now"
      using bucket_ok_drain [OF buckets_ok_op [OF assms Some]] .
    then show ?thesis
      using Some bucket_ok_drain [OF h] t buckets_ok_upd [OF r, of "drain now d b" key]
      by (simp add: drain_bucket_def Let_def buckets_ok_def limit_drain del: fun_upd_apply)
  qed
qed

lemma not_tighter_relimit:
  assumes "\<not> tighter_than host_ceiling l"
  shows "\<not> tighter_than host_ceiling (limit (relimit l b))"
  using assms by (auto simp: tighter_than_def host_ceiling_def relimit_def max_def)

lemma bucket_ok_tighten [inv_intros]: "bucket_ok b now \<Longrightarrow> bucket_ok (tighten_op a b) now"
  by (auto simp: tighten_op_def bucket_ok_relimit split: option.splits)

lemma ran_map_upd_subset: "ran (m(k := map_option f (m k))) \<subseteq> ran m \<union> f ` ran m"
  by (auto simp: ran_def)

lemma buckets_ok_observe [inv_intros]:
  assumes "buckets_ok bs now"
  shows "buckets_ok (observe_limits h key now bs) now"
proof -
  let ?adv = "read_headers h"
  have "\<forall>b \<in> ran (per_op (observe_limits h key now bs)). bucket_ok b now"
    using assms ran_map_upd_subset [of "per_op bs" key "tighten_op (tier ?adv)"] bucket_ok_tighten
    by (fastforce simp: observe_limits_def Let_def buckets_ok_def)
  moreover have "bucket_ok (host (observe_limits h key now bs)) now"
    using assms by (auto simp: observe_limits_def Let_def buckets_ok_def
        bucket_ok_drain bucket_ok_relimit split: option.splits)
  moreover have "\<not> tighter_than host_ceiling (limit (host (observe_limits h key now bs)))"
    using assms ceiling_capped [of ?adv "limit (host bs)"]
    by (auto simp: observe_limits_def Let_def buckets_ok_def limit_drain not_tighter_relimit
        split: option.splits)
  ultimately show ?thesis by (simp add: buckets_ok_def)
qed

lemma fan_out_bounds: "1 \<le> fan_out bs \<and> fan_out bs \<le> max_fan_out"
  by (simp add: fan_out_def max_fan_out_def)

section \<open>Acquiring\<close>

lemma acquire_try_free:
  assumes "max (peek (host bs) now) (peek (op_bucket key l bs) now) = None"
  shows "snd (acquire_try key l now bs) = None"
  using assms by (simp add: acquire_try_def Let_def)

lemma acquire_try_granted:
  assumes "snd (acquire_try key l now bs) = None"
  shows "peek (host bs) now = None" and "peek (op_bucket key l bs) now = None"
  using assms by (cases "max (peek (host bs) now) (peek (op_bucket key l bs) now)";
      simp add: acquire_try_def Let_def max_eq_None_iff)+

text \<open>A caller that is refused changes neither bucket.\<close>

lemma acquire_try_refused:
  assumes "acquire_try key l now bs = (bs', Some w)"
  shows "host bs' = host bs" and "op_bucket key l bs' = op_bucket key l bs"
    and "max (peek (host bs) now) (peek (op_bucket key l bs) now) = Some w"
  using assms by (auto simp: acquire_try_def Let_def op_bucket_def split: option.splits)

text \<open>After one sleep nothing is left to wait for, so a second turn is always the last.\<close>

lemma acquire_try_after_wait:
  assumes "buckets_ok bs now" and "acquire_try key l now bs = (bs', Some w)" and "now + w \<le> t"
  shows "snd (acquire_try key l t bs') = None"
proof -
  note r = acquire_try_refused [OF assms(2)]
  have "max (peek (host bs) t) (peek (op_bucket key l bs) t) = None"
    using assms(1,3) r(3) op_bucket_ok [OF assms(1), of key l]
    by (intro bucket_budget.both_free_after [of "host bs" now]) (auto simp: buckets_ok_def)
  then show ?thesis using r(1,2) acquire_try_free by simp
qed

section \<open>Properties\<close>


definition idle_pacer :: pacer where
  "idle_pacer = \<lparr>p_buckets = new_buckets, p_metrics = metrics_since 0\<rparr>"


text \<open>
  C8: one turn of the loop spends a token of both budgets at the same instant, or, when either
  refuses, spends nothing and reports a wait that is positive.
\<close>

theorem both_tokens_or_neither:
  assumes "buckets_ok bs now" and "acquire_try key l now bs = (bs', r)"
  shows "(r = None \<longrightarrow> last (taken (host bs')) = now \<and>
        (\<exists>b. per_op bs' key = Some b \<and> last (taken b) = now)) \<and>
     (\<forall>w. r = Some w \<longrightarrow> 0 < w \<and> host bs' = host bs \<and> op_bucket key l bs' = op_bucket key l bs)"
proof -
  have took: "last (taken (fst (take_token now b))) = now" if "peek b now = None" for b :: bucket
    using that by (simp add: take_token_def Let_def)
  show ?thesis
  proof (cases r)
    case None
    then have "max (peek (host bs) now) (peek (op_bucket key l bs) now) = None"
      using assms(2) by (cases "max (peek (host bs) now) (peek (op_bucket key l bs) now)")
        (simp_all add: acquire_try_def Let_def)
    then have free: "peek (host bs) now = None" "peek (op_bucket key l bs) now = None"
      and bs': "bs' = \<lparr>host = fst (take_token now (host bs)),
        per_op = (per_op bs)(key \<mapsto> fst (take_token now (op_bucket key l bs)))\<rparr>"
      using assms(2) by (simp_all add: acquire_try_def Let_def max_eq_None_iff)
    show ?thesis using None took [OF free(1)] took [OF free(2)] by (simp add: bs')
  next
    case (Some w)
    note f = acquire_try_refused [of key l now bs bs' w]
    have m: "max (peek (host bs) now) (peek (op_bucket key l bs) now) = Some w"
      using f(3) assms(2) Some by simp
    have "bucket_ok (host bs) now" using assms(1) by (simp add: buckets_ok_def)
    then have "0 < w"
      using op_bucket_ok [OF assms(1)] m by (rule bucket_budget.pair_wait_positive)
    then show ?thesis using f(1,2) assms(2) Some by simp
  qed
qed

definition new_and_taken :: buckets where
  "new_and_taken = fst (acquire_try (Get, ''/x'') \<lparr>rl_count = 1, rl_per_secs = 60\<rparr> 5 new_buckets)"

theorem both_tokens_or_neither_witness:
  "\<exists>bs' w. acquire_try (Get, ''/x'') \<lparr>rl_count = 1, rl_per_secs = 60\<rparr> 6 new_and_taken = (bs', Some w) \<and>
     host bs' = host new_and_taken"
proof -
  let ?l = "\<lparr>rl_count = 1, rl_per_secs = 60\<rparr>"
  obtain bs' r where a: "acquire_try (Get, ''/x'') ?l 6 new_and_taken = (bs', r)" by force
  have "buckets_ok new_and_taken 5"
    unfolding new_and_taken_def by (intro buckets_ok_acquire_try buckets_ok_new)
  then have ok: "buckets_ok new_and_taken 6" by (rule buckets_ok_later) simp
  have "op_bucket (Get, ''/x'') ?l new_and_taken = \<lparr>limit = ?l, taken = [5], blocked_until = None\<rparr>"
    by (simp add: new_and_taken_def acquire_try_def new_buckets_def op_bucket_def bucket_eval
        max_eq_None_iff)
  then have "peek (op_bucket (Get, ''/x'') ?l new_and_taken) 6 \<noteq> None"
    by (simp add: bucket_eval)
  then have "snd (acquire_try (Get, ''/x'') ?l 6 new_and_taken) \<noteq> None"
    using acquire_try_granted(2) [of "(Get, ''/x'')" ?l 6 new_and_taken] by argo
  then obtain w where r: "r = Some w" using a by auto
  have "host bs' = host new_and_taken"
    using both_tokens_or_neither [OF ok a] r by blast
  then show ?thesis using a r by blast
qed

datatype pace_op = Try op_key rate_limit | Drained op_key duration | Observe headers op_key

fun pace_step :: "pace_op \<Rightarrow> instant \<Rightarrow> pacer \<Rightarrow> pacer" where
  "pace_step (Try key l) now p = p\<lparr>p_buckets := fst (acquire_try key l now (p_buckets p))\<rparr>"
| "pace_step (Drained key d) now p = drain_bucket key d now p"
| "pace_step (Observe h key) now p = p\<lparr>p_buckets := observe_limits h key now (p_buckets p)\<rparr>"

fun pace_run :: "(instant \<times> pace_op) list \<Rightarrow> pacer \<Rightarrow> pacer" where
  "pace_run [] p = p"
| "pace_run ((t, e) # es) p = pace_run es (pace_step e t p)"

lemma pace_step_ok:
  "buckets_ok (p_buckets p) now \<Longrightarrow> buckets_ok (p_buckets (pace_step e now p)) now"
  by (cases e) (auto intro: inv_intros)

text \<open>
  no sequence of turns, drains and answers, whatever headers the answers carry, raises the
  host tier above the built-in ceiling.
\<close>

theorem host_tier_stays_capped:
  assumes "buckets_ok (p_buckets p) t0" and "sorted (t0 # map fst es)"
  shows "\<not> tighter_than host_ceiling (limit (host (p_buckets (pace_run es p))))"
  using assms
proof (induction es arbitrary: p t0)
  case Nil
  then show ?case by (simp add: buckets_ok_def)
next
  case (Cons x es)
  obtain t e where x: "x = (t, e)" by force
  have "buckets_ok (p_buckets (pace_step e t p)) t"
    using Cons.prems x buckets_ok_later by (intro pace_step_ok) auto
  then show ?case using Cons.IH [of _ t] Cons.prems x by simp
qed

theorem host_tier_stays_capped_witness:
  "\<not> tighter_than host_ceiling (limit (host (p_buckets
     (pace_run [(1, Observe lab_headers (Get, ''/x'')), (2, Drained (Get, ''/x'') 9)] idle_pacer))))"
proof -
  have "buckets_ok (p_buckets idle_pacer) 0" by (simp add: idle_pacer_def buckets_ok_new)
  then show ?thesis by (rule host_tier_stays_capped) simp
qed

text \<open>
  an answer changes no operation's tier but the one it was an answer to, and that one only
  to a tighter tier, except that an advertised count of zero is adopted as one request per
  period.
\<close>

theorem observed_tier_only_tightens:
  assumes "per_op bs key' = Some b"
  shows "\<exists>b'. per_op (observe_limits h key now bs) key' = Some b' \<and> taken b' = taken b \<and>
    (limit b' = limit b \<or>
     key' = key \<and> tighter_than (limit b') (limit b) \<or>
     key' = key \<and> number h ''x-api-ratelimit-limit'' = Some 0 \<and> rl_count (limit b') = 1)"
proof (cases "key' = key \<and> tighten_op (tier (read_headers h)) b \<noteq> b")
  case False
  then show ?thesis using assms by (auto simp: observe_limits_def Let_def)
next
  case True
  then obtain s where s: "tier (read_headers h) = Some s" and t: "tighter_than s (limit b)"
    by (auto simp: tighten_op_def split: option.splits if_splits)
  have eq: "per_op (observe_limits h key now bs) key' = Some (relimit s b)"
    using True assms s t by (auto simp: observe_limits_def Let_def tighten_op_def)
  have pos: "1 \<le> rl_per_secs s" using t by (cases "rl_per_secs s") (auto simp: tighter_than_def)
  show ?thesis
  proof (cases "rl_count s")
    case 0
    then have "number h ''x-api-ratelimit-limit'' = Some 0"
      using s by (auto simp: read_headers_def sat_u32_def u32_max_def split: option.splits if_splits)
    with eq 0 True show ?thesis by (auto simp: relimit_def)
  next
    case (Suc c)
    then have "limit (relimit s b) = s" using pos by (simp add: relimit_def)
    with eq t True show ?thesis by (auto simp: relimit_def)
  qed
qed

definition zero_headers :: headers where
  "zero_headers = map_of [(''x-api-ratelimit-limit'', Some ''0''),
     (''x-api-ratelimit-refresh-period-seconds'', Some ''1'')]"

definition slow_op :: buckets where
  "slow_op = new_buckets\<lparr>per_op := [(Get, ''/x'') \<mapsto> slow_bucket]\<rparr>"

theorem observed_tier_only_tightens_witness:
  "\<exists>b'. per_op (observe_limits lab_headers (Get, ''/y'') 5 slow_op) (Get, ''/x'') = Some b' \<and>
     taken b' = taken slow_bucket"
proof -
  have "per_op slow_op (Get, ''/x'') = Some slow_bucket" by (simp add: slow_op_def)
  then show ?thesis using observed_tier_only_tightens by blast
qed


end
