(* ===== verification/Json.thy ===== *)
theory Json
  imports Catalog
begin

text \<open>
  JSON values as \<open>serde_json\<close> holds them, with the object operations the source calls, the
  dotted-path access of \<open>crates/catalog/src/path.rs\<close>, and the vocabulary of secret names
  (\<open>secret.rs\<close>).

  An object keeps its keys in insertion order, each key once: the workspace builds
  \<open>serde_json\<close> with \<open>preserve_order\<close>. There \<open>Map::remove\<close> puts the last entry in the
  place of the one it takes out. A number that is not an integer is kept as its text.
\<close>

section \<open>Values\<close>

datatype jnum = NInt int | NFloat string

datatype json =
    JNull
  | JBool bool
  | JNum jnum
  | JStr string
  | JArr "json list"
  | JObj "(string \<times> json) list"

fun json_ok :: "json \<Rightarrow> bool" where
  "json_ok (JArr vs) = (\<forall>v \<in> set vs. json_ok v)"
| "json_ok (JObj m) = (distinct (map fst m) \<and> (\<forall>kv \<in> set m. json_ok (snd kv)))"
| "json_ok _ = True"

fun as_str :: "json \<Rightarrow> string option" where
  "as_str (JStr s) = Some s"
| "as_str _ = None"

fun as_array :: "json \<Rightarrow> json list option" where
  "as_array (JArr vs) = Some vs"
| "as_array _ = None"

fun as_object :: "json \<Rightarrow> (string \<times> json) list option" where
  "as_object (JObj m) = Some m"
| "as_object _ = None"

fun as_u64 :: "json \<Rightarrow> nat option" where
  "as_u64 (JNum (NInt i)) = (if 0 \<le> i \<and> i \<le> int u64_max then Some (nat i) else None)"
| "as_u64 _ = None"

fun as_bool :: "json \<Rightarrow> bool option" where
  "as_bool (JBool b) = Some b"
| "as_bool _ = None"

definition jget :: "string \<Rightarrow> json \<Rightarrow> json option" where
  "jget key v = (case v of JObj m \<Rightarrow> map_of m key | _ \<Rightarrow> None)"

lemma jget_JObj [simp]: "jget key (JObj m) = map_of m key"
  by (simp add: jget_def)

lemma jget_other [simp]:
  "jget key JNull = None" "jget key (JBool b) = None" "jget key (JNum n) = None"
  "jget key (JStr s) = None" "jget key (JArr vs) = None"
  by (simp_all add: jget_def)

lemma json_ok_jget: "json_ok v \<Longrightarrow> jget key v = Some w \<Longrightarrow> json_ok w"
  by (cases v) (auto dest: map_of_SomeD)

section \<open>Object operations\<close>

text \<open>\<open>Map::insert\<close>: in place when the key is there, at the end when it is not.\<close>

fun map_insert :: "string \<Rightarrow> json \<Rightarrow> (string \<times> json) list \<Rightarrow> (string \<times> json) list" where
  "map_insert k v [] = [(k, v)]"
| "map_insert k v ((k', v') # m) = (if k' = k then (k, v) # m else (k', v') # map_insert k v m)"

text \<open>\<open>Map::remove\<close>: the last entry takes the place of the removed one.\<close>

definition map_remove :: "string \<Rightarrow> (string \<times> json) list \<Rightarrow> (string \<times> json) list" where
  "map_remove k m =
     (if k \<notin> fst ` set m then m
      else let i = length (takeWhile (\<lambda>kv. fst kv \<noteq> k) m)
           in if Suc i = length m then butlast m else (butlast m)[i := last m])"

definition map_extend :: "(string \<times> json) list \<Rightarrow> (string \<times> json) list \<Rightarrow> (string \<times> json) list" where
  "map_extend m new = fold (\<lambda>(k, v). map_insert k v) new m"

definition map_remove_all :: "string list \<Rightarrow> (string \<times> json) list \<Rightarrow> (string \<times> json) list" where
  "map_remove_all ks m = fold map_remove ks m"

lemma map_of_map_insert: "map_of (map_insert k v m) = (map_of m)(k \<mapsto> v)"
  by (induction k v m rule: map_insert.induct) auto

lemma keys_map_insert: "fst ` set (map_insert k v m) = insert k (fst ` set m)"
  by (induction k v m rule: map_insert.induct) auto

lemma distinct_map_insert:
  "distinct (map fst m) \<Longrightarrow> distinct (map fst (map_insert k v m))"
  by (induction k v m rule: map_insert.induct) (auto simp: keys_map_insert)

lemma takeWhile_key:
  assumes "k \<in> fst ` set m"
  obtains xs v ys where "m = xs @ (k, v) # ys" and "k \<notin> fst ` set xs"
    and "takeWhile (\<lambda>kv. fst kv \<noteq> k) m = xs"
proof -
  let ?xs = "takeWhile (\<lambda>kv. fst kv \<noteq> k) m"
  have "dropWhile (\<lambda>kv. fst kv \<noteq> k) m \<noteq> []"
    using assms by (auto simp: dropWhile_eq_Nil_conv)
  then obtain kv ys where ys: "dropWhile (\<lambda>kv. fst kv \<noteq> k) m = kv # ys"
    by (cases "dropWhile (\<lambda>kv. fst kv \<noteq> k) m") auto
  have "fst kv = k" using hd_dropWhile [of "\<lambda>kv. fst kv \<noteq> k" m] ys by simp
  moreover have "m = ?xs @ kv # ys" using ys takeWhile_dropWhile_id [of _ m] by metis
  moreover have "k \<notin> fst ` set ?xs" by (auto dest: set_takeWhileD)
  ultimately show thesis using that [of ?xs "snd kv" ys] by (metis prod.collapse)
qed

text \<open>The entries that are left are the ones with another key, in some order.\<close>

lemma mset_map_remove:
  assumes "distinct (map fst m)"
  shows "set (map_remove k m) = {kv \<in> set m. fst kv \<noteq> k}" and "distinct (map fst (map_remove k m))"
proof -
  have "set (map_remove k m) = {kv \<in> set m. fst kv \<noteq> k} \<and> distinct (map fst (map_remove k m))"
  proof (cases "k \<in> fst ` set m")
    case False
    then show ?thesis using assms by (auto simp: map_remove_def image_iff)
  next
    case True
    then obtain xs v ys where m: "m = xs @ (k, v) # ys"
      and i: "takeWhile (\<lambda>kv. fst kv \<noteq> k) m = xs"
      by (rule takeWhile_key)
    show ?thesis
    proof (cases ys rule: rev_cases)
      case Nil
      then have "map_remove k m = xs" using True i m by (simp add: map_remove_def)
      then show ?thesis using assms m Nil by auto
    next
      case (snoc zs z)
      then have "map_remove k m = xs @ z # zs"
        using True i m by (simp add: map_remove_def butlast_append nth_append list_update_append)
      then show ?thesis using assms m snoc by auto
    qed
  qed
  then show "set (map_remove k m) = {kv \<in> set m. fst kv \<noteq> k}"
    and "distinct (map fst (map_remove k m))" by auto
qed

lemma map_of_map_remove:
  assumes "distinct (map fst m)"
  shows "map_of (map_remove k m) = (map_of m)(k := None)"
proof
  fix x
  note s = mset_map_remove [OF assms, of k]
  show "map_of (map_remove k m) x = ((map_of m)(k := None)) x"
  proof (cases "x = k")
    case True
    then show ?thesis using s(1) by (auto simp: map_of_eq_None_iff)
  next
    case False
    show ?thesis
    proof (cases "map_of m x")
      case None
      then have "x \<notin> fst ` set (map_remove k m)" using s(1) by (auto simp: map_of_eq_None_iff)
      then have "map_of (map_remove k m) x = None" by (simp add: map_of_eq_None_iff)
      then show ?thesis using None False by simp
    next
      case (Some v)
      then have "(x, v) \<in> set (map_remove k m)" using s(1) False by (auto dest: map_of_SomeD)
      then show ?thesis using s(2) Some False by (simp add: map_of_eq_Some_iff)
    qed
  qed
qed

lemma map_of_map_extend:
  "distinct (map fst new) \<Longrightarrow> map_of (map_extend m new) = map_of m ++ map_of new"
proof (induction new arbitrary: m)
  case Nil
  then show ?case by (simp add: map_extend_def)
next
  case (Cons kv new)
  obtain k v where kv: "kv = (k, v)" by force
  have "map_extend m (kv # new) = map_extend (map_insert k v m) new"
    by (simp add: map_extend_def kv)
  moreover have "k \<notin> dom (map_of new)" using Cons.prems kv by (auto simp: dom_map_of_conv_image_fst)
  ultimately show ?case
    using Cons kv by (simp add: map_of_map_insert map_add_upd_left del: fun_upd_apply)
qed

lemma distinct_map_extend:
  "distinct (map fst m) \<Longrightarrow> distinct (map fst (map_extend m new))"
  by (induction new arbitrary: m) (auto simp: map_extend_def distinct_map_insert)

lemma map_remove_all_props:
  assumes "distinct (map fst m)"
  shows "distinct (map fst (map_remove_all ks m)) \<and>
    map_of (map_remove_all ks m) k = (if k \<in> set ks then None else map_of m k)"
  using assms
proof (induction ks arbitrary: m)
  case Nil
  then show ?case by (simp add: map_remove_all_def)
next
  case (Cons x ks)
  have "map_remove_all (x # ks) m = map_remove_all ks (map_remove x m)"
    by (simp add: map_remove_all_def)
  then show ?case
    using Cons.IH [OF mset_map_remove(2) [OF Cons.prems]]
    by (simp add: map_of_map_remove [OF Cons.prems])
qed

section \<open>Dotted paths\<close>

definition seg_key :: "string \<Rightarrow> string \<times> bool" where
  "seg_key seg = (case strip_suffix ''[]'' seg of Some k \<Rightarrow> (k, True) | None \<Rightarrow> (seg, False))"

definition seg_step :: "string \<Rightarrow> json list \<Rightarrow> json list" where
  "seg_step seg current =
     (let (key, fan_out) = seg_key seg
      in concat (map (\<lambda>value. case jget key value of
           None \<Rightarrow> []
         | Some child \<Rightarrow> (if fan_out then (case as_array child of Some items \<Rightarrow> items | None \<Rightarrow> [])
             else [child])) current))"

definition path_get :: "json \<Rightarrow> string \<Rightarrow> json list" where
  "path_get v path = (if path = [] then [v] else fold seg_step (split_on CHR ''.'' path) [v])"

definition path_first :: "json \<Rightarrow> string \<Rightarrow> json option" where
  "path_first v path = (case path_get v path of [] \<Rightarrow> None | w # _ \<Rightarrow> Some w)"

lemma seg_step_Nil [simp]: "seg_step seg [] = []"
  by (simp add: seg_step_def split: prod.splits)

lemma seg_step_append: "seg_step seg (vs @ ws) = seg_step seg vs @ seg_step seg ws"
  by (simp add: seg_step_def split: prod.splits)

lemma fold_seg_step_concat:
  "fold seg_step segs vs = concat (map (\<lambda>v. fold seg_step segs [v]) vs)"
proof (induction segs arbitrary: vs)
  case Nil
  then show ?case by (induction vs) auto
next
  case (Cons seg segs)
  have "fold seg_step segs (seg_step seg vs)
      = concat (map (\<lambda>v. fold seg_step segs (seg_step seg [v])) vs)"
  proof (induction vs)
    case Nil
    then show ?case by (simp add: Cons.IH [of "[]"])
  next
    case (Cons v vs)
    have "fold seg_step segs (xs @ ys) = fold seg_step segs xs @ fold seg_step segs ys" for xs ys
      by (subst (1 2 3) \<open>\<And>vs. fold seg_step segs vs = concat (map (\<lambda>v. fold seg_step segs [v]) vs)\<close>) simp
    moreover have "seg_step seg (v # vs) = seg_step seg [v] @ seg_step seg vs"
      using seg_step_append [of seg "[v]" vs] by simp
    ultimately show ?case using Cons by simp
  qed
  then show ?case by simp
qed

lemma split_on_dot_append: "split_on c (p @ c # q) = split_on c p @ split_on c q"
proof (induction p)
  case Nil
  then show ?case by simp
next
  case (Cons x p)
  obtain w ws where "split_on c p = w # ws" by (cases "split_on c p") auto
  then show ?case using Cons by auto
qed

section \<open>Secret names\<close>

definition secret_key_markers :: "string list" where
  "secret_key_markers = [''password'', ''secret'', ''token'', ''privatekey'', ''apikey'',
     ''sshkey'', ''publickey'', ''credential'', ''passphrase'', ''accessinformation'', ''cookie'',
     ''authorization'', ''certificate'', ''licensekey'', ''accesskey'', ''encryptionkey'',
     ''cloudinit'', ''sysprep'', ''unattend'', ''userdata'']"

definition secret_key_suffixes :: "string list" where
  "secret_key_suffixes = [''script'']"

definition secret_key_keep :: "string list" where
  "secret_key_keep = [''hasprivatekey'', ''shouldvalidateadcredential'',
     ''isforceresetpasswordenabled'', ''bucketsaccesskeys'', ''claimtokenextid'',
     ''accesskeyname'', ''apicredentialstatus'', ''credentialissuer'', ''authorizationpolicytype'']"

definition is_secret_name :: "string \<Rightarrow> bool" where
  "is_secret_name name =
     (let lower = map to_lower name
      in lower \<notin> set secret_key_keep \<and>
         ((\<exists>m \<in> set secret_key_markers. sublist m lower) \<or>
          (\<exists>s \<in> set secret_key_suffixes. suffix s lower)))"

definition is_key_material :: "string \<Rightarrow> bool" where
  "is_key_material s \<longleftrightarrow> prefix ''ssh-'' s \<or> prefix ''ecdsa-'' s \<or> prefix ''sk-'' s \<or>
     prefix ''-----BEGIN'' s \<or> 100 < length s"

section \<open>Properties\<close>

text \<open>
  reading a path is reading its first part and then the rest from every value found there,
  in order: fanning out over arrays composes, and a missing segment contributes nothing.
\<close>

theorem path_get_compose:
  assumes "p \<noteq> []" and "q \<noteq> []"
  shows "path_get v (p @ CHR ''.'' # q) = concat (map (\<lambda>w. path_get w q) (path_get v p))"
  using assms fold_seg_step_concat [of "split_on CHR ''.'' q" "fold seg_step (split_on CHR ''.'' p) [v]"]
  by (simp add: path_get_def split_on_dot_append)

definition two_nics :: json where
  "two_nics = JObj [(''nics'', JArr [JObj [(''ip'', JStr ''a'')], JObj [], JObj [(''ip'', JStr ''b'')]])]"

theorem path_get_compose_witness:
  "path_get two_nics ''nics[].ip'' = [JStr ''a'', JStr ''b'']"
proof -
  have "path_get two_nics ''nics[]'' = [JObj [(''ip'', JStr ''a'')], JObj [], JObj [(''ip'', JStr ''b'')]]"
    by (simp add: path_get_def two_nics_def seg_step_def seg_key_def strip_suffix_def suffix_to_prefix)
  moreover have "path_get (JObj [(''ip'', v)]) ''ip'' = [v]" and "path_get (JObj []) ''ip'' = []" for v
    by (simp_all add: path_get_def seg_step_def seg_key_def strip_suffix_def suffix_to_prefix)
  moreover have "path_get two_nics (''nics[]'' @ CHR ''.'' # ''ip'')
      = concat (map (\<lambda>w. path_get w ''ip'') (path_get two_nics ''nics[]''))"
    by (rule path_get_compose) simp_all
  ultimately show ?thesis by simp
qed

end
