(* ===== verification/Answers.thy ===== *)
theory Answers
  imports Json Rate_Limits
begin

text \<open>
  What an answer is read as: the error type (\<open>crates/prism/src/error.rs\<close>), the response
  envelope (\<open>envelope.rs\<close>), entities (\<open>entity.rs\<close>), and the mappings of
  \<open>client/requests.rs\<close> that need no client: status to error, action result, filled paths.

  Parsing bytes is \<open>serde_json\<close>'s and stays a parameter, a \<open>codec\<close>.
\<close>

section \<open>Errors\<close>

datatype cert_reason =
    UnknownIssuer | CaUsedAsEndEntity | NotValidForName | Expired | OtherReason string

datatype prism_error =
    ETls string
  | ECertificate string cert_reason
  | EConnect string string
  | EAuth
  | EDenied string
  | EForbidden string
  | ENotFound string
  | EAmbiguous string
  | EUnresolved string
  | EConflict string string string
  | ERateLimited duration
  | EApi nat string "duration option"
  | EDecode string
  | ECatalog string
  | ETransport string

fun reason_text :: "cert_reason \<Rightarrow> string" where
  "reason_text UnknownIssuer = ''its issuer is not trusted''"
| "reason_text CaUsedAsEndEntity = ''the server presented a CA certificate as its own (Prism Central'' @
     [CHR 0x27] @ ''s default self-signed certificate does this)''"
| "reason_text NotValidForName = ''it is not valid for this host name''"
| "reason_text Expired = ''it has expired''"
| "reason_text (OtherReason s) = s"

fun error_text :: "prism_error \<Rightarrow> string" where
  "error_text (ETls m) = ''TLS configuration error: '' @ m"
| "error_text (ECertificate h r) = ''TLS certificate of '' @ h @ '' rejected: '' @ reason_text r"
| "error_text (EConnect h m) = ''cannot connect to '' @ h @ '': '' @ m"
| "error_text EAuth = ''authentication failed (HTTP 401)''"
| "error_text (EDenied m) = ''not permitted (HTTP 401): '' @ m"
| "error_text (EForbidden m) = ''forbidden (HTTP 403): '' @ m"
| "error_text (ENotFound m) = ''not found (HTTP 404): '' @ m"
| "error_text (EAmbiguous m) = m"
| "error_text (EUnresolved m) = m"
| "error_text (EConflict k i a) = ''precondition failed (HTTP 412): '' @ k @ '' '' @ i @
     '' changed since it was loaded (action '' @ a @ '')''"
| "error_text (ERateLimited d) = ''rate limited (HTTP 429), retry after '' @ show_nat (as_secs d) @ ''s''"
| "error_text (EApi s m d) = ''HTTP '' @ show_nat s @ '': '' @ m"
| "error_text (EDecode m) = ''cannot decode response: '' @ m"
| "error_text (ECatalog m) = ''catalog: '' @ m"
| "error_text (ETransport m) = ''request failed: '' @ m"

fun error_retry_after :: "prism_error \<Rightarrow> duration option" where
  "error_retry_after (ERateLimited d) = Some d"
| "error_retry_after (EApi s m d) = d"
| "error_retry_after _ = None"

fun is_forbidden :: "prism_error \<Rightarrow> bool" where
  "is_forbidden (EForbidden _) = True"
| "is_forbidden _ = False"

text \<open>
  \<open>describe\<close>: an error is given by the texts of itself and of its sources, outermost first.
  A source that says what the last part already says is left out.
\<close>

definition describe_parts :: "string list \<Rightarrow> string list \<Rightarrow> string list" where
  "describe_parts parts sources =
     fold (\<lambda>t ps. if ps \<noteq> [] \<and> last ps = t then ps else ps @ [t]) sources parts"

definition describe :: "string \<Rightarrow> string list \<Rightarrow> string" where
  "describe e sources = join '': '' (describe_parts [e] sources)"

section \<open>The envelope\<close>

record envelope =
  env_total :: "nat option"
  env_data :: json

text \<open>
  \<open>parse_value\<close> stands for \<open>serde_json::from_slice\<close> to a \<open>Value\<close>, \<open>parse_envelope\<close> for the
  derived deserialisation to \<open>Envelope\<close> with its error text. A missing \<open>metadata\<close> and a missing
  total are both no total, which is all the program reads of it.
\<close>

record codec =
  parse_value :: "string \<Rightarrow> json option"
  parse_envelope :: "string \<Rightarrow> string + envelope"

definition envelope_parse :: "codec \<Rightarrow> string \<Rightarrow> prism_error + envelope" where
  "envelope_parse c body = (case parse_envelope c body of Inl e \<Rightarrow> Inl (EDecode e) | Inr env \<Rightarrow> Inr env)"

definition opt_str :: "json option \<Rightarrow> string option" where
  "opt_str v = Option.bind v as_str"

definition join_messages :: "json list \<Rightarrow> string option" where
  "join_messages items =
     (let msgs = List.map_filter (\<lambda>i. opt_str (jget ''message'' i)) items
      in if msgs = [] then None else Some (join ''; '' msgs))"

definition or_else :: "'a option \<Rightarrow> 'a option \<Rightarrow> 'a option" where
  "or_else a b = (case a of Some x \<Rightarrow> Some x | None \<Rightarrow> b)"

definition value_message :: "json \<Rightarrow> string option" where
  "value_message v =
     (case Option.bind (jget ''data'' v) (jget ''error'') of
        Some (JArr items) \<Rightarrow> join_messages items
      | Some (JObj o') \<Rightarrow>
          or_else (Option.bind (Option.bind (map_of o' ''validationErrorMessages'') as_array) join_messages)
            (or_else (opt_str (map_of o' ''error'')) (opt_str (map_of o' ''message'')))
      | _ \<Rightarrow> opt_str (jget ''message'' v))"

definition error_message :: "codec \<Rightarrow> string \<Rightarrow> string option" where
  "error_message c body = Option.bind (parse_value c body) value_message"

fun type_name :: "json \<Rightarrow> string" where
  "type_name JNull = ''null''"
| "type_name (JBool _) = ''bool''"
| "type_name (JNum _) = ''number''"
| "type_name (JStr _) = ''string''"
| "type_name (JArr _) = ''array''"
| "type_name (JObj _) = ''object''"

definition list_items :: "envelope \<Rightarrow> prism_error + (json list \<times> nat option)" where
  "list_items env = (case env_data env of
       JArr items \<Rightarrow> Inr (items, env_total env)
     | JNull \<Rightarrow> Inr ([], env_total env)
     | other \<Rightarrow> Inl (EDecode (''expected a list, got '' @ type_name other)))"

definition envelope_one :: "envelope \<Rightarrow> prism_error + json" where
  "envelope_one env = (case env_data env of
       JObj o' \<Rightarrow> Inr (JObj o')
     | other \<Rightarrow> Inl (EDecode (''expected an object, got '' @ type_name other)))"

section \<open>Status to error\<close>

definition ok_answer :: "codec \<Rightarrow> nat \<Rightarrow> headers \<Rightarrow> string \<Rightarrow> string \<Rightarrow> prism_error + envelope" where
  "ok_answer c status h body path =
     (let message = (case error_message c body of Some m \<Rightarrow> m | None \<Rightarrow> path)
      in if 200 \<le> status \<and> status \<le> 299 then envelope_parse c body
         else if status = 401 then Inl EAuth
         else if status = 403 then Inl (EForbidden message)
         else if status = 404 then Inl (ENotFound message)
         else if status = 429 then Inl (ERateLimited (retry_after h))
         else Inl (EApi status message
           (if h ''retry-after'' \<noteq> None then Some (retry_after h) else None)))"

section \<open>Entities\<close>

definition name_keys :: "string list" where
  "name_keys = [''name'', ''hostName'', ''templateName'', ''title'', ''displayName'', ''username'',
     ''operation'', ''key'', ''clusterName'', ''containerName'', ''serviceName'', ''clientName'',
     ''ownerName'']"

record entity =
  e_kind :: kind
  e_ext_id :: string
  e_name :: string
  e_etag :: "string option"
  e_raw :: json

fun find_map :: "('a \<Rightarrow> 'b option) \<Rightarrow> 'a list \<Rightarrow> 'b option" where
  "find_map f [] = None"
| "find_map f (x # xs) = (case f x of Some y \<Rightarrow> Some y | None \<Rightarrow> find_map f xs)"

definition new_entity :: "kind \<Rightarrow> json \<Rightarrow> string option \<Rightarrow> entity" where
  "new_entity k raw etag =
     (let ext_id = (case opt_str (jget (k_ext_id_key k) raw) of Some i \<Rightarrow> i | None \<Rightarrow> []);
          named = (if k_name_path k = [] then None else opt_str (path_first raw (k_name_path k)));
          name = (case or_else named (find_map (\<lambda>key. opt_str (jget key raw)) name_keys) of
              Some n \<Rightarrow> n | None \<Rightarrow> ext_id)
      in \<lparr>e_kind = k, e_ext_id = ext_id, e_name = name, e_etag = etag, e_raw = raw\<rparr>)"

section \<open>Action results\<close>

datatype action_result = Task string | Payload json | Empty

definition task_ref :: "json \<Rightarrow> string option" where
  "task_ref data =
     (let names_a_task = (case opt_str (jget (CHR 0x24 # ''objectType'') data) of
            Some ty \<Rightarrow> suffix ''TaskReference'' ty | None \<Rightarrow> True)
      in if \<not> names_a_task then None else opt_str (jget ''extId'' data))"

fun result_of :: "action_return \<Rightarrow> json \<Rightarrow> action_result" where
  "result_of RTask data = (case task_ref data of
       Some t \<Rightarrow> Task t
     | None \<Rightarrow> (if data = JNull then Empty else Payload data))"
| "result_of RPayload data = (if data = JNull then Empty else Payload data)"
| "result_of RNone data = (if data = JNull then Empty else Payload data)"

section \<open>Paths and messages\<close>

definition scoped_path :: "kind \<Rightarrow> string \<Rightarrow> string list \<Rightarrow> string option \<Rightarrow> prism_error + string" where
  "scoped_path k template parents tail =
     (let values = parents @ (case tail of Some t \<Rightarrow> [t] | None \<Rightarrow> [])
      in case fill_placeholders template values of
           Some p \<Rightarrow> Inr p
         | None \<Rightarrow> Inl (ECatalog (k_id k @ '': '' @ template @ '' needs '' @
             show_nat (placeholder_count template) @ '' path value(s), got '' @ show_nat (length values))))"

definition name_and_id :: "entity list \<Rightarrow> string" where
  "name_and_id cs =
     (let listed = join '', '' (map (\<lambda>c. e_name c @ '' ('' @ e_ext_id c @ '')'') cs)
      in if listed = [] then ''(none)'' else listed)"

definition missing_etag :: "kind \<Rightarrow> string \<Rightarrow> prism_error" where
  "missing_etag k ext_id = EDecode (k_id k @ '' '' @ ext_id @ '' returned no ETag header'')"

text \<open>Pages of \<open>limit\<close> items that cover \<open>total\<close>, saturating at \<open>u32::MAX\<close>.\<close>

definition page_count :: "nat \<Rightarrow> nat \<Rightarrow> nat" where
  "page_count tot lim = (let l = max lim 1 in sat_u32 ((tot + l - 1) div l))"

lemma ceil_div_le: "0 < l \<Longrightarrow> (t + l - 1) div l \<le> p \<longleftrightarrow> t \<le> p * (l :: nat)"
proof -
  assume l: "0 < l"
  have "(t + l - 1) div l < Suc p \<longleftrightarrow> t + l - 1 < Suc p * l"
    using l by (simp add: div_less_iff_less_mult)
  also have "\<dots> \<longleftrightarrow> t \<le> p * l" using l by auto
  finally show ?thesis by auto
qed

section \<open>Properties\<close>

text \<open>
  a status is read as success only in 2xx, where the one error is an undecodable body; a 401
  and only a 401 is a refused credential; and the wait an error reports is bounded by a minute.
\<close>

theorem ok_answer_kinds:
  "case ok_answer c status h body path of
     Inr _ \<Rightarrow> status \<in> {200..299}
   | Inl e \<Rightarrow> (status \<in> {200..299} \<longrightarrow> (\<exists>m. e = EDecode m)) \<and> (e = EAuth \<longleftrightarrow> status = 401) \<and>
       (is_forbidden e \<longleftrightarrow> status = 403) \<and>
       (case error_retry_after e of None \<Rightarrow> True | Some d \<Rightarrow> d \<le> from_secs 60)"
  by (auto simp: ok_answer_def envelope_parse_def Let_def retry_after_def max_retry_after_def
      split: sum.splits)

definition no_codec :: codec where
  "no_codec = \<lparr>parse_value = \<lambda>_. None, parse_envelope = \<lambda>_. Inl ''empty''\<rparr>"

theorem ok_answer_kinds_witness:
  "ok_answer no_codec 200 (\<lambda>_. None) [] ''/x'' = Inl (EDecode ''empty'')"
proof -
  have "ok_answer no_codec 200 (\<lambda>_. None) [] ''/x'' \<noteq> Inr e" for e
    by (simp add: ok_answer_def envelope_parse_def no_codec_def Let_def)
  then obtain e where e: "ok_answer no_codec 200 (\<lambda>_. None) [] ''/x'' = Inl e"
    by (cases "ok_answer no_codec 200 (\<lambda>_. None) [] ''/x''") auto
  then obtain m where "e = EDecode m"
    using ok_answer_kinds [where c = no_codec and status = 200 and h = "\<lambda>_. None" and body = "[]"
        and path = "''/x''"] by auto
  moreover have "m = ''empty''" if "e = EDecode m" for m
    using e that by (simp add: ok_answer_def envelope_parse_def no_codec_def Let_def)
  ultimately show ?thesis using e by simp
qed

text \<open>
  the pages asked for cover the whole list and no page is asked for past its end, unless
  the count saturates.
\<close>

theorem page_count_exact:
  assumes "tot \<le> u32_max" and "0 < lim"
  shows "page_count tot lim \<le> p \<longleftrightarrow> tot \<le> p * lim"
proof -
  have "(tot + lim - 1) div lim \<le> tot" using ceil_div_le [OF assms(2), of tot tot] assms(2) by simp
  moreover have "max lim 1 = lim" using assms(2) by simp
  ultimately have "page_count tot lim = (tot + lim - 1) div lim"
    using assms by (simp add: page_count_def Let_def sat_u32_exact)
  then show ?thesis using ceil_div_le [OF assms(2)] by simp
qed

theorem page_count_exact_witness: "page_count 201 100 = 3"
proof -
  have "201 \<le> u32_max" by (simp add: u32_max_def)
  then have "page_count 201 100 \<le> 3" and "\<not> page_count 201 100 \<le> 2"
    using page_count_exact [of 201 100] by simp_all
  then show ?thesis by simp
qed

end
