(* ===== verification/Session.thy ===== *)
theory Session
  imports Valve "HOL-Library.Word"
begin

text \<open>
  The credential and the session (\<open>crates/prism/src/client/session.rs\<close>): the cookie jar, the
  origin a session may ride to, what an answer proves about the credential, and what a request
  decides to carry. Nothing here waits; the requests that run over it are in \<open>Send\<close> and
  \<open>Gate\<close>.

  The jar's lock makes each of its operations one step. The generation is a \<open>u64\<close>, so a
  \<open>64 word\<close>. Whether a joined cookie list is a legal header value is the \<open>http\<close> crate's to
  say, so the operations that build one take the test \<open>hv\<close> as an argument.
\<close>

section \<open>Origins\<close>

record profile =
  pf_host :: string
  pf_port :: nat
  pf_username :: string
  pf_verify_tls :: bool
  pf_ca_bundle :: "string option"
  pf_plain_http :: bool

text \<open>A parsed URL, as far as the source reads one.\<close>

record url =
  u_scheme :: string
  u_host :: "string option"
  u_port_or_default :: "nat option"

record origin =
  o_scheme :: string
  o_host :: string
  o_port :: nat

definition scheme_of :: "profile \<Rightarrow> string" where
  "scheme_of p = (if pf_plain_http p then ''http'' else ''https'')"

definition base_url :: "profile \<Rightarrow> string" where
  "base_url p = scheme_of p @ ''://'' @ pf_host p @ '':'' @ show_nat (pf_port p)"

definition origin_of :: "profile \<Rightarrow> origin" where
  "origin_of p = \<lparr>o_scheme = scheme_of p, o_host = pf_host p, o_port = pf_port p\<rparr>"

definition origin_is :: "origin \<Rightarrow> url \<Rightarrow> bool" where
  "origin_is og u \<longleftrightarrow> u_scheme u = o_scheme og \<and> u_port_or_default u = Some (o_port og) \<and>
     (case u_host u of Some h \<Rightarrow> eq_ignore_ascii_case h (o_host og) | None \<Rightarrow> False)"

definition may_carry :: "origin \<Rightarrow> url \<Rightarrow> bool \<Rightarrow> bool" where
  "may_carry og u presented \<longleftrightarrow> presented \<or> origin_is og u"

section \<open>The jar\<close>

record jarred =
  j_cookies :: "(string \<times> string) list"
  j_generation :: "64 word"
  j_ever_answered :: bool
  j_ok_urls :: "string list"
  j_renewals :: nat

definition empty_jar :: jarred where
  "empty_jar = \<lparr>j_cookies = [], j_generation = 0, j_ever_answered = False, j_ok_urls = [],
     j_renewals = 0\<rparr>"

definition probe_urls :: nat where
  "probe_urls = 4"

definition give_up_renewals :: nat where
  "give_up_renewals = 2"

text \<open>The cookies are a \<open>BTreeMap\<close>: sorted by name, each name once.\<close>

fun bt_insert :: "string \<Rightarrow> string \<Rightarrow> (string \<times> string) list \<Rightarrow> (string \<times> string) list" where
  "bt_insert k v [] = [(k, v)]"
| "bt_insert k v ((k', v') # m) =
     (if k < k' then (k, v) # (k', v') # m
      else if k = k' then (k, v) # m
      else (k', v') # bt_insert k v m)"

definition bt_remove :: "string \<Rightarrow> (string \<times> string) list \<Rightarrow> (string \<times> string) list" where
  "bt_remove k m = filter (\<lambda>kv. fst kv \<noteq> k) m"

definition usable :: "jarred \<Rightarrow> bool" where
  "usable j \<longleftrightarrow> j_ever_answered j \<or> j_renewals j < give_up_renewals"

definition cookie_header :: "(string \<times> string) list \<Rightarrow> string" where
  "cookie_header cs = join ''; '' (map (\<lambda>(k, v). k @ ''='' @ v) cs)"

definition ride :: "(string \<Rightarrow> bool) \<Rightarrow> jarred \<Rightarrow> (64 word \<times> string) option" where
  "ride hv j =
     (if j_cookies j = [] \<or> \<not> usable j then None
      else let joined = cookie_header (j_cookies j)
           in if hv joined then Some (j_generation j, joined) else None)"

definition remember_ok :: "string \<Rightarrow> jarred \<Rightarrow> jarred" where
  "remember_ok u j =
     (if j_ok_urls j \<noteq> [] \<and> last (j_ok_urls j) = u then j
      else let urls = filter (\<lambda>x. x \<noteq> u) (j_ok_urls j) @ [u]
           in j\<lparr>j_ok_urls := (if probe_urls < length urls then tl urls else urls)\<rparr>)"

definition answered :: "string \<Rightarrow> jarred \<Rightarrow> jarred" where
  "answered u j = remember_ok u (j\<lparr>j_ever_answered := True\<rparr>)"

definition probe_url :: "string \<Rightarrow> jarred \<Rightarrow> string option" where
  "probe_url not_u j = find (\<lambda>u. u \<noteq> not_u) (rev (j_ok_urls j))"

definition presented_ok :: "jarred \<Rightarrow> jarred" where
  "presented_ok j = (if j_cookies j = [] then j\<lparr>j_renewals := sat_add_u32 (j_renewals j) 1\<rparr> else j)"

definition expire :: "64 word \<Rightarrow> jarred \<Rightarrow> jarred" where
  "expire g j =
     (let j1 = j\<lparr>j_renewals := sat_add_u32 (j_renewals j) 1\<rparr>
      in if j_generation j1 \<noteq> g then j1
         else j1\<lparr>j_cookies := [], j_generation := j_generation j1 + 1\<rparr>)"

text \<open>One \<open>Set-Cookie\<close> value that reads as text.\<close>

definition set_cookie :: "string \<Rightarrow> jarred \<Rightarrow> jarred" where
  "set_cookie txt j =
     (case split_once CHR ''='' txt of
        None \<Rightarrow> j
      | Some (raw_name, rest) \<Rightarrow>
          (let name = trim raw_name;
               val = trim (hd (split_on CHR '';'' rest));
               deleted = (val = [] \<or>
                 (\<exists>a \<in> set (split_on CHR '';'' (map to_lower txt)). trim a = ''max-age=0''))
           in if deleted then j\<lparr>j_cookies := bt_remove name (j_cookies j)\<rparr>
              else j\<lparr>j_cookies := bt_insert name val (j_cookies j)\<rparr>))"

text \<open>A header value that does not read as text is \<open>None\<close> and skipped.\<close>

definition set_cookies :: "origin \<Rightarrow> string option list \<Rightarrow> url \<Rightarrow> jarred \<Rightarrow> jarred" where
  "set_cookies og hs u j =
     (if \<not> origin_is og u then j
      else if \<not> usable j then j
      else fold (\<lambda>h j. case h of None \<Rightarrow> j | Some t \<Rightarrow> set_cookie t j) hs j)"

definition jar_cookies :: "(string \<Rightarrow> bool) \<Rightarrow> origin \<Rightarrow> url \<Rightarrow> jarred \<Rightarrow> string option" where
  "jar_cookies hv og u j = (if \<not> origin_is og u then None else map_option snd (ride hv j))"

section \<open>The credential\<close>

datatype auth_state = Unauthenticated | Established | Rejected

definition settle :: "bool \<Rightarrow> nat \<Rightarrow> auth_state \<Rightarrow> auth_state" where
  "settle presented status st =
     (if status = 401 \<and> \<not> presented then st
      else if st = Rejected then st
      else if status = 401 then Rejected else Established)"

section \<open>What a request carries\<close>

datatype pass = First | Renewing | Authenticate

datatype carry = Credential | Session "64 word" string

datatype carried = Presented | OnSession | RefusedHere

fun carried_word :: "carried \<Rightarrow> string" where
  "carried_word Presented = ''presented''"
| "carried_word OnSession = ''session''"
| "carried_word RefusedHere = ''refused''"

text \<open>What the client keeps about the credential, each part under its own lock.\<close>

record sess =
  s_jar :: jarred
  s_auth :: auth_state
  s_valve :: valve

definition new_sess :: sess where
  "new_sess = \<lparr>s_jar = empty_jar, s_auth = Unauthenticated, s_valve = valve_default\<rparr>"

definition auth_rejected :: "sess \<Rightarrow> bool" where
  "auth_rejected s \<longleftrightarrow> s_auth s = Rejected \<or> \<not> valve_open (s_valve s)"

text \<open>
  \<open>Client::carry\<close> in its two halves. Before the gate a request may be decided: the degraded
  mode, a refused credential, or an established one with a session to ride. Otherwise it waits
  for the permit, and behind it decides again; \<open>Hold\<close> keeps the permit while the request is out.
\<close>

datatype before_gate = Carries carry | Refuses | Waits

definition carry_before :: "(string \<Rightarrow> bool) \<Rightarrow> pass \<Rightarrow> sess \<Rightarrow> before_gate" where
  "carry_before hv p s =
     (if \<not> usable (s_jar s) then Carries Credential
      else if s_auth s = Rejected then Refuses
      else if s_auth s = Established \<and> p = First then
        (case ride hv (s_jar s) of Some (g, c) \<Rightarrow> Carries (Session g c) | None \<Rightarrow> Waits)
      else Waits)"

datatype behind_gate = RefusesBehind | Rides "64 word" string | Hold

definition carry_behind :: "(string \<Rightarrow> bool) \<Rightarrow> pass \<Rightarrow> sess \<Rightarrow> behind_gate" where
  "carry_behind hv p s =
     (if s_auth s = Rejected then RefusesBehind
      else if p \<noteq> Authenticate then
        (case ride hv (s_jar s) of Some (g, c) \<Rightarrow> Rides g c | None \<Rightarrow> Hold)
      else Hold)"

text \<open>
  What an answer changes, in the order \<open>Client::attempt\<close> makes the changes: the jar learns the
  URL, a refused credential shuts the valve, an answered presentation is counted when it opened
  no session, and the credential's state settles. A 401 on a session is not settled here.
\<close>

definition learn_url :: "bool \<Rightarrow> nat \<Rightarrow> string \<Rightarrow> sess \<Rightarrow> sess" where
  "learn_url presented status u s =
     (if \<not> presented then s\<lparr>s_jar := answered u (s_jar s)\<rparr>
      else if status \<noteq> 401 then s\<lparr>s_jar := remember_ok u (s_jar s)\<rparr> else s)"

definition shut_valve :: "bool \<Rightarrow> nat \<Rightarrow> instant \<Rightarrow> sess \<Rightarrow> sess" where
  "shut_valve presented status now s =
     (if presented \<and> status = 401 then s\<lparr>s_valve := latch (refused now (s_valve s))\<rparr> else s)"

definition count_session :: "bool \<Rightarrow> nat \<Rightarrow> sess \<Rightarrow> sess" where
  "count_session presented status s =
     (if presented \<and> status \<noteq> 401 then s\<lparr>s_jar := presented_ok (s_jar s)\<rparr> else s)"

definition settle_auth :: "bool \<Rightarrow> nat \<Rightarrow> sess \<Rightarrow> sess" where
  "settle_auth presented status s = s\<lparr>s_auth := settle presented status (s_auth s)\<rparr>"

definition settle_answer :: "bool \<Rightarrow> nat \<Rightarrow> string \<Rightarrow> instant \<Rightarrow> sess \<Rightarrow> sess" where
  "settle_answer presented status u now s =
     settle_auth presented status (count_session presented status
       (shut_valve presented status now (learn_url presented status u s)))"

section \<open>The jar's invariant\<close>

datatype jar_op = JAnswered string | JRemember string | JPresented | JExpire "64 word"
  | JSet origin "string option list" url

fun jar_step :: "jar_op \<Rightarrow> jarred \<Rightarrow> jarred" where
  "jar_step (JAnswered u) j = answered u j"
| "jar_step (JRemember u) j = remember_ok u j"
| "jar_step JPresented j = presented_ok j"
| "jar_step (JExpire g) j = expire g j"
| "jar_step (JSet og hs u) j = set_cookies og hs u j"

definition cookies_ok :: "(string \<times> string) list \<Rightarrow> bool" where
  "cookies_ok m \<longleftrightarrow> sorted_wrt (<) (map fst m) \<and> (\<forall>kv \<in> set m. snd kv \<noteq> [])"

definition jar_ok :: "jarred \<Rightarrow> bool" where
  "jar_ok j \<longleftrightarrow> cookies_ok (j_cookies j) \<and> distinct (j_ok_urls j) \<and>
     length (j_ok_urls j) \<le> probe_urls \<and> j_renewals j \<le> u32_max"

lemma keys_bt_insert: "fst ` set (bt_insert k v m) = insert k (fst ` set m)"
  by (induction k v m rule: bt_insert.induct) auto

lemma set_bt_insert: "set (bt_insert k v m) \<subseteq> insert (k, v) (set m)"
  by (induction k v m rule: bt_insert.induct) auto

lemma sorted_bt_insert:
  "sorted_wrt (<) (map fst m) \<Longrightarrow> sorted_wrt (<) (map fst (bt_insert k v m))"
proof (induction k v m rule: bt_insert.induct)
  case (1 k v)
  then show ?case by simp
next
  case (2 k v k' v' m)
  have "\<forall>x \<in> fst ` set (bt_insert k v m). k' < x" if "k' < k"
    using 2(2) that by (simp add: keys_bt_insert)
  with 2 show ?case by (auto simp: not_less_iff_gr_or_eq intro: less_trans)
qed

lemma map_of_bt_insert:
  "sorted_wrt (<) (map fst m) \<Longrightarrow> map_of (bt_insert k v m) = (map_of m)(k \<mapsto> v)"
  by (induction k v m rule: bt_insert.induct) auto

lemma cookies_ok_insert: "cookies_ok m \<Longrightarrow> v \<noteq> [] \<Longrightarrow> cookies_ok (bt_insert k v m)"
  using set_bt_insert [of k v m] by (fastforce simp: cookies_ok_def sorted_bt_insert)

lemma sorted_filter_fst:
  "sorted_wrt (<) (map fst m) \<Longrightarrow> sorted_wrt (<) (map fst (filter P m))"
  by (induction m) auto

lemma cookies_ok_remove: "cookies_ok m \<Longrightarrow> cookies_ok (bt_remove k m)"
  by (auto simp: cookies_ok_def bt_remove_def sorted_filter_fst)

lemma set_cookie_frame [frame_simps]:
  "j_ok_urls (set_cookie t j) = j_ok_urls j" "j_renewals (set_cookie t j) = j_renewals j"
  "j_generation (set_cookie t j) = j_generation j"
  "j_ever_answered (set_cookie t j) = j_ever_answered j"
  by (auto simp: set_cookie_def Let_def split: option.splits)

lemma cookies_ok_set_cookie: "cookies_ok (j_cookies j) \<Longrightarrow> cookies_ok (j_cookies (set_cookie t j))"
  by (auto simp: set_cookie_def Let_def cookies_ok_insert cookies_ok_remove split: option.splits)

definition set_cookie_opt :: "string option \<Rightarrow> jarred \<Rightarrow> jarred" where
  "set_cookie_opt h j = (case h of None \<Rightarrow> j | Some t \<Rightarrow> set_cookie t j)"

lemma set_cookies_eq:
  "set_cookies og hs u j = (if origin_is og u \<and> usable j then fold set_cookie_opt hs j else j)"
proof -
  have "(\<lambda>h j. case h of None \<Rightarrow> j | Some t \<Rightarrow> set_cookie t j) = set_cookie_opt"
    by (intro ext) (simp add: set_cookie_opt_def)
  then show ?thesis by (simp add: set_cookies_def)
qed

lemma fold_set_cookie_frame:
  "j_ok_urls (fold set_cookie_opt hs j) = j_ok_urls j"
  "j_renewals (fold set_cookie_opt hs j) = j_renewals j"
  "j_generation (fold set_cookie_opt hs j) = j_generation j"
  "j_ever_answered (fold set_cookie_opt hs j) = j_ever_answered j"
  by (induction hs arbitrary: j) (auto simp: set_cookie_opt_def frame_simps split: option.splits)

lemma set_cookies_frame [frame_simps]:
  "j_ok_urls (set_cookies og hs u j) = j_ok_urls j"
  "j_renewals (set_cookies og hs u j) = j_renewals j"
  "j_generation (set_cookies og hs u j) = j_generation j"
  "j_ever_answered (set_cookies og hs u j) = j_ever_answered j"
  by (simp_all add: set_cookies_eq fold_set_cookie_frame)

lemma cookies_ok_set_cookies:
  "cookies_ok (j_cookies j) \<Longrightarrow> cookies_ok (j_cookies (set_cookies og hs u j))"
proof -
  have "cookies_ok (j_cookies j) \<Longrightarrow> cookies_ok (j_cookies (fold set_cookie_opt hs j))" for j
    by (induction hs arbitrary: j)
      (auto simp: set_cookie_opt_def cookies_ok_set_cookie split: option.splits)
  then show "cookies_ok (j_cookies j) \<Longrightarrow> cookies_ok (j_cookies (set_cookies og hs u j))"
    by (simp add: set_cookies_eq)
qed

lemma remember_ok_frame [frame_simps]:
  "j_cookies (remember_ok u j) = j_cookies j" "j_renewals (remember_ok u j) = j_renewals j"
  "j_generation (remember_ok u j) = j_generation j"
  "j_ever_answered (remember_ok u j) = j_ever_answered j"
  by (simp_all add: remember_ok_def Let_def)

lemma remember_ok_urls:
  assumes "distinct (j_ok_urls j)" and "length (j_ok_urls j) \<le> probe_urls"
  shows "distinct (j_ok_urls (remember_ok u j)) \<and> length (j_ok_urls (remember_ok u j)) \<le> probe_urls"
proof -
  have "length (filter (\<lambda>x. x \<noteq> u) (j_ok_urls j)) \<le> probe_urls"
    using assms(2) length_filter_le [of "\<lambda>x. x \<noteq> u" "j_ok_urls j"] by linarith
  then show ?thesis
    using assms by (auto simp: remember_ok_def Let_def distinct_tl)
qed

lemma answered_frame [frame_simps]:
  "j_cookies (answered u j) = j_cookies j" "j_renewals (answered u j) = j_renewals j"
  "j_generation (answered u j) = j_generation j" "j_ever_answered (answered u j)"
  by (simp_all add: answered_def remember_ok_frame)

lemma presented_ok_frame [frame_simps]:
  "j_cookies (presented_ok j) = j_cookies j" "j_generation (presented_ok j) = j_generation j"
  "j_ok_urls (presented_ok j) = j_ok_urls j"
  "j_ever_answered (presented_ok j) = j_ever_answered j"
  by (simp_all add: presented_ok_def)

lemma expire_frame [frame_simps]:
  "j_ok_urls (expire g j) = j_ok_urls j" "j_ever_answered (expire g j) = j_ever_answered j"
  "j_renewals (expire g j) = sat_add_u32 (j_renewals j) 1"
  by (simp_all add: expire_def Let_def)

lemma expire_stale: "j_generation j \<noteq> g \<Longrightarrow> j_cookies (expire g j) = j_cookies j"
  by (simp add: expire_def Let_def)

lemma expire_generation:
  "j_generation (expire g j) = (if j_generation j = g then g + 1 else j_generation j)"
  by (simp add: expire_def Let_def)

lemma cookies_ok_Nil [simp]: "cookies_ok []"
  by (simp add: cookies_ok_def)

lemma jar_ok_step [inv_intros]: "jar_ok j \<Longrightarrow> jar_ok (jar_step e j)"
proof (cases e)
  case (JAnswered u)
  then show "jar_ok j \<Longrightarrow> jar_ok (jar_step e j)"
    using remember_ok_urls [of "j\<lparr>j_ever_answered := True\<rparr>" u]
    by (simp add: jar_ok_def frame_simps) (simp add: answered_def)
next
  case (JRemember u)
  then show "jar_ok j \<Longrightarrow> jar_ok (jar_step e j)"
    using remember_ok_urls [of j u] by (simp add: jar_ok_def frame_simps)
next
  case JPresented
  then show "jar_ok j \<Longrightarrow> jar_ok (jar_step e j)"
    by (simp add: jar_ok_def presented_ok_def)
next
  case (JExpire g)
  then show "jar_ok j \<Longrightarrow> jar_ok (jar_step e j)"
    by (simp add: jar_ok_def frame_simps) (simp add: expire_def Let_def)
next
  case (JSet og hs u)
  then show "jar_ok j \<Longrightarrow> jar_ok (jar_step e j)"
    by (simp add: jar_ok_def frame_simps cookies_ok_set_cookies)
qed

lemma jar_ok_run: "jar_ok j \<Longrightarrow> jar_ok (fold jar_step es j)"
  by (induction es arbitrary: j) (auto intro: jar_ok_step)

lemma jar_ok_empty [inv_intros]: "jar_ok empty_jar"
  by (simp add: jar_ok_def empty_jar_def u32_max_def)

section \<open>One-way facts\<close>

interpretation jar_proven: one_way jar_step j_ever_answered
proof
  fix j :: jarred and e
  assume "j_ever_answered j"
  then show "j_ever_answered (jar_step e j)" by (cases e) (simp_all add: frame_simps)
qed

interpretation auth_latch: one_way "\<lambda>(presented, status). settle presented status" "\<lambda>a. a = Rejected"
  by unfold_locales (auto simp: settle_def)

lemma settle_Rejected_iff:
  "settle presented status st = Rejected \<longleftrightarrow> st = Rejected \<or> presented \<and> status = 401"
  by (auto simp: settle_def)

lemma jar_renewals_mono: "j_renewals j \<le> u32_max \<Longrightarrow> j_renewals j \<le> j_renewals (jar_step e j)"
  by (cases e) (simp_all add: frame_simps sat_add_u32_mono presented_ok_def)

section \<open>The URLs a session has answered on\<close>

lemma remdups_snoc: "remdups (us @ [u]) = filter (\<lambda>x. x \<noteq> u) (remdups us) @ [u]"
  by (induction us) auto

definition last_n :: "nat \<Rightarrow> 'a list \<Rightarrow> 'a list" where
  "last_n n xs = drop (length xs - n) xs"

lemma last_n_snoc: "0 < n \<Longrightarrow> last_n n (xs @ [x]) = last_n (n - 1) xs @ [x]"
  by (cases "length xs < n") (auto simp: last_n_def Suc_diff_le)

lemma last_n_append: "length ys \<le> n \<Longrightarrow> last_n n (xs @ ys) = last_n (n - length ys) xs @ ys"
  by (simp add: last_n_def)

lemma last_n_short: "length xs \<le> n \<Longrightarrow> last_n n xs = xs"
  by (simp add: last_n_def)

lemma last_n_suffix: "n \<le> length ys \<Longrightarrow> last_n n (xs @ ys) = last_n n ys"
  by (simp add: last_n_def)

lemma length_filter_neq:
  "distinct xs \<Longrightarrow> length xs \<le> Suc (length (filter (\<lambda>x. x \<noteq> u) xs))"
proof (induction xs)
  case Nil
  then show ?case by simp
next
  case (Cons x xs)
  then have "x = u \<Longrightarrow> filter (\<lambda>y. y \<noteq> u) xs = xs" by (auto simp: filter_id_conv)
  with Cons show ?case by auto
qed

lemma last_n_filter_neq:
  assumes "distinct xs"
  shows "last_n n (filter (\<lambda>x. x \<noteq> u) xs) = last_n n (filter (\<lambda>x. x \<noteq> u) (last_n (Suc n) xs))"
proof (cases "length xs \<le> Suc n")
  case True
  then show ?thesis by (simp add: last_n_short)
next
  case False
  let ?as = "take (length xs - Suc n) xs" and ?bs = "last_n (Suc n) xs"
  have xs: "xs = ?as @ ?bs" by (simp add: last_n_def)
  have "distinct ?bs" using assms by (simp add: last_n_def)
  moreover have "length ?bs = Suc n" using False by (simp add: last_n_def)
  ultimately have "n \<le> length (filter (\<lambda>x. x \<noteq> u) ?bs)"
    using length_filter_neq [of ?bs u] by simp
  then have "last_n n (filter (\<lambda>x. x \<noteq> u) ?as @ filter (\<lambda>x. x \<noteq> u) ?bs)
      = last_n n (filter (\<lambda>x. x \<noteq> u) ?bs)"
    by (rule last_n_suffix)
  moreover have "filter (\<lambda>x. x \<noteq> u) xs = filter (\<lambda>x. x \<noteq> u) ?as @ filter (\<lambda>x. x \<noteq> u) ?bs"
    using xs by (metis filter_append)
  ultimately show ?thesis by simp
qed

lemma remember_ok_last_n:
  assumes d: "distinct xs" and j: "j_ok_urls j = last_n probe_urls xs"
  shows "j_ok_urls (remember_ok u j) = last_n probe_urls (filter (\<lambda>x. x \<noteq> u) xs @ [u])"
proof -
  let ?l = "j_ok_urls j" and ?f = "filter (\<lambda>x. x \<noteq> u)"
  have dl: "distinct ?l" and len: "length ?l \<le> probe_urls" using d j by (simp_all add: last_n_def)
  have "last_n probe_urls (?f xs @ [u]) = last_n (probe_urls - 1) (?f xs) @ [u]"
    by (simp add: last_n_snoc probe_urls_def)
  also have "\<dots> = last_n (probe_urls - 1) (?f ?l) @ [u]"
    using last_n_filter_neq [OF d, of "probe_urls - 1" u] j by (simp add: probe_urls_def)
  also have "\<dots> = last_n probe_urls (?f ?l @ [u])"
    by (simp add: last_n_snoc probe_urls_def)
  finally have eq: "last_n probe_urls (?f xs @ [u]) = last_n probe_urls (?f ?l @ [u])" .
  show ?thesis
  proof (cases "?l \<noteq> [] \<and> last ?l = u")
    case True
    then obtain ys where ys: "?l = ys @ [u]" by (metis append_butlast_last_id)
    then have "?f ?l = ys" using dl by (auto simp: filter_id_conv)
    then show ?thesis using True eq ys len by (simp add: remember_ok_def last_n_short)
  next
    case False
    have "length (?f ?l) \<le> probe_urls" using len length_filter_le [of "\<lambda>x. x \<noteq> u" ?l] by linarith
    then have "length (?f ?l @ [u]) - probe_urls = (if probe_urls < length (?f ?l @ [u]) then 1 else 0)"
      by auto
    then have "last_n probe_urls (?f ?l @ [u])
        = (if probe_urls < length (?f ?l @ [u]) then tl (?f ?l @ [u]) else ?f ?l @ [u])"
      unfolding last_n_def by (simp only: drop_Suc drop_0 One_nat_def split: if_split) simp
    then show ?thesis using False eq by (auto simp: remember_ok_def Let_def)
  qed
qed

lemma ok_urls_history: "j_ok_urls (fold remember_ok us empty_jar) = last_n probe_urls (remdups us)"
proof (induction us rule: rev_induct)
  case Nil
  then show ?case by (simp add: empty_jar_def last_n_def)
next
  case (snoc u us)
  then show ?case using remember_ok_last_n [OF distinct_remdups snoc, of u] by (simp add: remdups_snoc)
qed

section \<open>Properties\<close>

text \<open>
  whatever answers, expiries and \<open>Set-Cookie\<close> headers arrive, the jar stays well formed:
  cookies sorted with each name once and no empty value, at most four distinct URLs.
\<close>

theorem jar_stays_ok:
  "let j = fold jar_step es empty_jar
   in sorted_wrt (<) (map fst (j_cookies j)) \<and> [] \<notin> snd ` set (j_cookies j) \<and>
      distinct (j_ok_urls j) \<and> length (j_ok_urls j) \<le> 4"
  using jar_ok_run [OF jar_ok_empty, of es]
  by (auto simp: Let_def jar_ok_def cookies_ok_def probe_urls_def)

text \<open>
  the jar's list of answered URLs refines the whole history: it is the last four distinct
  URLs answered, most recent last, so a liveness check asks the most recently answered URL that
  is not the refused one.
\<close>

theorem ok_urls_refine_history:
  "j_ok_urls (fold remember_ok us empty_jar) = drop (length (remdups us) - 4) (remdups us)"
  using ok_urls_history [of us] by (simp add: last_n_def probe_urls_def)

text \<open>
  C10: however many requests held one session when it was refused, the jar is emptied once: after
  the first expiry a cookie the renewal banked survives every later refusal of the old session.
\<close>

theorem stale_holders_renew_once:
  assumes "j_generation j = g" and "\<forall>h. JExpire h \<in> set es \<longrightarrow> h = g"
  shows "j_generation (fold jar_step es (expire g j)) = g + 1 \<and>
    j_cookies (expire g (fold jar_step es (expire g j))) = j_cookies (fold jar_step es (expire g j))"
proof -
  have step: "j_generation (fold jar_step es i) = g + 1"
    if "j_generation i = g + 1" and "\<forall>h. JExpire h \<in> set es \<longrightarrow> h = g" for i :: jarred and es
    using that
  proof (induction es arbitrary: i)
    case Nil
    then show ?case by simp
  next
    case (Cons e es)
    have "j_generation (jar_step e i) = g + 1"
      using Cons.prems by (cases e) (auto simp: frame_simps expire_generation)
    then show ?case using Cons by simp
  qed
  have "j_generation (expire g j) = g + 1" using assms(1) by (simp add: expire_generation)
  then have gen: "j_generation (fold jar_step es (expire g j)) = g + 1"
    using step assms(2) by blast
  then show ?thesis by (simp add: expire_stale)
qed

definition lab_origin :: origin where
  "lab_origin = \<lparr>o_scheme = ''https'', o_host = ''pc'', o_port = 9440\<rparr>"

definition lab_url :: url where
  "lab_url = \<lparr>u_scheme = ''https'', u_host = Some ''PC'', u_port_or_default = Some 9440\<rparr>"

theorem stale_holders_renew_once_witness:
  "let j = fold jar_step [JSet lab_origin [Some ''a=b''] lab_url, JExpire 0] (expire 0 empty_jar)
   in j_generation j = 1 \<and> j_cookies (expire 0 j) = j_cookies j"
  using stale_holders_renew_once [of empty_jar 0 "[JSet lab_origin [Some ''a=b''] lab_url, JExpire 0]"]
  by (simp add: Let_def empty_jar_def)

definition token :: "string \<Rightarrow> bool" where
  "token s \<longleftrightarrow> s \<noteq> [] \<and> graphic (hd s) \<and> graphic (last s) \<and> CHR '';'' \<notin> set s \<and> CHR ''='' \<notin> set s"

text \<open>
  a cookie a Prism Central sets is the one the next request rides with: its name maps to its
  value and every other cookie keeps its own, whatever attributes follow the value.
\<close>

theorem set_cookie_banks:
  assumes "jar_ok j" and "token name" and "token val"
    and "\<forall>a \<in> set (split_on CHR '';'' (map to_lower (name @ CHR ''='' # val @ attrs))). trim a \<noteq> ''max-age=0''"
    and "attrs = [] \<or> hd attrs = CHR '';''"
  shows "map_of (j_cookies (set_cookie (name @ CHR ''='' # val @ attrs) j))
    = (map_of (j_cookies j))(name \<mapsto> val)"
proof -
  have "split_once CHR ''='' (name @ CHR ''='' # val @ attrs) = Some (name, val @ attrs)"
    using assms(2) by (simp add: split_once_def token_def takeWhile_append dropWhile_append)
  moreover have "hd (split_on CHR '';'' (val @ attrs)) = val"
    using assms(3,5) split_on_append [of "CHR '';''" val] split_on_single [of "CHR '';''" val]
    by (cases attrs) (auto simp: token_def)
  moreover have "trim name = name" and "trim val = val" and "val \<noteq> []"
    using assms(2,3) by (simp_all add: token_def trim_graphic)
  ultimately have "set_cookie (name @ CHR ''='' # val @ attrs) j
      = j\<lparr>j_cookies := bt_insert name val (j_cookies j)\<rparr>"
    using assms(4) by (simp add: set_cookie_def Let_def)
  then show ?thesis
    using assms(1) by (simp add: map_of_bt_insert jar_ok_def cookies_ok_def)
qed

theorem set_cookie_banks_witness:
  "map_of (j_cookies (set_cookie ''sid=abc'' empty_jar)) = [''sid'' \<mapsto> ''abc'']"
proof -
  have low: "map to_lower ''sid=abc'' = ''sid=abc''" by (simp add: to_lower_def Let_def)
  have "trim ''sid=abc'' = ''sid=abc''" by (rule trim_graphic) (simp add: graphic_def)
  then have "\<forall>a \<in> set (split_on CHR '';'' (map to_lower (''sid'' @ CHR ''='' # ''abc'' @ []))). trim a \<noteq> ''max-age=0''"
    using low by simp
  moreover have "token ''sid''" and "token ''abc''" by (simp_all add: token_def graphic_def)
  ultimately show ?thesis
    using set_cookie_banks [OF jar_ok_empty, of "''sid''" "''abc''" "[]"] by (simp add: empty_jar_def)
qed

end
