(* ===== verification/Gate.thy ===== *)
theory Gate
  imports Session
begin

text \<open>
  Any number of requests through the gate at once: the interleavings of \<open>Client::send\<close>,
  \<open>carry\<close> and \<open>attempt\<close> (\<open>crates/prism/src/client/session.rs\<close>) over one client.

  A request is a program counter, and each rule of \<open>gstep\<close> is one access to shared state: one
  lock taken, the permit taken or given back, or an answer arriving. \<open>OutAgain\<close> is the one retry
  after a 429. Between two of them any
  other request may move. What the server answers, which cookies it sets and when are free. The
  pacing before each attempt decides only when a request moves and is left out here.
\<close>

section \<open>Requests and steps\<close>

datatype outcome = FAnswered nat | FAuth | FDenied | FTransport

datatype rpc =
    Start pass
  | AtCarry pass
  | AtState pass
  | AtRide pass
  | AtGate pass
  | Behind pass
  | BehindRide pass
  | Out pass carry bool
  | OutAgain pass carry bool
  | Got pass carry bool nat
  | Probing pass "64 word"
  | Learnt carry bool nat
  | Shut carry bool nat
  | Counted carry bool nat
  | Settled bool nat
  | Finished outcome

text \<open>Whether the request holds the permit; the flag of the later stages says so.\<close>

fun holds :: "rpc \<Rightarrow> bool" where
  "holds (Behind _) = True"
| "holds (BehindRide _) = True"
| "holds (Out _ _ h) = h"
| "holds (OutAgain _ _ h) = h"
| "holds (Got _ _ h _) = h"
| "holds (Learnt _ h _) = h"
| "holds (Shut _ h _) = h"
| "holds (Counted _ h _) = h"
| "holds (Settled h _) = h"
| "holds _ = False"

datatype event = Sent nat carry bool | RefusedBy nat bool

record gate_state =
  g_sess :: sess
  g_holder :: "nat option"
  g_pc :: "nat \<Rightarrow> rpc"
  g_log :: "event list"

definition gate_init :: gate_state where
  "gate_init = \<lparr>g_sess = new_sess, g_holder = None, g_pc = \<lambda>_. Start First, g_log = []\<rparr>"

definition put :: "nat \<Rightarrow> rpc \<Rightarrow> gate_state \<Rightarrow> gate_state" where
  "put i r s = s\<lparr>g_pc := (g_pc s)(i := r)\<rparr>"

definition logged :: "event list \<Rightarrow> gate_state \<Rightarrow> gate_state" where
  "logged es s = s\<lparr>g_log := g_log s @ es\<rparr>"

definition with_sess :: "(sess \<Rightarrow> sess) \<Rightarrow> gate_state \<Rightarrow> gate_state" where
  "with_sess f s = s\<lparr>g_sess := f (g_sess s)\<rparr>"

definition release :: "bool \<Rightarrow> gate_state \<Rightarrow> gate_state" where
  "release h s = (if h then s\<lparr>g_holder := None\<rparr> else s)"

definition bank :: "origin \<Rightarrow> string option list \<Rightarrow> url \<Rightarrow> sess \<Rightarrow> sess" where
  "bank og hs u s = s\<lparr>s_jar := set_cookies og hs u (s_jar s)\<rparr>"

text \<open>The pass after a session that ended: \<open>0..=RENEWALS\<close> with \<open>RENEWALS = 2\<close>.\<close>

definition renewals_max :: nat where
  "renewals_max = 2"

definition pass_of :: "nat \<Rightarrow> pass" where
  "pass_of renewal = (if renewal = 0 then First else if renewal = renewals_max then Authenticate
     else Renewing)"

fun next_pass :: "pass \<Rightarrow> rpc" where
  "next_pass First = Start Renewing"
| "next_pass Renewing = Start Authenticate"
| "next_pass Authenticate = Finished FAuth"

definition refusal :: "carry \<Rightarrow> nat \<Rightarrow> bool" where
  "refusal c status \<longleftrightarrow> c = Credential \<and> status = 401"

inductive gstep :: "(string \<Rightarrow> bool) \<Rightarrow> origin \<Rightarrow> gate_state \<Rightarrow> gate_state \<Rightarrow> bool" for hv og where
  valve_passes: "g_pc s i = Start p \<Longrightarrow> valve_open (s_valve (g_sess s)) \<Longrightarrow>
    gstep hv og s (put i (AtCarry p) s)"
| valve_stops: "g_pc s i = Start p \<Longrightarrow> \<not> valve_open (s_valve (g_sess s)) \<Longrightarrow>
    gstep hv og s (put i (Finished FAuth) s)"
| degraded: "g_pc s i = AtCarry p \<Longrightarrow> \<not> usable (s_jar (g_sess s)) \<Longrightarrow>
    gstep hv og s (logged [Sent i Credential False] (put i (Out p Credential False) s))"
| still_usable: "g_pc s i = AtCarry p \<Longrightarrow> usable (s_jar (g_sess s)) \<Longrightarrow>
    gstep hv og s (put i (AtState p) s)"
| state_refuses: "g_pc s i = AtState p \<Longrightarrow> s_auth (g_sess s) = Rejected \<Longrightarrow>
    gstep hv og s (put i (Finished FAuth) s)"
| state_may_ride: "g_pc s i = AtState First \<Longrightarrow> s_auth (g_sess s) = Established \<Longrightarrow>
    gstep hv og s (put i (AtRide First) s)"
| state_waits: "g_pc s i = AtState p \<Longrightarrow> s_auth (g_sess s) = Unauthenticated \<or>
      s_auth (g_sess s) = Established \<and> p \<noteq> First \<Longrightarrow>
    gstep hv og s (put i (AtGate p) s)"
| rides: "g_pc s i = AtRide p \<Longrightarrow> ride hv (s_jar (g_sess s)) = Some (g, c) \<Longrightarrow>
    gstep hv og s (logged [Sent i (Session g c) False] (put i (Out p (Session g c) False) s))"
| nothing_to_ride: "g_pc s i = AtRide p \<Longrightarrow> ride hv (s_jar (g_sess s)) = None \<Longrightarrow>
    gstep hv og s (put i (AtGate p) s)"
| takes_permit: "g_pc s i = AtGate p \<Longrightarrow> g_holder s = None \<Longrightarrow>
    gstep hv og s (put i (Behind p) (s\<lparr>g_holder := Some i\<rparr>))"
| behind_refuses: "g_pc s i = Behind p \<Longrightarrow> s_auth (g_sess s) = Rejected \<Longrightarrow>
    gstep hv og s (put i (Finished FAuth) (release True s))"
| behind_goes_on: "g_pc s i = Behind p \<Longrightarrow> s_auth (g_sess s) \<noteq> Rejected \<Longrightarrow>
    gstep hv og s (put i (BehindRide p) s)"
| behind_rides: "g_pc s i = BehindRide p \<Longrightarrow> p \<noteq> Authenticate \<Longrightarrow>
      ride hv (s_jar (g_sess s)) = Some (g, c) \<Longrightarrow>
    gstep hv og s (logged [Sent i (Session g c) False]
      (put i (Out p (Session g c) False) (release True s)))"
| presents: "g_pc s i = BehindRide p \<Longrightarrow> p = Authenticate \<or> ride hv (s_jar (g_sess s)) = None \<Longrightarrow>
    gstep hv og s (logged [Sent i Credential True] (put i (Out p Credential True) s))"
| fails: "g_pc s i = Out p c h \<Longrightarrow>
    gstep hv og s (put i (Finished FTransport) (release h s))"
| sent_again: "g_pc s i = Out p c h \<Longrightarrow>
    gstep hv og s (logged [Sent i c h] (put i (OutAgain p c h) (with_sess (bank og hs u) s)))"
| lands: "g_pc s i = Out p c h \<Longrightarrow>
    gstep hv og s (put i (Got p c h status) (with_sess (bank og hs u) s))"
| fails_again: "g_pc s i = OutAgain p c h \<Longrightarrow>
    gstep hv og s (put i (Finished FTransport) (release h s))"
| lands_again: "g_pc s i = OutAgain p c h \<Longrightarrow>
    gstep hv og s (put i (Got p c h status) (with_sess (bank og hs u) s))"
| session_401: "g_pc s i = Got p (Session g c) h 401 \<Longrightarrow>
    gstep hv og s (put i (Probing p g) (release h s))"
| still_alive: "g_pc s i = Probing p g \<Longrightarrow> probe_url tu (s_jar (g_sess s)) \<noteq> None \<Longrightarrow>
    gstep hv og s (put i (Finished FDenied) (with_sess (bank og hs u) s))"
| ended: "g_pc s i = Probing p g \<Longrightarrow>
    gstep hv og s (put i (next_pass p)
      (with_sess (\<lambda>x. x\<lparr>s_jar := expire g (s_jar x)\<rparr>) (with_sess (bank og hs u) s)))"
| learns: "g_pc s i = Got p c h status \<Longrightarrow> c = Credential \<or> status \<noteq> 401 \<Longrightarrow>
    gstep hv og s (put i (Learnt c h status) (with_sess (learn_url (c = Credential) status tu) s))"
| shuts: "g_pc s i = Learnt c h status \<Longrightarrow>
    gstep hv og s (logged (if refusal c status then [RefusedBy i h] else [])
      (put i (Shut c h status) (with_sess (shut_valve (c = Credential) status now) s)))"
| counts_it: "g_pc s i = Shut c h status \<Longrightarrow>
    gstep hv og s (put i (Counted c h status) (with_sess (count_session (c = Credential) status) s))"
| settles: "g_pc s i = Counted c h status \<Longrightarrow>
    gstep hv og s (put i (Settled h status) (with_sess (settle_auth (c = Credential) status) s))"
| gives_back: "g_pc s i = Settled h status \<Longrightarrow>
    gstep hv og s (put i (Finished (FAnswered status)) (release h s))"

inductive reachable :: "(string \<Rightarrow> bool) \<Rightarrow> origin \<Rightarrow> gate_state \<Rightarrow> bool" for hv og where
  start: "reachable hv og gate_init"
| more: "reachable hv og s \<Longrightarrow> gstep hv og s t \<Longrightarrow> reachable hv og t"

lemma pass_of_next:
  "pass_of 0 = First" "pass_of 1 = Renewing" "pass_of 2 = Authenticate"
  by (simp_all add: pass_of_def renewals_max_def)

section \<open>The invariant\<close>

text \<open>
  The permit is held by exactly the request whose counter says so, and only to present. A
  request past the check behind the permit that has not yet recorded its answer may still have
  its credential refused: \<open>may_be_refused\<close>. \<open>settling_refusal\<close> is one that has recorded a
  refusal and not yet settled it.
\<close>

fun may_be_refused :: "rpc \<Rightarrow> bool" where
  "may_be_refused (BehindRide _) = True"
| "may_be_refused (Out _ _ h) = h"
| "may_be_refused (OutAgain _ _ h) = h"
| "may_be_refused (Got _ _ h _) = h"
| "may_be_refused (Learnt _ h _) = h"
| "may_be_refused _ = False"

fun settling_refusal :: "rpc \<Rightarrow> bool" where
  "settling_refusal (Shut c h status) = (h \<and> refusal c status)"
| "settling_refusal (Counted c h status) = (h \<and> refusal c status)"
| "settling_refusal _ = False"

fun gated_refusal :: "event \<Rightarrow> bool" where
  "gated_refusal (RefusedBy i h) = h"
| "gated_refusal (Sent i c h) = False"

definition gated_refusals :: "gate_state \<Rightarrow> nat" where
  "gated_refusals s = length (filter gated_refusal (g_log s))"

definition permit_ok :: "gate_state \<Rightarrow> bool" where
  "permit_ok s \<longleftrightarrow> (\<forall>i. holds (g_pc s i) \<longleftrightarrow> g_holder s = Some i)"

definition refused_once :: "gate_state \<Rightarrow> bool" where
  "refused_once s \<longleftrightarrow> gated_refusals s = 0 \<or>
     gated_refusals s = 1 \<and> (\<forall>i. \<not> may_be_refused (g_pc s i)) \<and>
       (s_auth (g_sess s) = Rejected \<or> (\<exists>i. settling_refusal (g_pc s i)))"

lemma holds_cases: "may_be_refused r \<Longrightarrow> holds r" "settling_refusal r \<Longrightarrow> holds r"
  by (cases r; simp)+

lemma gate_simps [simp]:
  "g_pc (put i r s) = (g_pc s)(i := r)" "g_sess (put i r s) = g_sess s"
  "g_holder (put i r s) = g_holder s" "g_log (put i r s) = g_log s"
  "g_pc (logged es s) = g_pc s" "g_sess (logged es s) = g_sess s"
  "g_holder (logged es s) = g_holder s" "g_log (logged es s) = g_log s @ es"
  "g_pc (with_sess f s) = g_pc s" "g_sess (with_sess f s) = f (g_sess s)"
  "g_holder (with_sess f s) = g_holder s" "g_log (with_sess f s) = g_log s"
  "g_pc (release h s) = g_pc s" "g_sess (release h s) = g_sess s"
  "g_holder (release h s) = (if h then None else g_holder s)" "g_log (release h s) = g_log s"
  by (simp_all add: put_def logged_def with_sess_def release_def)

lemma sess_simps [simp]:
  "s_auth (bank og hs u x) = s_auth x" "s_auth (learn_url p st tu x) = s_auth x"
  "s_auth (shut_valve p st now x) = s_auth x" "s_auth (count_session p st x) = s_auth x"
  "s_auth (settle_auth p st x) = settle p st (s_auth x)"
  by (simp_all add: bank_def learn_url_def shut_valve_def count_session_def settle_auth_def)

lemma holds_next_pass [simp]: "\<not> holds (next_pass p)"
  by (cases p) simp_all

lemma permit_ok_holder: "permit_ok s \<Longrightarrow> holds (g_pc s i) \<Longrightarrow> g_holder s = Some i"
  by (simp add: permit_ok_def)

text \<open>A step moves one request, and the permit only into or out of that request's hands.\<close>

definition moves :: "nat \<Rightarrow> gate_state \<Rightarrow> gate_state \<Rightarrow> bool" where
  "moves i s t \<longleftrightarrow> (\<forall>j. j \<noteq> i \<longrightarrow> g_pc t j = g_pc s j) \<and>
     (g_holder t = g_holder s \<and> holds (g_pc t i) = holds (g_pc s i) \<or>
      g_holder t = None \<and> holds (g_pc s i) \<and> \<not> holds (g_pc t i) \<or>
      g_holder s = None \<and> g_holder t = Some i \<and> holds (g_pc t i))"

lemma gstep_moves: "gstep hv og s t \<Longrightarrow> \<exists>i. moves i s t"
  by (induction rule: gstep.induct; (rule_tac x = i in exI, simp add: moves_def))

lemma permit_ok_moves:
  assumes "moves i s t" and "permit_ok s"
  shows "permit_ok t"
  unfolding permit_ok_def
proof
  fix j
  have "holds (g_pc s j) \<longleftrightarrow> g_holder s = Some j" and "holds (g_pc s i) \<longleftrightarrow> g_holder s = Some i"
    using assms(2) by (simp_all add: permit_ok_def)
  then show "holds (g_pc t j) \<longleftrightarrow> g_holder t = Some j"
    using assms(1) by (cases "j = i") (auto simp: moves_def)
qed

lemma permit_ok_reachable: "reachable hv og s \<Longrightarrow> permit_ok s"
proof (induction rule: reachable.induct)
  case start
  then show ?case by (simp add: permit_ok_def gate_init_def)
next
  case (more s t)
  then show ?case using gstep_moves permit_ok_moves by blast
qed

text \<open>What a step does to the refusals: only \<open>shuts\<close> records one, and only the permit's holder
  can come to be refused under it.\<close>

definition refusal_step :: "nat \<Rightarrow> gate_state \<Rightarrow> gate_state \<Rightarrow> bool" where
  "refusal_step i s t \<longleftrightarrow>
     (gated_refusals t = gated_refusals s \<or>
      gated_refusals t = Suc (gated_refusals s) \<and> may_be_refused (g_pc s i) \<and>
        \<not> may_be_refused (g_pc t i) \<and> settling_refusal (g_pc t i)) \<and>
     (may_be_refused (g_pc t i) \<longrightarrow> may_be_refused (g_pc s i) \<or>
        holds (g_pc s i) \<and> s_auth (g_sess s) \<noteq> Rejected \<and> \<not> settling_refusal (g_pc s i)) \<and>
     (settling_refusal (g_pc s i) \<longrightarrow> settling_refusal (g_pc t i) \<or> s_auth (g_sess t) = Rejected) \<and>
     (s_auth (g_sess s) = Rejected \<longrightarrow> s_auth (g_sess t) = Rejected)"

lemma next_pass_plain [simp]: "\<not> may_be_refused (next_pass p)" "\<not> settling_refusal (next_pass p)"
  by (cases p; simp)+

lemma gstep_refusals: "gstep hv og s t \<Longrightarrow> \<exists>i. moves i s t \<and> refusal_step i s t"
  by (induction rule: gstep.induct; (rule_tac x = i in exI,
      simp add: moves_def refusal_step_def gated_refusals_def refusal_def settle_Rejected_iff))

lemma one_holder:
  "permit_ok s \<Longrightarrow> holds (g_pc s i) \<Longrightarrow> holds (g_pc s j) \<Longrightarrow> i = j"
  by (simp add: permit_ok_def)

lemma refused_once_step:
  assumes m: "moves i s t" and r: "refusal_step i s t" and ok: "permit_ok s" and inv: "refused_once s"
  shows "refused_once t"
proof (cases "gated_refusals s = 0")
  case True
  show ?thesis
  proof (cases "gated_refusals t = 0")
    case True
    then show ?thesis by (simp add: refused_once_def)
  next
    case False
    with r True have g: "gated_refusals t = 1" and was: "may_be_refused (g_pc s i)"
      and now: "\<not> may_be_refused (g_pc t i)" and st: "settling_refusal (g_pc t i)"
      by (auto simp: refusal_step_def)
    have "\<not> may_be_refused (g_pc t j)" if "j \<noteq> i" for j
      using one_holder [OF ok, of i j] holds_cases(1) [OF was] holds_cases(1) [of "g_pc s j"] that m
      by (auto simp: moves_def)
    then have "\<forall>j. \<not> may_be_refused (g_pc t j)" using now by metis
    then show ?thesis using g st by (auto simp: refused_once_def)
  qed
next
  case False
  with inv have g: "gated_refusals s = 1" and none: "\<And>j. \<not> may_be_refused (g_pc s j)"
    and why: "s_auth (g_sess s) = Rejected \<or> (\<exists>j. settling_refusal (g_pc s j))"
    by (auto simp: refused_once_def)
  have gt: "gated_refusals t = 1" using r g none by (auto simp: refusal_step_def)
  have i: "\<not> may_be_refused (g_pc t i)"
  proof
    assume "may_be_refused (g_pc t i)"
    with r none have h: "holds (g_pc s i)" and a: "s_auth (g_sess s) \<noteq> Rejected"
      and n: "\<not> settling_refusal (g_pc s i)" by (auto simp: refusal_step_def)
    from why a obtain j where j: "settling_refusal (g_pc s j)" by blast
    have "i = j" using one_holder [OF ok h] holds_cases(2) [OF j] .
    with j n show False by simp
  qed
  have none_t: "\<not> may_be_refused (g_pc t j)" for j
    using i none [of j] m by (cases "j = i") (simp_all add: moves_def)
  have "s_auth (g_sess t) = Rejected \<or> (\<exists>j. settling_refusal (g_pc t j))"
    using why
  proof
    assume "s_auth (g_sess s) = Rejected"
    then show ?thesis using r by (simp add: refusal_step_def)
  next
    assume "\<exists>j. settling_refusal (g_pc s j)"
    then obtain j where j: "settling_refusal (g_pc s j)" ..
    show ?thesis
    proof (cases "j = i")
      case True
      then show ?thesis using r j by (auto simp: refusal_step_def)
    next
      case False
      then show ?thesis using m j by (auto simp: moves_def intro!: exI [of _ j])
    qed
  qed
  then show ?thesis using gt none_t by (simp add: refused_once_def)
qed

lemma refused_once_reachable: "reachable hv og s \<Longrightarrow> refused_once s"
proof (induction rule: reachable.induct)
  case start
  then show ?case by (simp add: refused_once_def gated_refusals_def gate_init_def)
next
  case (more s t)
  then show ?case using gstep_refusals permit_ok_reachable refused_once_step by blast
qed

section \<open>Steps that must not happen\<close>

text \<open>
  The last pass carries the credential, and a 401 on a request that carried it is never taken
  for a session that ended.
\<close>

fun last_pass_ok :: "rpc \<Rightarrow> bool" where
  "last_pass_ok (Out p c h) = (p = Authenticate \<longrightarrow> c = Credential)"
| "last_pass_ok (OutAgain p c h) = (p = Authenticate \<longrightarrow> c = Credential)"
| "last_pass_ok (Got p c h st) = (p = Authenticate \<longrightarrow> c = Credential)"
| "last_pass_ok (Probing p g) = (p \<noteq> Authenticate)"
| "last_pass_ok (AtRide p) = (p = First)"
| "last_pass_ok _ = True"

lemma last_pass_next [simp]: "last_pass_ok (next_pass p)"
  by (cases p) simp_all

lemma last_pass_step:
  "gstep hv og s t \<Longrightarrow> \<exists>i. (last_pass_ok (g_pc s i) \<longrightarrow> last_pass_ok (g_pc t i)) \<and>
    (\<forall>j. j \<noteq> i \<longrightarrow> g_pc t j = g_pc s j)"
  by (induction rule: gstep.induct; (rule_tac x = i in exI, simp))

lemma last_pass_reachable: "reachable hv og s \<Longrightarrow> last_pass_ok (g_pc s i)"
proof -
  have "reachable hv og s \<Longrightarrow> \<forall>i. last_pass_ok (g_pc s i)"
  proof (induction rule: reachable.induct)
    case start
    then show ?case by (simp add: gate_init_def)
  next
    case (more s t)
    then show ?case using last_pass_step by metis
  qed
  then show "reachable hv og s \<Longrightarrow> last_pass_ok (g_pc s i)" by blast
qed

section \<open>The degraded mode\<close>

text \<open>
  A Prism Central that sets no cookie is given up on after two presentations, and from then on
  no request waits for another. The three lemmas build such a run: a presentation that opens no
  session, requests sent side by side, and their refusals.
\<close>

fun refusal_event :: "event \<Rightarrow> bool" where
  "refusal_event (RefusedBy i h) = True"
| "refusal_event (Sent i c h) = False"

definition refusals_in :: "gate_state \<Rightarrow> event list" where
  "refusals_in s = filter refusal_event (g_log s)"

lemma bank_nothing [simp]: "bank og [] u x = x"
  by (simp add: bank_def set_cookies_def)

lemma ride_nothing: "j_cookies j = [] \<Longrightarrow> ride hv j = None"
  by (simp add: ride_def)

lemma at_gate:
  assumes r: "reachable hv og s" and pc: "g_pc s i = Start First"
    and v: "valve_open (s_valve (g_sess s))" and u: "usable (s_jar (g_sess s))"
    and c: "j_cookies (s_jar (g_sess s)) = []" and a: "s_auth (g_sess s) \<noteq> Rejected"
  shows "\<exists>t. reachable hv og t \<and> g_sess t = g_sess s \<and> g_holder t = g_holder s \<and>
    g_log t = g_log s \<and> g_pc t = (g_pc s)(i := AtGate First)"
proof -
  have s1: "reachable hv og (put i (AtCarry First) s)"
    using r valve_passes [OF pc v] by (rule reachable.more)
  let ?s2 = "put i (AtState First) (put i (AtCarry First) s)"
  have "gstep hv og (put i (AtCarry First) s) ?s2"
    by (rule still_usable) (simp_all add: u)
  with s1 have s2: "reachable hv og ?s2" by (rule reachable.more)
  show ?thesis
  proof (cases "s_auth (g_sess s) = Unauthenticated")
    case True
    have "gstep hv og ?s2 (put i (AtGate First) ?s2)"
      by (rule state_waits [where p = First]) (simp_all add: True)
    with s2 have "reachable hv og (put i (AtGate First) ?s2)" by (rule reachable.more)
    then show ?thesis by (intro exI [of _ "put i (AtGate First) ?s2"]) simp
  next
    case False
    with a have e: "s_auth (g_sess s) = Established" by (cases "s_auth (g_sess s)") simp_all
    have "gstep hv og ?s2 (put i (AtRide First) ?s2)"
      by (rule state_may_ride) (simp_all add: e)
    with s2 have s3: "reachable hv og (put i (AtRide First) ?s2)" by (rule reachable.more)
    let ?s4 = "put i (AtGate First) (put i (AtRide First) ?s2)"
    have "gstep hv og (put i (AtRide First) ?s2) ?s4"
      by (rule nothing_to_ride) (simp_all add: ride_nothing c)
    with s3 have "reachable hv og ?s4" by (rule reachable.more)
    then show ?thesis by (intro exI [of _ ?s4]) simp
  qed
qed

lemma opens_no_session:
  assumes r: "reachable hv og s" and pc: "g_pc s i = Start First"
    and v: "valve_open (s_valve (g_sess s))" and u: "usable (s_jar (g_sess s))"
    and c: "j_cookies (s_jar (g_sess s)) = []" and a: "s_auth (g_sess s) \<noteq> Rejected"
    and h: "g_holder s = None"
  shows "\<exists>t. reachable hv og t \<and>
    g_sess t = \<lparr>s_jar = presented_ok (remember_ok tu (s_jar (g_sess s))), s_auth = Established,
      s_valve = s_valve (g_sess s)\<rparr> \<and>
    g_holder t = None \<and> refusals_in t = refusals_in s \<and>
    g_pc t = (g_pc s)(i := Finished (FAnswered 200))"
proof -
  obtain t0 where t0: "reachable hv og t0" "g_sess t0 = g_sess s" "g_holder t0 = g_holder s"
    "g_log t0 = g_log s" "g_pc t0 = (g_pc s)(i := AtGate First)"
    using at_gate [OF r pc v u c a] by blast
  let ?t1 = "put i (Behind First) (t0\<lparr>g_holder := Some i\<rparr>)"
  have t1: "reachable hv og ?t1"
    by (rule more [OF t0(1)], rule takes_permit) (simp_all add: t0 h)
  let ?t2 = "put i (BehindRide First) ?t1"
  have t2: "reachable hv og ?t2"
    by (rule more [OF t1], rule behind_goes_on) (simp_all add: t0 a)
  let ?t3 = "logged [Sent i Credential True] (put i (Out First Credential True) ?t2)"
  have t3: "reachable hv og ?t3"
    by (rule more [OF t2], rule presents) (simp_all add: t0 ride_nothing c)
  let ?t4 = "put i (Got First Credential True 200) (with_sess (bank og [] lab_url) ?t3)"
  have t4: "reachable hv og ?t4" by (rule more [OF t3], rule lands) simp
  let ?t5 = "put i (Learnt Credential True 200) (with_sess (learn_url (Credential = Credential) 200 tu) ?t4)"
  have t5: "reachable hv og ?t5" by (rule more [OF t4], rule learns) simp_all
  let ?t6 = "logged (if refusal Credential 200 then [RefusedBy i True] else [])
    (put i (Shut Credential True 200) (with_sess (shut_valve (Credential = Credential) 200 0) ?t5))"
  have t6: "reachable hv og ?t6" by (rule more [OF t5], rule shuts) simp
  let ?t7 = "put i (Counted Credential True 200) (with_sess (count_session (Credential = Credential) 200) ?t6)"
  have t7: "reachable hv og ?t7" by (rule more [OF t6], rule counts_it) simp
  let ?t8 = "put i (Settled True 200) (with_sess (settle_auth (Credential = Credential) 200) ?t7)"
  have t8: "reachable hv og ?t8" by (rule more [OF t7], rule settles) simp
  let ?t9 = "put i (Finished (FAnswered 200)) (release True ?t8)"
  have "reachable hv og ?t9" by (rule more [OF t8], rule gives_back) simp
  then show ?thesis
    using a by (intro exI [of _ ?t9])
      (simp add: t0 learn_url_def shut_valve_def count_session_def settle_auth_def settle_def
        refusals_in_def refusal_def)
qed

text \<open>Requests sent without the gate, one after another, none of them answered yet.\<close>

lemma sends_degraded:
  assumes "reachable hv og s" and "\<not> usable (s_jar (g_sess s))" and "valve_open (s_valve (g_sess s))"
    and "distinct is" and "\<forall>i \<in> set is. g_pc s i = Start First"
  shows "\<exists>t. reachable hv og t \<and> refusals_in t = refusals_in s \<and>
    (\<forall>i. g_pc t i = (if i \<in> set is then Out First Credential False else g_pc s i))"
  using assms
proof (induction "is" arbitrary: s)
  case Nil
  then show ?case by auto
next
  case (Cons i "is")
  have pc: "g_pc s i = Start First" using Cons.prems by simp
  let ?s1 = "put i (AtCarry First) s"
  have s1: "reachable hv og ?s1"
    by (rule more [OF Cons.prems(1)], rule valve_passes) (simp_all add: pc Cons.prems)
  let ?s2 = "logged [Sent i Credential False] (put i (Out First Credential False) ?s1)"
  have s2: "reachable hv og ?s2"
    by (rule more [OF s1], rule degraded) (simp_all add: Cons.prems)
  have "\<exists>t. reachable hv og t \<and> refusals_in t = refusals_in ?s2 \<and>
    (\<forall>j. g_pc t j = (if j \<in> set is then Out First Credential False else g_pc ?s2 j))"
    using Cons.prems by (intro Cons.IH [OF s2]) auto
  then obtain t where t: "reachable hv og t" "refusals_in t = refusals_in ?s2"
    "\<And>j. g_pc t j = (if j \<in> set is then Out First Credential False else g_pc ?s2 j)" by blast
  have "refusals_in ?s2 = refusals_in s" by (simp add: refusals_in_def)
  moreover have "g_pc t j = (if j \<in> set (i # is) then Out First Credential False else g_pc s j)" for j
    using t(3) [of j] by simp
  ultimately show ?case using t(1,2) by metis
qed

lemma refuses_degraded:
  assumes "reachable hv og s" and "distinct is"
    and "\<forall>i \<in> set is. g_pc s i = Out First Credential False"
  shows "\<exists>t. reachable hv og t \<and> refusals_in t = refusals_in s @ map (\<lambda>i. RefusedBy i False) is"
  using assms
proof (induction "is" arbitrary: s)
  case Nil
  then show ?case by auto
next
  case (Cons i "is")
  have pc: "g_pc s i = Out First Credential False" using Cons.prems by simp
  let ?s1 = "put i (Got First Credential False 401) (with_sess (bank og [] lab_url) s)"
  have s1: "reachable hv og ?s1" by (rule more [OF Cons.prems(1)], rule lands) (rule pc)
  let ?s2 = "put i (Learnt Credential False 401) (with_sess (learn_url (Credential = Credential) 401 []) ?s1)"
  have s2: "reachable hv og ?s2" by (rule more [OF s1], rule learns) simp_all
  let ?s3 = "logged (if refusal Credential 401 then [RefusedBy i False] else [])
    (put i (Shut Credential False 401) (with_sess (shut_valve (Credential = Credential) 401 0) ?s2))"
  have s3: "reachable hv og ?s3" by (rule more [OF s2], rule shuts) simp
  have log: "refusals_in ?s3 = refusals_in s @ [RefusedBy i False]"
    by (simp add: refusals_in_def refusal_def)
  have "\<exists>t. reachable hv og t \<and> refusals_in t = refusals_in ?s3 @ map (\<lambda>i. RefusedBy i False) is"
    using Cons.prems by (intro Cons.IH [OF s3]) auto
  then obtain t where "reachable hv og t"
    and "refusals_in t = refusals_in ?s3 @ map (\<lambda>i. RefusedBy i False) is" by blast
  then show ?case unfolding log by (intro exI [of _ t]) simp
qed

lemma gives_up_reuse:
  "\<exists>s. reachable hv og s \<and> \<not> usable (s_jar (g_sess s)) \<and> valve_open (s_valve (g_sess s)) \<and>
     refusals_in s = [] \<and> (\<forall>i. 2 \<le> i \<longrightarrow> g_pc s i = Start First)"
proof -
  let ?j1 = "presented_ok (remember_ok [] empty_jar)"
  have "\<exists>t. reachable hv og t \<and>
    g_sess t = \<lparr>s_jar = presented_ok (remember_ok [] (s_jar (g_sess gate_init))), s_auth = Established,
      s_valve = s_valve (g_sess gate_init)\<rparr> \<and>
    g_holder t = None \<and> refusals_in t = refusals_in gate_init \<and>
    g_pc t = (g_pc gate_init)(0 := Finished (FAnswered 200))"
    by (rule opens_no_session [OF reachable.start])
      (simp_all add: gate_init_def new_sess_def empty_jar_def valve_open_def valve_default_def
        usable_def give_up_renewals_def)
  then obtain a where a: "reachable hv og a" "g_sess a = \<lparr>s_jar = ?j1, s_auth = Established,
      s_valve = valve_default\<rparr>" "g_holder a = None" "refusals_in a = []"
      "g_pc a = (\<lambda>_. Start First)(0 := Finished (FAnswered 200))"
    by (auto simp: gate_init_def new_sess_def refusals_in_def)
  have j1: "j_renewals ?j1 = 1" "j_cookies ?j1 = []" "\<not> j_ever_answered ?j1"
    by (simp_all add: presented_ok_def frame_simps) (simp_all add: empty_jar_def sat_add_u32_def u32_max_def)
  have "\<exists>t. reachable hv og t \<and>
    g_sess t = \<lparr>s_jar = presented_ok (remember_ok [] (s_jar (g_sess a))), s_auth = Established,
      s_valve = s_valve (g_sess a)\<rparr> \<and>
    g_holder t = None \<and> refusals_in t = refusals_in a \<and>
    g_pc t = (g_pc a)(1 := Finished (FAnswered 200))"
    by (rule opens_no_session [OF a(1)])
      (simp_all add: a j1 valve_open_def valve_default_def usable_def give_up_renewals_def)
  then obtain t where t: "reachable hv og t" "g_sess t = \<lparr>s_jar = presented_ok (remember_ok [] ?j1),
      s_auth = Established, s_valve = valve_default\<rparr>" "refusals_in t = []"
      "g_pc t = (\<lambda>_. Start First)(0 := Finished (FAnswered 200), 1 := Finished (FAnswered 200))"
    by (auto simp: a)
  have "\<not> usable (s_jar (g_sess t))"
    using j1 by (simp add: t usable_def presented_ok_def frame_simps sat_add_u32_def u32_max_def
        give_up_renewals_def)
  then show ?thesis
    using t by (intro exI [of _ t]) (auto simp: valve_open_def valve_default_def)
qed

section \<open>Progress\<close>

fun pass_rank :: "pass \<Rightarrow> nat" where
  "pass_rank First = 32"
| "pass_rank Renewing = 16"
| "pass_rank Authenticate = 0"

text \<open>How many steps a request can still make.\<close>

fun rank :: "rpc \<Rightarrow> nat" where
  "rank (Start p) = pass_rank p + 15"
| "rank (AtCarry p) = pass_rank p + 14"
| "rank (AtState p) = pass_rank p + 13"
| "rank (AtRide p) = pass_rank p + 12"
| "rank (AtGate p) = pass_rank p + 11"
| "rank (Behind p) = pass_rank p + 10"
| "rank (BehindRide p) = pass_rank p + 9"
| "rank (Out p c h) = pass_rank p + 8"
| "rank (OutAgain p c h) = pass_rank p + 7"
| "rank (Got p c h st) = pass_rank p + 6"
| "rank (Probing p g) = pass_rank p + 5"
| "rank (Learnt c h st) = 4"
| "rank (Shut c h st) = 3"
| "rank (Counted c h st) = 2"
| "rank (Settled h st) = 1"
| "rank (Finished oc) = 0"

lemma rank_next: "rank (next_pass p) < pass_rank p + 5"
  by (cases p) simp_all

lemma gstep_rank:
  "gstep hv og s t \<Longrightarrow> \<exists>i. rank (g_pc t i) < rank (g_pc s i) \<and> (\<forall>j. j \<noteq> i \<longrightarrow> g_pc t j = g_pc s j)"
  by (induction rule: gstep.induct; (rule_tac x = i in exI, simp add: rank_next))

lemma can_move:
  assumes "rank (g_pc s i) \<noteq> 0" and "\<forall>p. g_pc s i \<noteq> AtGate p"
  shows "\<exists>t. gstep hv og s t"
proof (cases "g_pc s i")
  case (Start p)
  then show ?thesis using valve_passes valve_stops by blast
next
  case (AtCarry p)
  then show ?thesis using degraded still_usable by blast
next
  case (AtState p)
  then show ?thesis
    using state_refuses [of s i p hv og] state_may_ride [of s i hv og] state_waits [of s i p hv og]
    by (cases "s_auth (g_sess s)"; cases "p = First") auto
next
  case (AtRide p)
  then show ?thesis
    using rides [of s i p hv] nothing_to_ride [of s i p hv]
    by (cases "ride hv (s_jar (g_sess s))") auto
next
  case (Behind p)
  then show ?thesis using behind_refuses behind_goes_on by blast
next
  case (BehindRide p)
  then show ?thesis
    using behind_rides [of s i p hv] presents [of s i p hv]
    by (cases "ride hv (s_jar (g_sess s))"; cases "p = Authenticate") auto
next
  case (Out p c h)
  then show ?thesis using fails by blast
next
  case (OutAgain p c h)
  then show ?thesis using fails_again by blast
next
  case (Got p c h st)
  then show ?thesis
    using session_401 [of s i p _ _ h] learns [of s i p c h st] by (cases c; cases "st = 401") auto
next
  case (Probing p g)
  then show ?thesis using ended by blast
next
  case (Learnt c h st)
  then show ?thesis using shuts by blast
next
  case (Shut c h st)
  then show ?thesis using counts_it by blast
next
  case (Counted c h st)
  then show ?thesis using settles by blast
next
  case (Settled h st)
  then show ?thesis using gives_back by blast
qed (use assms in simp_all)

lemma holder_can_move:
  assumes "permit_ok s" and "g_holder s = Some j"
  shows "\<exists>t. gstep hv og s t"
proof -
  have "holds (g_pc s j)" using assms by (simp add: permit_ok_def)
  then have "rank (g_pc s j) \<noteq> 0" and "\<forall>p. g_pc s j \<noteq> AtGate p"
    by (cases "g_pc s j"; auto)+
  then show ?thesis by (rule can_move)
qed

text \<open>Runs of a given length.\<close>

inductive run_of :: "(string \<Rightarrow> bool) \<Rightarrow> origin \<Rightarrow> nat \<Rightarrow> gate_state \<Rightarrow> gate_state \<Rightarrow> bool"
  for hv og where
  stay: "run_of hv og 0 s s"
| move: "gstep hv og s t \<Longrightarrow> run_of hv og k t u \<Longrightarrow> run_of hv og (Suc k) s u"

lemma sum_rank_step:
  assumes "gstep hv og s t" and "finite S" and "\<forall>i. i \<notin> S \<longrightarrow> g_pc t i = g_pc s i"
  shows "(\<Sum>i \<in> S. rank (g_pc t i)) < (\<Sum>i \<in> S. rank (g_pc s i))"
proof -
  obtain i where i: "rank (g_pc t i) < rank (g_pc s i)" and j: "\<And>j. j \<noteq> i \<Longrightarrow> g_pc t j = g_pc s j"
    using gstep_rank [OF assms(1)] by blast
  have "i \<in> S" using assms(3) i by (metis less_irrefl)
  moreover have "\<forall>j \<in> S. rank (g_pc t j) \<le> rank (g_pc s j)"
    using i j by (metis less_imp_le order_refl)
  ultimately show ?thesis using assms(2) i by (intro sum_strict_mono_ex1) auto
qed

lemma run_of_frame:
  "run_of hv og k s u \<Longrightarrow> rank (g_pc s i) = 0 \<Longrightarrow> g_pc u i = g_pc s i"
proof (induction rule: run_of.induct)
  case (stay s)
  then show ?case by simp
next
  case (move s t k u)
  obtain j where "rank (g_pc t j) < rank (g_pc s j)" and "\<And>j'. j' \<noteq> j \<Longrightarrow> g_pc t j' = g_pc s j'"
    using gstep_rank [OF move(1)] by blast
  then have "g_pc t i = g_pc s i" using move(4) by (metis not_less0)
  then show ?case using move by simp
qed

lemma run_of_bound:
  "run_of hv og k s u \<Longrightarrow> finite {i. rank (g_pc s i) \<noteq> 0} \<Longrightarrow>
    k \<le> (\<Sum>i \<in> {i. rank (g_pc s i) \<noteq> 0}. rank (g_pc s i))"
proof (induction rule: run_of.induct)
  case (stay s)
  then show ?case by simp
next
  case (move s t k u)
  let ?S = "{i. rank (g_pc s i) \<noteq> 0}" and ?T = "{i. rank (g_pc t i) \<noteq> 0}"
  obtain j where j: "rank (g_pc t j) < rank (g_pc s j)" and same: "\<And>j'. j' \<noteq> j \<Longrightarrow> g_pc t j' = g_pc s j'"
    using gstep_rank [OF move(1)] by blast
  have out: "g_pc t i = g_pc s i" if "i \<notin> ?S" for i
    using j same [of i] that by (cases "i = j") auto
  have sub: "?T \<subseteq> ?S" using out by force
  have fin: "finite ?T" using sub move.prems by (rule finite_subset)
  have "k \<le> (\<Sum>i \<in> ?T. rank (g_pc t i))" using move.IH fin by blast
  also have "\<dots> \<le> (\<Sum>i \<in> ?S. rank (g_pc t i))"
    using sub move.prems by (intro sum_mono2) auto
  also have "\<dots> < (\<Sum>i \<in> ?S. rank (g_pc s i))"
    using sum_rank_step [OF move(1) move.prems] out by blast
  finally show ?case by simp
qed

section \<open>Properties\<close>

text \<open>
  C11: however many requests run at once and however they interleave, at most one of them holds
  the permit, and over the life of a client at most one presentation made under it is ever
  answered 401: the first refusal is the last.
\<close>

theorem one_gated_refusal:
  assumes "reachable hv og s"
  shows "length (filter gated_refusal (g_log s)) \<le> 1 \<and>
    (\<forall>i j. holds (g_pc s i) \<and> holds (g_pc s j) \<longrightarrow> i = j)"
proof -
  have "length (filter gated_refusal (g_log s)) \<le> 1"
    using refused_once_reachable [OF assms] by (auto simp: refused_once_def gated_refusals_def)
  then show ?thesis using one_holder [OF permit_ok_reachable [OF assms]] by blast
qed

theorem one_gated_refusal_witness:
  "length (filter gated_refusal (g_log (put 0 (AtCarry First) gate_init))) \<le> 1"
proof -
  have "gstep (\<lambda>_. True) lab_origin gate_init (put 0 (AtCarry First) gate_init)"
    by (rule valve_passes) (simp_all add: gate_init_def new_sess_def valve_open_def valve_default_def)
  with reachable.start have "reachable (\<lambda>_. True) lab_origin (put 0 (AtCarry First) gate_init)"
    by (rule reachable.more)
  then show ?thesis using one_gated_refusal by blast
qed

text \<open>
  C12: the last pass of a request always carries the credential, so it is never sent round for a
  session that ended: the error after the loop of \<open>send\<close> is unreachable.
\<close>

theorem last_pass_is_definitive:
  assumes "reachable hv og s"
  shows "g_pc s i \<noteq> Probing Authenticate g \<and> g_pc s i \<noteq> Got Authenticate (Session g c) h status"
  using last_pass_reachable [OF assms, of i] by (cases "g_pc s i") auto

theorem last_pass_is_definitive_witness: "g_pc gate_init 0 \<noteq> Probing Authenticate 0"
  using last_pass_is_definitive [OF reachable.start, where i = 0 and g = 0] by blast

text \<open>
  C13: in the degraded mode the cap does not hold: once reuse is given up, any number of
  presentations can be on the wire at once, and every one of them can be answered 401 although
  the valve latches on the first.
\<close>

theorem degraded_refusals_unbounded:
  "\<exists>s. reachable hv og s \<and> length (filter refusal_event (g_log s)) = n"
proof -
  obtain s where s: "reachable hv og s" "\<not> usable (s_jar (g_sess s))"
    "valve_open (s_valve (g_sess s))" "refusals_in s = []" "\<And>i. 2 \<le> i \<Longrightarrow> g_pc s i = Start First"
    using gives_up_reuse by blast
  let ?is = "map (\<lambda>k. k + 2) [0..<n]"
  have d: "distinct ?is" and st: "\<forall>i \<in> set ?is. g_pc s i = Start First"
    using s(5) by (auto simp: distinct_map inj_on_def)
  obtain t where t: "reachable hv og t" "refusals_in t = []"
    "\<And>i. g_pc t i = (if i \<in> set ?is then Out First Credential False else g_pc s i)"
    using sends_degraded [OF s(1-3) d st] s(4) by auto
  have "\<forall>i \<in> set ?is. g_pc t i = Out First Credential False" using t(3) by simp
  then obtain u where "reachable hv og u" "refusals_in u = map (\<lambda>i. RefusedBy i False) ?is"
    using refuses_degraded [OF t(1) d] t(2) by auto
  then show ?thesis by (intro exI [of _ u]) (auto simp: refusals_in_def)
qed

text \<open>
  C14: no deadlock: while any request is unfinished, some request can move, so a request waiting
  for the permit waits for one that can always give it back.
\<close>

theorem gate_never_deadlocks:
  assumes "reachable hv og s" and "\<forall>oc. g_pc s i \<noteq> Finished oc"
  shows "\<exists>t. gstep hv og s t"
proof (cases "g_pc s i")
  case (AtGate p)
  show ?thesis
  proof (cases "g_holder s")
    case None
    then show ?thesis using takes_permit [OF AtGate] by blast
  next
    case (Some j)
    then show ?thesis by (rule holder_can_move [OF permit_ok_reachable [OF assms(1)]])
  qed
qed (rule can_move [of s i], use assms(2) in simp_all)+

theorem gate_never_deadlocks_witness: "\<exists>t. gstep (\<lambda>_. True) lab_origin gate_init t"
  by (rule gate_never_deadlocks [OF reachable.start, of 0]) (simp add: gate_init_def)

text \<open>
  C15: no livelock: each of \<open>n\<close> requests makes at most 47 steps whatever the others do, however
  often its session ends.
\<close>

theorem requests_come_to_an_end:
  assumes "run_of hv og k s u" and "\<forall>i. n \<le> i \<longrightarrow> rank (g_pc s i) = 0"
  shows "k \<le> 47 * n"
proof -
  let ?S = "{i. rank (g_pc s i) \<noteq> 0}"
  have sub: "?S \<subseteq> {..<n}" using assms(2) by (force simp: not_less [symmetric])
  then have fin: "finite ?S" and card: "card ?S \<le> n"
    using finite_subset [OF sub] card_mono [OF _ sub] by auto
  have rank: "rank r \<le> 47" for r
  proof -
    have "pass_rank p \<le> 32" for p by (cases p) simp_all
    then have "pass_rank p + n \<le> 32 + 15" if "n \<le> 15" for p n
      using that by (intro add_mono) simp_all
    then show ?thesis by (cases r) simp_all
  qed
  have "(\<Sum>i \<in> ?S. rank (g_pc s i)) \<le> (\<Sum>i \<in> ?S. 47)" using rank by (rule sum_mono)
  also have "\<dots> = card ?S * 47" by simp
  finally have "(\<Sum>i \<in> ?S. rank (g_pc s i)) \<le> card ?S * 47" .
  then show ?thesis using run_of_bound [OF assms(1) fin] card by linarith
qed

definition one_request :: gate_state where
  "one_request = gate_init\<lparr>g_pc := (\<lambda>_. Finished FAuth)(0 := Start First)\<rparr>"

theorem requests_come_to_an_end_witness:
  "\<exists>u. run_of (\<lambda>_. True) lab_origin 1 one_request u \<and> 1 \<le> 47 * (1 :: nat)"
proof -
  let ?u = "put 0 (AtCarry First) one_request"
  have "gstep (\<lambda>_. True) lab_origin one_request ?u"
    by (rule valve_passes) (simp_all add: one_request_def gate_init_def new_sess_def valve_open_def valve_default_def)
  then have r: "run_of (\<lambda>_. True) lab_origin (Suc 0) one_request ?u"
    by (rule run_of.move) (rule run_of.stay)
  have "\<forall>i. (1 :: nat) \<le> i \<longrightarrow> rank (g_pc one_request i) = 0" by (simp add: one_request_def)
  then have "Suc 0 \<le> 47 * 1" by (rule requests_come_to_an_end [OF r])
  then show ?thesis using r by auto
qed

end
