(* ===== verification/Client.thy ===== *)
theory Client
  imports Pacing Session Answers
begin

text \<open>
  The client (\<open>crates/prism/src/client.rs\<close>): its state, the paths a pin rewrites, and what the
  outside of the program is to it. One client is a record; an operation takes it and returns it
  updated beside its result, an error or a value.

  The network is an \<open>env\<close>: what the server answers to a request (a function of a world of its
  own), how a URL parses, how a sleep overshoots, which header values are legal and how bodies
  parse. \<open>c_sent\<close> is a ghost: every request that was put on the wire, in order.
\<close>

section \<open>Namespaces\<close>

record ns_status =
  ns_name :: string
  ns_version :: string
  ns_pinned :: "string option"
  ns_ok :: bool
  ns_detail :: string
  ns_restored :: bool

definition ns_served :: "ns_info \<Rightarrow> string \<Rightarrow> string \<Rightarrow> ns_status" where
  "ns_served ns version detail = \<lparr>ns_name = n_name ns, ns_version = n_version ns,
     ns_pinned = Some version, ns_ok = True, ns_detail = detail, ns_restored = False\<rparr>"

definition ns_down :: "ns_info \<Rightarrow> string \<Rightarrow> string \<Rightarrow> ns_status" where
  "ns_down ns version detail = \<lparr>ns_name = n_name ns, ns_version = n_version ns,
     ns_pinned = Some version, ns_ok = False, ns_detail = detail, ns_restored = False\<rparr>"

definition ns_not_served :: "ns_info \<Rightarrow> string \<Rightarrow> ns_status" where
  "ns_not_served ns detail = \<lparr>ns_name = n_name ns, ns_version = n_version ns,
     ns_pinned = None, ns_ok = False, ns_detail = detail, ns_restored = False\<rparr>"

datatype availability =
    Served
  | NamespaceUnavailable string
  | NotServedAtPin string string string
  | ListNotFound

definition not_served_text :: string where
  "not_served_text = ''not served by this Prism Central (HTTP 404)''"

fun availability_reason :: "availability \<Rightarrow> string option" where
  "availability_reason Served = None"
| "availability_reason (NamespaceUnavailable _) = Some ''namespace not served''"
| "availability_reason (NotServedAtPin namespace since pinned) =
     Some (''needs '' @ namespace @ '' '' @ since @ '' (this PC pinned '' @ pinned @ '')'')"
| "availability_reason ListNotFound = Some not_served_text"

section \<open>The wire\<close>

text \<open>What goes out: the credential, a cookie header, both or, were it wrong, neither.\<close>

record wire =
  w_method :: http_method
  w_url :: string
  w_parsed :: url
  w_credential :: bool
  w_cookie :: "string option"
  w_headers :: "(string \<times> string) list"
  w_body :: "json option"

record response =
  r_status :: nat
  r_headers :: headers
  r_set_cookies :: "string option list"
  r_body :: "string + string"
  r_body_time :: duration

text \<open>A failed exchange, as \<open>map_transport\<close> reads it: a certificate verdict, whether it was the
  connection or a timeout, and the texts of the error chain.\<close>

record transport_failure =
  tf_cert :: "cert_reason option"
  tf_connect :: bool
  tf_text :: string
  tf_sources :: "string list"

record 'w env =
  execute :: "wire \<Rightarrow> 'w \<Rightarrow> (transport_failure + response) \<times> duration \<times> 'w"
  parse_url :: "string \<Rightarrow> string + (url \<times> string)"
  with_query :: "string \<Rightarrow> (string \<times> string) list \<Rightarrow> string"
  header_ok :: "string \<Rightarrow> bool"
  lateness :: "nat \<Rightarrow> duration"
  request_id :: "'w \<Rightarrow> string"
  body_codec :: codec

section \<open>The client\<close>

record 'w client =
  c_host :: string
  c_base :: string
  c_origin :: Session.origin
  c_pins :: "string \<Rightarrow> string option"
  c_statuses :: "ns_status list"
  c_adopted :: "string set"
  c_repaired :: "string \<Rightarrow> instant option"
  c_no_select :: "string set"
  c_missing :: "string set"
  c_asked :: "string set"
  c_pacer :: pacer
  c_sess :: sess
  c_now :: instant
  c_world :: 'w
  c_sent :: "wire list"

text \<open>\<open>Client::connect\<close>, its TLS configuration aside.\<close>

definition connect :: "profile \<Rightarrow> instant \<Rightarrow> 'w \<Rightarrow> 'w client" where
  "connect p now world = \<lparr>c_host = pf_host p, c_base = base_url p, c_origin = origin_of p,
     c_pins = Map.empty, c_statuses = [], c_adopted = {}, c_repaired = Map.empty, c_no_select = {},
     c_missing = {}, c_asked = {}, c_pacer = \<lparr>p_buckets = new_buckets, p_metrics = metrics_since now\<rparr>,
     c_sess = new_sess, c_now = now, c_world = world, c_sent = []\<rparr>"

definition raw_url :: "'w client \<Rightarrow> string \<Rightarrow> string" where
  "raw_url c path = c_base c @ ''/api'' @ path"

definition pinned_path :: "'w client \<Rightarrow> string \<Rightarrow> string" where
  "pinned_path c path =
     (let namespace = hd (split_on CHR ''/'' (dropWhile (\<lambda>x. x = CHR ''/'') path))
      in case (c_pins c namespace, version_in path) of
           (Some pinned, Some version) \<Rightarrow> (if pinned \<noteq> version then with_version path pinned else path)
         | _ \<Rightarrow> path)"

definition pinned_path_for :: "'w client \<Rightarrow> kind \<Rightarrow> string \<Rightarrow> string" where
  "pinned_path_for c k path =
     (case c_pins c (k_namespace k) of
        Some pinned \<Rightarrow> (if \<not> served_at k pinned then path else pinned_path c path)
      | None \<Rightarrow> pinned_path c path)"

section \<open>Running requests in sequence\<close>

type_synonym ('a, 'w) io = "'w client \<Rightarrow> (prism_error + 'a) \<times> 'w client"

definition io_return :: "'a \<Rightarrow> ('a, 'w) io" where
  "io_return a c = (Inr a, c)"

definition io_throw :: "prism_error \<Rightarrow> ('a, 'w) io" where
  "io_throw e c = (Inl e, c)"

definition io_bind :: "('a, 'w) io \<Rightarrow> ('a \<Rightarrow> ('b, 'w) io) \<Rightarrow> ('b, 'w) io" where
  "io_bind m f c = (case m c of (Inl e, c') \<Rightarrow> (Inl e, c') | (Inr a, c') \<Rightarrow> f a c')"

definition io_lift :: "prism_error + 'a \<Rightarrow> ('a, 'w) io" where
  "io_lift r c = (r, c)"

lemma io_bind_return [simp]: "io_bind (io_return a) f = f a"
  by (rule ext) (simp add: io_bind_def io_return_def)

lemma io_bind_assoc: "io_bind (io_bind m f) g = io_bind m (\<lambda>a. io_bind (f a) g)"
  by (rule ext) (simp add: io_bind_def split: prod.splits sum.splits)

text \<open>A relation every operation keeps between the client before and after, through a sequence.\<close>

definition io_keeps :: "('w client \<Rightarrow> 'w client \<Rightarrow> bool) \<Rightarrow> ('a, 'w) io \<Rightarrow> bool" where
  "io_keeps R m \<longleftrightarrow> (\<forall>c. R c (snd (m c)))"

lemma io_keeps_bind:
  assumes "io_keeps R m" and "\<And>a. io_keeps R (f a)" and "\<And>x y z. R x y \<Longrightarrow> R y z \<Longrightarrow> R x z"
  shows "io_keeps R (io_bind m f)"
proof -
  have "R c (snd (io_bind m f c))" for c
  proof (cases "m c")
    case (Pair r c')
    have "R c c'" using assms(1) Pair by (metis io_keeps_def snd_conv)
    moreover have "R c' (snd (f a c'))" for a using assms(2) by (simp add: io_keeps_def)
    ultimately show ?thesis using Pair assms(3) by (cases r) (auto simp: io_bind_def)
  qed
  then show ?thesis by (simp add: io_keeps_def)
qed

section \<open>Properties\<close>

text \<open>
  a request for a versioned path goes to the version its namespace is pinned to, whatever
  version the catalog wrote in it, and pinning it again changes nothing.
\<close>

theorem pinned_path_is_at_the_pin:
  assumes "version_in path = Some w"
    and "c_pins c (hd (split_on CHR ''/'' (dropWhile (\<lambda>x. x = CHR ''/'') path))) = Some v"
    and "v \<noteq> []" and "CHR ''/'' \<notin> set v"
  shows "version_in (pinned_path c path) = Some v \<and> with_version (pinned_path c path) v = pinned_path c path"
proof -
  have p: "prefix ''/'' path" and l: "length (split_on CHR ''/'' path) \<ge> 3"
    using assms(1) by (auto simp: version_in_def Let_def split: if_splits)
  have "pinned_path c path = (if v \<noteq> w then with_version path v else path)"
    using assms(1,2) by (simp add: pinned_path_def Let_def)
  then have "version_in (pinned_path c path) = Some v"
    using version_in_with_version [OF p l assms(4,3)] assms(1) by auto
  then show ?thesis using with_version_version_in by blast
qed

theorem pinned_path_is_at_the_pin_witness:
  "let c = (connect \<lparr>pf_host = ''pc'', pf_port = 9440, pf_username = ''u'', pf_verify_tls = True,
       pf_ca_bundle = None, pf_plain_http = False\<rparr> 0 ())\<lparr>c_pins := [''vmm'' \<mapsto> ''v4.0'']\<rparr>
   in version_in (pinned_path c ''/vmm/v4.3/vms'') = Some ''v4.0''"
  unfolding Let_def
  by (rule conjunct1, rule pinned_path_is_at_the_pin [where w = "''v4.3''"])
    (simp_all add: version_in_def connect_def)

end
