(* ===== verification/Send.thy ===== *)
theory Send
  imports Client Gate
begin

text \<open>
  One request from start to end (\<open>Client::send\<close> and \<open>attempt\<close>,
  \<open>crates/prism/src/client/session.rs\<close>): paced, let through the valve and the gate, sent with
  the credential or a session, sent again after a 429, and its answer settled.

  This is the request alone on its client: the permit is free when it asks for it and back when
  it is done, so \<open>carry\<close> is its two halves one after the other. What several requests do to each
  other is in \<open>Gate\<close>.
\<close>

section \<open>Pieces\<close>

definition upd_metrics :: "(metrics \<Rightarrow> metrics) \<Rightarrow> 'w client \<Rightarrow> 'w client" where
  "upd_metrics f c = c\<lparr>c_pacer := (c_pacer c)\<lparr>p_metrics := f (p_metrics (c_pacer c))\<rparr>\<rparr>"

definition upd_buckets :: "(buckets \<Rightarrow> buckets) \<Rightarrow> 'w client \<Rightarrow> 'w client" where
  "upd_buckets f c = c\<lparr>c_pacer := (c_pacer c)\<lparr>p_buckets := f (p_buckets (c_pacer c))\<rparr>\<rparr>"

definition upd_sess :: "(sess \<Rightarrow> sess) \<Rightarrow> 'w client \<Rightarrow> 'w client" where
  "upd_sess f c = c\<lparr>c_sess := f (c_sess c)\<rparr>"

definition upd_jar :: "(jarred \<Rightarrow> jarred) \<Rightarrow> 'w client \<Rightarrow> 'w client" where
  "upd_jar f c = upd_sess (\<lambda>s. s\<lparr>s_jar := f (s_jar s)\<rparr>) c"

definition pass_time :: "duration \<Rightarrow> 'w client \<Rightarrow> 'w client" where
  "pass_time d c = c\<lparr>c_now := c_now c + d\<rparr>"

text \<open>\<open>acquire\<close> with two turns of its loop, which are always enough.\<close>

definition pace :: "'w env \<Rightarrow> op_key \<Rightarrow> rate_limit \<Rightarrow> 'w client \<Rightarrow> bool \<times> 'w client" where
  "pace env key l c =
     (case acquire 2 (lateness env) key l (c_now c) False (c_pacer c) of
        Some (p, slept, t) \<Rightarrow> (slept, c\<lparr>c_pacer := p, c_now := t\<rparr>)
      | None \<Rightarrow> (False, c))"

definition map_transport :: "'w client \<Rightarrow> transport_failure \<Rightarrow> prism_error" where
  "map_transport c f =
     (case tf_cert f of
        Some reason \<Rightarrow> ECertificate (c_host c) reason
      | None \<Rightarrow> (if tf_connect f then EConnect (c_host c) (describe (tf_text f) (tf_sources f))
          else ETransport (describe (tf_text f) (tf_sources f))))"

definition path_of :: "string \<Rightarrow> string" where
  "path_of u = (case split_once_str ''://'' u of
       Some (_, rest) \<Rightarrow> (if CHR ''/'' \<in> set rest then dropWhile (\<lambda>x. x \<noteq> CHR ''/'') rest else u)
     | None \<Rightarrow> u)"

fun method_text :: "http_method \<Rightarrow> string" where
  "method_text Get = ''GET''"
| "method_text Post = ''POST''"
| "method_text Put = ''PUT''"
| "method_text Patch = ''PATCH''"
| "method_text Delete = ''DELETE''"

definition trace :: "http_method \<Rightarrow> string \<Rightarrow> carried \<Rightarrow> instant \<Rightarrow> bool \<Rightarrow> nat option \<Rightarrow> 'w client \<Rightarrow> 'w client"
  where
  "trace m u who began paced status c =
     upd_metrics (record_call \<lparr>c_at = began, c_method = method_text m, c_path = path_of u,
       c_status = status, c_ms = sat_u32 ((c_now c - began) div 1000000),
       c_credential = carried_word who, c_paced = paced\<rparr>) c"

definition refused_call :: "string \<Rightarrow> 'w client \<Rightarrow> 'w client" where
  "refused_call template c =
     upd_metrics (record_call \<lparr>c_at = c_now c, c_method = ''-'', c_path = template, c_status = None,
       c_ms = 0, c_credential = carried_word RefusedHere, c_paced = False\<rparr>) c"

text \<open>
  One exchange on the wire. The cookie layer banks what the answer sets before anything else
  looks at it.
\<close>

definition exec_wire :: "'w env \<Rightarrow> wire \<Rightarrow> 'w client \<Rightarrow> (transport_failure + response) \<times> 'w client" where
  "exec_wire env w c =
     (let (r, d, world) = execute env w (c_world c);
          c1 = pass_time d (c\<lparr>c_world := world, c_sent := c_sent c @ [w]\<rparr>)
      in case r of
           Inl f \<Rightarrow> (Inl f, c1)
         | Inr resp \<Rightarrow> (Inr resp, upd_jar (set_cookies (c_origin c) (r_set_cookies resp) (w_parsed w)) c1))"

section \<open>The liveness check\<close>

definition session_probe_template :: string where
  "session_probe_template = ''/session-probe''"

definition probe_wire :: "string \<Rightarrow> url \<Rightarrow> string \<Rightarrow> wire" where
  "probe_wire u parsed cookie = \<lparr>w_method = Get, w_url = u, w_parsed = parsed, w_credential = False,
     w_cookie = Some cookie, w_headers = [(''accept'', ''application/json'')], w_body = None\<rparr>"

definition session_alive :: "'w env \<Rightarrow> string \<Rightarrow> string \<Rightarrow> 'w client \<Rightarrow> bool \<times> 'w client" where
  "session_alive env cookie not_u c =
     (case probe_url not_u (s_jar (c_sess c)) of
        None \<Rightarrow> (False, c)
      | Some u \<Rightarrow>
          (let c1 = snd (pace env (Get, session_probe_template) rate_limit_default c);
               began = c_now c1;
               c2 = upd_metrics (record_started began) c1;
               failed = (\<lambda>c. (True, trace Get u OnSession began False None
                 (upd_metrics (record_failed (c_now c)) c)))
           in case parse_url env u of
                Inl _ \<Rightarrow> failed c2
              | Inr (parsed, _) \<Rightarrow>
                  (case exec_wire env (probe_wire u parsed cookie) c2 of
                     (Inl f, c3) \<Rightarrow> failed c3
                   | (Inr resp, c3) \<Rightarrow> (r_status resp \<noteq> 401,
                       trace Get u OnSession began False (Some (r_status resp))
                         (upd_metrics (record_completed (c_now c3 - began)) c3)))))"

section \<open>One attempt\<close>

record request =
  rq_method :: http_method
  rq_template :: string
  rq_limit :: rate_limit
  rq_url :: string
  rq_headers :: "(string \<times> string) list"
  rq_body :: "json option"

datatype attempt = Answered nat headers string | SessionEnded

definition carry_alone :: "'w env \<Rightarrow> pass \<Rightarrow> sess \<Rightarrow> carry option" where
  "carry_alone env p s =
     (case carry_before (header_ok env) p s of
        Carries cr \<Rightarrow> Some cr
      | Refuses \<Rightarrow> None
      | Waits \<Rightarrow> (case carry_behind (header_ok env) p s of
            RefusesBehind \<Rightarrow> None
          | Rides g k \<Rightarrow> Some (Session g k)
          | Hold \<Rightarrow> Some Credential))"

definition wire_of :: "'w env \<Rightarrow> request \<Rightarrow> carry \<Rightarrow> url \<Rightarrow> string \<Rightarrow> 'w client \<Rightarrow> wire" where
  "wire_of env rq cr parsed u c =
     \<lparr>w_method = rq_method rq, w_url = u, w_parsed = parsed, w_credential = (cr = Credential),
      w_cookie = (case cr of Session g k \<Rightarrow> Some k
        | Credential \<Rightarrow> jar_cookies (header_ok env) (c_origin c) parsed (s_jar (c_sess c))),
      w_headers = rq_headers rq @ [(''accept'', ''application/json'')], w_body = rq_body rq\<rparr>"

definition who_of :: "carry \<Rightarrow> carried" where
  "who_of cr = (if cr = Credential then Presented else OnSession)"

definition op_key_of :: "request \<Rightarrow> op_key" where
  "op_key_of rq = (rq_method rq, rq_template rq)"

text \<open>One request counted, sent and its pacing headers read.\<close>

definition once :: "'w env \<Rightarrow> request \<Rightarrow> carry \<Rightarrow> url \<Rightarrow> string \<Rightarrow> bool \<Rightarrow> 'w client
    \<Rightarrow> (prism_error + (response \<times> instant)) \<times> 'w client" where
  "once env rq cr parsed u paced c =
     (let began = c_now c;
          c1 = upd_metrics (record_started began) c
      in case exec_wire env (wire_of env rq cr parsed u c1) c1 of
           (Inl f, c2) \<Rightarrow> (Inl (map_transport c2 f),
             trace (rq_method rq) u (who_of cr) began paced None
               (upd_metrics (record_failed (c_now c2)) c2))
         | (Inr resp, c2) \<Rightarrow> (Inr (resp, began),
             upd_buckets (observe_limits (r_headers resp) (op_key_of rq) (c_now c2)) c2))"

definition drained :: "request \<Rightarrow> duration \<Rightarrow> 'w client \<Rightarrow> 'w client" where
  "drained rq wait c = c\<lparr>c_pacer := drain_bucket (op_key_of rq) wait (c_now c) (c_pacer c)\<rparr>"

text \<open>A 429 is waited out and sent once more.\<close>

definition exchange :: "'w env \<Rightarrow> request \<Rightarrow> carry \<Rightarrow> url \<Rightarrow> string \<Rightarrow> bool \<Rightarrow> 'w client
    \<Rightarrow> (prism_error + (response \<times> instant)) \<times> 'w client" where
  "exchange env rq cr parsed u paced c =
     (case once env rq cr parsed u paced c of
        (Inl e, c1) \<Rightarrow> (Inl e, c1)
      | (Inr (resp, began), c1) \<Rightarrow>
          (if r_status resp = 429 then
             (let wait = retry_after (r_headers resp)
              in once env rq cr parsed u paced (pass_time (wait + lateness env 0) (drained rq wait c1)))
           else (Inr (resp, began), c1)))"

definition failing_status :: "nat \<Rightarrow> bool" where
  "failing_status status \<longleftrightarrow> status = 401 \<or> 500 \<le> status \<and> status \<le> 599"

text \<open>A 401 on a session: the endpoint's verdict when the session answers elsewhere, its end when not.\<close>

definition refused_on_session :: "'w env \<Rightarrow> request \<Rightarrow> 64 word \<Rightarrow> string \<Rightarrow> string \<Rightarrow> bool \<Rightarrow> response
    \<Rightarrow> instant \<Rightarrow> 'w client \<Rightarrow> (prism_error + attempt) \<times> 'w client" where
  "refused_on_session env rq g cookie u paced resp began c =
     (let (alive, c1) = session_alive env cookie u c
      in if alive then
           (let c2 = pass_time (r_body_time resp) c1;
                body = (case r_body resp of Inr b \<Rightarrow> b | Inl _ \<Rightarrow> []);
                c3 = trace (rq_method rq) u OnSession began paced (Some (r_status resp))
                  (upd_metrics (record_completed (c_now c2 - began)) c2)
            in (Inl (EDenied (case error_message (body_codec env) body of Some m \<Rightarrow> m | None \<Rightarrow> path_of u)), c3))
         else (Inr SessionEnded,
           upd_jar (expire g) (trace (rq_method rq) u OnSession began paced (Some (r_status resp))
             (upd_metrics (record_failed (c_now c1)) c1))))"

text \<open>Every other answer: what it proves is settled, then its body is read.\<close>

definition answered_with :: "'w env \<Rightarrow> request \<Rightarrow> carry \<Rightarrow> string \<Rightarrow> bool \<Rightarrow> response \<Rightarrow> instant \<Rightarrow> 'w client
    \<Rightarrow> (prism_error + attempt) \<times> 'w client" where
  "answered_with env rq cr u paced resp began c =
     (let status = r_status resp;
          c1 = upd_sess (settle_answer (cr = Credential) status u (c_now c)) c;
          c2 = (if failing_status status then upd_metrics (record_failed (c_now c1)) c1 else c1);
          c3 = (if status = 429 then drained rq (retry_after (r_headers resp)) c2 else c2);
          c4 = pass_time (r_body_time resp) c3
      in case r_body resp of
           Inl e \<Rightarrow> (Inl (ETransport e), trace (rq_method rq) u (who_of cr) began paced None
             (upd_metrics (record_failed (c_now c4)) c4))
         | Inr body \<Rightarrow> (Inr (Answered status (r_headers resp) body),
             trace (rq_method rq) u (who_of cr) began paced (Some status)
               (upd_metrics (record_completed (c_now c4 - began)) c4)))"

definition conclude :: "'w env \<Rightarrow> request \<Rightarrow> carry \<Rightarrow> string \<Rightarrow> bool \<Rightarrow> response \<Rightarrow> instant \<Rightarrow> 'w client
    \<Rightarrow> (prism_error + attempt) \<times> 'w client" where
  "conclude env rq cr u paced resp began c =
     (case cr of
        Session g cookie \<Rightarrow> (if r_status resp = 401
          then refused_on_session env rq g cookie u paced resp began c
          else answered_with env rq cr u paced resp began c)
      | Credential \<Rightarrow> answered_with env rq cr u paced resp began c)"

definition attempt_once :: "'w env \<Rightarrow> request \<Rightarrow> pass \<Rightarrow> bool \<Rightarrow> 'w client \<Rightarrow> (prism_error + attempt) \<times> 'w client"
  where
  "attempt_once env rq p paced c =
     (if \<not> valve_open (s_valve (c_sess c)) then (Inl EAuth, refused_call (rq_template rq) c)
      else case carry_alone env p (c_sess c) of
        None \<Rightarrow> (Inl EAuth, refused_call (rq_template rq) c)
      | Some cr \<Rightarrow>
          (case parse_url env (rq_url rq) of
             Inl e \<Rightarrow> (Inl (ETransport e), c)
           | Inr (parsed, u) \<Rightarrow>
               (if \<not> may_carry (c_origin c) parsed (cr = Credential)
                then (Inl (ETransport (''refusing to send this Prism Central'' @ [CHR 0x27] @
                  ''s session to '' @ u)), c)
                else case exchange env rq cr parsed u paced c of
                  (Inl e, c1) \<Rightarrow> (Inl e, c1)
                | (Inr (resp, began), c1) \<Rightarrow> conclude env rq cr u paced resp began c1)))"

section \<open>The whole request\<close>

fun send_passes :: "'w env \<Rightarrow> request \<Rightarrow> pass list \<Rightarrow> 'w client
    \<Rightarrow> (prism_error + (nat \<times> headers \<times> string)) \<times> 'w client" where
  "send_passes env rq [] c = (Inl EAuth, c)"
| "send_passes env rq (p # ps) c =
     (let (paced, c1) = pace env (op_key_of rq) (rq_limit rq) c
      in case attempt_once env rq p paced c1 of
           (Inl e, c2) \<Rightarrow> (Inl e, c2)
         | (Inr (Answered status h body), c2) \<Rightarrow> (Inr (status, h, body), c2)
         | (Inr SessionEnded, c2) \<Rightarrow> send_passes env rq ps c2)"

definition send :: "'w env \<Rightarrow> request \<Rightarrow> 'w client \<Rightarrow> (prism_error + (nat \<times> headers \<times> string)) \<times> 'w client"
  where
  "send env rq c = send_passes env rq (map pass_of [0..<Suc renewals_max]) c"

lemma send_eq: "send env rq c = send_passes env rq [First, Renewing, Authenticate] c"
  by (simp add: send_def renewals_max_def pass_of_def upt_conv_Cons)

section \<open>What goes out\<close>

lemma client_frame [simp]:
  "c_sent (upd_metrics f c) = c_sent c" "c_sess (upd_metrics f c) = c_sess c"
  "c_origin (upd_metrics f c) = c_origin c" "c_world (upd_metrics f c) = c_world c"
  "c_sent (upd_buckets g c) = c_sent c" "c_sess (upd_buckets g c) = c_sess c"
  "c_origin (upd_buckets g c) = c_origin c" "c_world (upd_buckets g c) = c_world c"
  "c_sent (pass_time d c) = c_sent c" "c_sess (pass_time d c) = c_sess c"
  "c_origin (pass_time d c) = c_origin c" "c_world (pass_time d c) = c_world c"
  "c_sent (upd_sess h c) = c_sent c" "c_sess (upd_sess h c) = h (c_sess c)"
  "c_origin (upd_sess h c) = c_origin c" "c_world (upd_sess h c) = c_world c"
  by (simp_all add: upd_metrics_def upd_buckets_def pass_time_def upd_sess_def)

lemma client_frame_more [simp]:
  "c_sent (upd_jar k c) = c_sent c" "c_origin (upd_jar k c) = c_origin c"
  "c_world (upd_jar k c) = c_world c"
  "c_sess (upd_jar k c) = (c_sess c)\<lparr>s_jar := k (s_jar (c_sess c))\<rparr>"
  "c_sent (trace m u who b p st c) = c_sent c" "c_sess (trace m u who b p st c) = c_sess c"
  "c_origin (trace m u who b p st c) = c_origin c" "c_world (trace m u who b p st c) = c_world c"
  "c_sent (refused_call t c) = c_sent c" "c_sess (refused_call t c) = c_sess c"
  "c_origin (refused_call t c) = c_origin c" "c_world (refused_call t c) = c_world c"
  "c_sent (drained rq d c) = c_sent c" "c_sess (drained rq d c) = c_sess c"
  "c_origin (drained rq d c) = c_origin c" "c_world (drained rq d c) = c_world c"
  by (simp_all add: upd_jar_def trace_def refused_call_def drained_def)

lemma pace_frame:
  "c_sent (snd (pace env k l c)) = c_sent c" "c_sess (snd (pace env k l c)) = c_sess c"
  "c_origin (snd (pace env k l c)) = c_origin c" "c_world (snd (pace env k l c)) = c_world c"
  by (auto simp: pace_def split: option.splits)

text \<open>
  \<open>sends ws c d\<close>: from \<open>c\<close> to \<open>d\<close> exactly \<open>ws\<close> went out, each proving who it is, and a session
  only to the jar's origin or to a URL the session already answered on.
\<close>

definition wire_fits :: "'w client \<Rightarrow> wire \<Rightarrow> bool" where
  "wire_fits c w \<longleftrightarrow> (w_credential w \<or> w_cookie w \<noteq> None) \<and>
     (w_credential w \<or> origin_is (c_origin c) (w_parsed w) \<or>
      w_url w \<in> set (j_ok_urls (s_jar (c_sess c))))"

definition sends :: "wire list \<Rightarrow> 'w client \<Rightarrow> 'w client \<Rightarrow> bool" where
  "sends ws c d \<longleftrightarrow> c_sent d = c_sent c @ ws \<and> (\<forall>w \<in> set ws. wire_fits c w) \<and>
     c_origin d = c_origin c"

definition presents_in :: "wire list \<Rightarrow> nat" where
  "presents_in ws = length (filter w_credential ws)"

lemma exec_wire_frame:
  assumes "exec_wire env w c = (r, d)"
  shows "c_sent d = c_sent c @ [w]" and "c_origin d = c_origin c"
    and "j_ok_urls (s_jar (c_sess d)) = j_ok_urls (s_jar (c_sess c))"
    and "s_valve (c_sess d) = s_valve (c_sess c)"
  using assms
  by (auto simp: exec_wire_def Let_def frame_simps split: prod.splits sum.splits)

lemma once_frame:
  assumes "once env rq cr parsed u paced c = (r, d)"
  shows "\<exists>w. c_sent d = c_sent c @ [w] \<and> w_credential w = (cr = Credential) \<and> w_parsed w = parsed \<and>
      (cr \<noteq> Credential \<longrightarrow> w_cookie w \<noteq> None)"
    and "c_origin d = c_origin c"
    and "j_ok_urls (s_jar (c_sess d)) = j_ok_urls (s_jar (c_sess c))"
proof -
  let ?c1 = "upd_metrics (record_started (c_now c)) c"
  let ?w = "wire_of env rq cr parsed u ?c1"
  obtain x c2 where x: "exec_wire env ?w ?c1 = (x, c2)" by force
  note f = exec_wire_frame [OF x]
  have d: "c_sent d = c_sent c2 \<and> c_origin d = c_origin c2 \<and> c_sess d = c_sess c2"
    using assms x by (auto simp: once_def Let_def split: sum.splits prod.splits)
  then show "c_origin d = c_origin c" and "j_ok_urls (s_jar (c_sess d)) = j_ok_urls (s_jar (c_sess c))"
    using f by simp_all
  have "w_credential ?w = (cr = Credential) \<and> w_parsed ?w = parsed \<and>
      (cr \<noteq> Credential \<longrightarrow> w_cookie ?w \<noteq> None)"
    by (cases cr) (simp_all add: wire_of_def)
  then show "\<exists>w. c_sent d = c_sent c @ [w] \<and> w_credential w = (cr = Credential) \<and> w_parsed w = parsed \<and>
      (cr \<noteq> Credential \<longrightarrow> w_cookie w \<noteq> None)"
    using d f(1) by (intro exI [of _ ?w]) simp
qed

lemma exchange_frame:
  assumes "exchange env rq cr parsed u paced c = (r, d)"
  shows "\<exists>ws. c_sent d = c_sent c @ ws \<and> length ws \<le> 2 \<and>
      (\<forall>w \<in> set ws. w_credential w = (cr = Credential) \<and> w_parsed w = parsed \<and>
        (cr \<noteq> Credential \<longrightarrow> w_cookie w \<noteq> None))"
    and "c_origin d = c_origin c"
    and "j_ok_urls (s_jar (c_sess d)) = j_ok_urls (s_jar (c_sess c))"
proof -
  obtain x c1 where x: "once env rq cr parsed u paced c = (x, c1)" by force
  note f = once_frame [OF x]
  obtain w where w: "c_sent c1 = c_sent c @ [w]" "w_credential w = (cr = Credential)"
    "w_parsed w = parsed" "cr \<noteq> Credential \<longrightarrow> w_cookie w \<noteq> None" using f(1) by blast
  let ?P = "\<lambda>w. w_credential w = (cr = Credential) \<and> w_parsed w = parsed \<and>
        (cr \<noteq> Credential \<longrightarrow> w_cookie w \<noteq> None)"
  have "(\<exists>ws. c_sent d = c_sent c @ ws \<and> length ws \<le> 2 \<and> (\<forall>w \<in> set ws. ?P w)) \<and>
    c_origin d = c_origin c \<and> j_ok_urls (s_jar (c_sess d)) = j_ok_urls (s_jar (c_sess c))"
  proof (cases "\<exists>resp began. x = Inr (resp, began) \<and> r_status resp = 429")
    case True
    then obtain resp began where resp: "x = Inr (resp, began)" "r_status resp = 429" by blast
    let ?c = "pass_time (retry_after (r_headers resp) + lateness env 0)
      (drained rq (retry_after (r_headers resp)) c1)"
    have y: "once env rq cr parsed u paced ?c = (r, d)"
      using assms x resp by (simp add: exchange_def Let_def)
    note g = once_frame [OF y]
    obtain w' where "c_sent d = c_sent c @ [w, w']" "?P w'" using g(1) w(1) by auto
    then show ?thesis using w f(2,3) g(2,3) by (intro conjI exI [of _ "[w, w']"]) auto
  next
    case False
    then have "d = c1" using assms x by (auto simp: exchange_def Let_def split: sum.splits if_splits)
    then show ?thesis using w f(2,3) by (intro conjI exI [of _ "[w]"]) auto
  qed
  then show "\<exists>ws. c_sent d = c_sent c @ ws \<and> length ws \<le> 2 \<and> (\<forall>w \<in> set ws. ?P w)"
    and "c_origin d = c_origin c" and "j_ok_urls (s_jar (c_sess d)) = j_ok_urls (s_jar (c_sess c))"
    by blast+
qed

lemma session_alive_frame:
  assumes "session_alive env k nu c = (a, d)"
  shows "\<exists>ws. c_sent d = c_sent c @ ws \<and> length ws \<le> 1 \<and>
      (\<forall>w \<in> set ws. \<not> w_credential w \<and> w_cookie w \<noteq> None \<and> w_url w \<in> set (j_ok_urls (s_jar (c_sess c))))"
    and "c_origin d = c_origin c"
    and "j_ok_urls (s_jar (c_sess d)) = j_ok_urls (s_jar (c_sess c))"
proof -
  have "(\<exists>ws. c_sent d = c_sent c @ ws \<and> length ws \<le> 1 \<and>
      (\<forall>w \<in> set ws. \<not> w_credential w \<and> w_cookie w \<noteq> None \<and> w_url w \<in> set (j_ok_urls (s_jar (c_sess c))))) \<and>
    c_origin d = c_origin c \<and> j_ok_urls (s_jar (c_sess d)) = j_ok_urls (s_jar (c_sess c))"
  proof (cases "probe_url nu (s_jar (c_sess c))")
    case None
    then show ?thesis using assms by (simp add: session_alive_def)
  next
    case (Some u)
    then have u: "u \<in> set (j_ok_urls (s_jar (c_sess c)))"
      using find_Some_in [of _ "rev (j_ok_urls (s_jar (c_sess c)))"] by (simp add: probe_url_def)
    let ?c1 = "snd (pace env (Get, session_probe_template) rate_limit_default c)"
    let ?c2 = "upd_metrics (record_started (c_now ?c1)) ?c1"
    show ?thesis
    proof (cases "parse_url env u")
      case (Inl e)
      then show ?thesis using assms Some by (auto simp: session_alive_def Let_def pace_frame)
    next
      case (Inr pt)
      obtain parsed t where pt: "pt = (parsed, t)" by force
      obtain x c3 where x: "exec_wire env (probe_wire u parsed k) ?c2 = (x, c3)" by force
      note f = exec_wire_frame [OF x]
      have "c_sent d = c_sent c3 \<and> c_origin d = c_origin c3 \<and> c_sess d = c_sess c3"
        using assms Some Inr pt x by (auto simp: session_alive_def Let_def split: sum.splits)
      then show ?thesis
        using f u by (intro conjI exI [of _ "[probe_wire u parsed k]"])
          (simp_all add: pace_frame probe_wire_def)
    qed
  qed
  then show "\<exists>ws. c_sent d = c_sent c @ ws \<and> length ws \<le> 1 \<and>
      (\<forall>w \<in> set ws. \<not> w_credential w \<and> w_cookie w \<noteq> None \<and> w_url w \<in> set (j_ok_urls (s_jar (c_sess c))))"
    and "c_origin d = c_origin c" and "j_ok_urls (s_jar (c_sess d)) = j_ok_urls (s_jar (c_sess c))"
    by blast+
qed

lemma answered_with_frame:
  assumes "answered_with env rq cr u paced resp began c = (r, d)"
  shows "c_sent d = c_sent c" and "c_origin d = c_origin c" and "r \<noteq> Inr SessionEnded"
  using assms by (auto simp: answered_with_def Let_def split: sum.splits if_splits)

text \<open>
  An attempt sends at most three requests; one that carries the credential sends at most two and
  is never sent round again.
\<close>

lemma attempt_once_sends:
  assumes "attempt_once env rq p paced c = (r, d)"
  shows "\<exists>ws. sends ws c d \<and> length ws \<le> 3 \<and> presents_in ws \<le> 2 \<and>
    (r = Inr SessionEnded \<longrightarrow> presents_in ws = 0 \<and>
      j_ok_urls (s_jar (c_sess d)) = j_ok_urls (s_jar (c_sess c)))"
proof (cases "c_sent d = c_sent c \<and> c_origin d = c_origin c \<and> r \<noteq> Inr SessionEnded")
  case True
  then show ?thesis by (intro exI [of _ "[]"]) (simp add: sends_def presents_in_def)
next
  case False
  then obtain cr parsed u where v: "valve_open (s_valve (c_sess c))"
    and cr: "carry_alone env p (c_sess c) = Some cr" and pu: "parse_url env (rq_url rq) = Inr (parsed, u)"
    and may: "may_carry (c_origin c) parsed (cr = Credential)"
    using assms by (auto simp: attempt_once_def split: if_splits option.splits sum.splits)
  obtain x c1 where x: "exchange env rq cr parsed u paced c = (x, c1)" by force
  note f = exchange_frame [OF x]
  obtain ws where ws: "c_sent c1 = c_sent c @ ws" "length ws \<le> 2"
    "\<forall>w \<in> set ws. w_credential w = (cr = Credential) \<and> w_parsed w = parsed \<and>
      (cr \<noteq> Credential \<longrightarrow> w_cookie w \<noteq> None)" using f(1) by blast
  have fits: "\<forall>w \<in> set ws. wire_fits c w"
    using ws(3) may by (auto simp: wire_fits_def may_carry_def)
  have pres: "presents_in ws \<le> 2"
    unfolding presents_in_def using length_filter_le [of w_credential ws] ws(2) by linarith
  have none: "presents_in ws = 0" if "cr \<noteq> Credential"
    using ws(3) that by (simp add: presents_in_def filter_empty_conv)
  have direct: ?thesis if "c_sent d = c_sent c1" and "c_origin d = c_origin c1" and "r \<noteq> Inr SessionEnded"
    using that ws(1,2) fits pres f(2) by (intro exI [of _ ws]) (simp add: sends_def)
  show ?thesis
  proof (cases x)
    case (Inl e)
    then have "r = Inl e \<and> d = c1" using assms v cr pu may x by (simp add: attempt_once_def)
    then show ?thesis using direct by simp
  next
    case (Inr rb)
    obtain resp began where rb: "rb = (resp, began)" by force
    have con: "conclude env rq cr u paced resp began c1 = (r, d)"
      using assms v cr pu may x Inr rb by (simp add: attempt_once_def)
    show ?thesis
    proof (cases "\<exists>g k. cr = Session g k \<and> r_status resp = 401")
      case False
      then have "answered_with env rq cr u paced resp began c1 = (r, d)"
        using con by (cases cr) (auto simp: conclude_def)
      then show ?thesis using direct answered_with_frame by metis
    next
      case True
      then obtain g k where gk: "cr = Session g k" and st: "r_status resp = 401" by blast
      obtain a c2 where a: "session_alive env k u c1 = (a, c2)" by force
      note h = session_alive_frame [OF a]
      obtain vs where vs: "c_sent c2 = c_sent c1 @ vs" "length vs \<le> 1"
        "\<forall>w \<in> set vs. \<not> w_credential w \<and> w_cookie w \<noteq> None \<and> w_url w \<in> set (j_ok_urls (s_jar (c_sess c1)))"
        using h(1) by blast
      have d: "c_sent d = c_sent c2 \<and> c_origin d = c_origin c2 \<and>
          j_ok_urls (s_jar (c_sess d)) = j_ok_urls (s_jar (c_sess c2))"
        using con gk st a
        by (auto simp: conclude_def refused_on_session_def Let_def frame_simps split: if_splits)
      have "sends (ws @ vs) c d"
        using ws(1) vs d f(2,3) h(2) fits by (auto simp: sends_def wire_fits_def)
      moreover have "presents_in (ws @ vs) = 0"
        using none gk vs(3) by (simp add: presents_in_def filter_empty_conv)
      moreover have "length (ws @ vs) \<le> 3" using ws(2) vs(2) by simp
      ultimately show ?thesis using d h(3) f(3) by (intro exI [of _ "ws @ vs"]) simp
    qed
  qed
qed

lemma authenticate_is_last:
  assumes "attempt_once env rq Authenticate paced c = (r, d)"
  shows "r \<noteq> Inr SessionEnded"
proof
  assume "r = Inr SessionEnded"
  with assms obtain cr parsed u resp began c1 where cr: "carry_alone env Authenticate (c_sess c) = Some cr"
    and con: "conclude env rq cr u paced resp began c1 = (Inr SessionEnded, d)"
    by (auto simp: attempt_once_def split: if_splits option.splits sum.splits prod.splits)
  have "cr = Credential"
    using cr by (auto simp: carry_alone_def carry_before_def carry_behind_def split: if_splits)
  then have "answered_with env rq Credential u paced resp began c1 = (Inr SessionEnded, d)"
    using con by (simp add: conclude_def)
  then show False using answered_with_frame(3) by blast
qed

lemma sends_trans:
  assumes "sends ws c d" and "sends vs d e"
    and "j_ok_urls (s_jar (c_sess d)) = j_ok_urls (s_jar (c_sess c))"
  shows "sends (ws @ vs) c e"
  using assms by (auto simp: sends_def wire_fits_def)

lemma sends_paced: "sends ws (snd (pace env k l c)) d \<longleftrightarrow> sends ws c d"
  by (simp add: sends_def wire_fits_def pace_frame)

lemma send_passes_sends:
  assumes "send_passes env rq ps c = (r, d)"
  shows "\<exists>ws. sends ws c d \<and> length ws \<le> 3 * length ps \<and> presents_in ws \<le> 2"
  using assms
proof (induction ps arbitrary: c)
  case Nil
  then show ?case by (intro exI [of _ "[]"]) (simp add: sends_def presents_in_def)
next
  case (Cons p ps)
  obtain paced c1 where c1: "pace env (op_key_of rq) (rq_limit rq) c = (paced, c1)" by force
  then have snd1: "c1 = snd (pace env (op_key_of rq) (rq_limit rq) c)" by simp
  obtain x c2 where x: "attempt_once env rq p paced c1 = (x, c2)" by force
  obtain ws where ws: "sends ws c1 c2" "length ws \<le> 3" "presents_in ws \<le> 2"
    "x = Inr SessionEnded \<longrightarrow> presents_in ws = 0 \<and>
      j_ok_urls (s_jar (c_sess c2)) = j_ok_urls (s_jar (c_sess c1))"
    using attempt_once_sends [OF x] by blast
  have wc: "sends ws c c2" using ws(1) sends_paced unfolding snd1 by blast
  show ?case
  proof (cases "x = Inr SessionEnded")
    case False
    then have "d = c2" using Cons.prems c1 x by (auto split: sum.splits attempt.splits)
    then show ?thesis using wc ws(2,3) by (intro exI [of _ ws]) simp
  next
    case True
    then have "send_passes env rq ps c2 = (r, d)" using Cons.prems c1 x by simp
    then obtain vs where vs: "sends vs c2 d" "length vs \<le> 3 * length ps" "presents_in vs \<le> 2"
      using Cons.IH by blast
    have "j_ok_urls (s_jar (c_sess c2)) = j_ok_urls (s_jar (c_sess c))"
      using ws(4) True by (simp add: snd1 pace_frame)
    then have "sends (ws @ vs) c d" using wc vs(1) sends_trans by blast
    moreover have "presents_in (ws @ vs) = presents_in vs" using ws(4) True by (simp add: presents_in_def)
    ultimately show ?thesis using ws(2) vs by (intro exI [of _ "ws @ vs"]) simp
  qed
qed

section \<open>A shut valve\<close>

lemma attempt_shut:
  "\<not> valve_open (s_valve (c_sess c)) \<Longrightarrow>
    attempt_once env rq p paced c = (Inl EAuth, refused_call (rq_template rq) c)"
  by (simp add: attempt_once_def)

lemma send_shut:
  assumes "\<not> valve_open (s_valve (c_sess c))"
  shows "fst (send env rq c) = Inl EAuth \<and> c_sent (snd (send env rq c)) = c_sent c \<and>
    c_world (snd (send env rq c)) = c_world c \<and> c_sess (snd (send env rq c)) = c_sess c"
proof -
  obtain paced c1 where c1: "pace env (op_key_of rq) (rq_limit rq) c = (paced, c1)" by force
  have f: "c_sent c1 = c_sent c" "c_sess c1 = c_sess c" "c_world c1 = c_world c"
    using pace_frame [of env "op_key_of rq" "rq_limit rq" c] c1 by simp_all
  have "send env rq c = (Inl EAuth, refused_call (rq_template rq) c1)"
    using assms f by (simp add: send_eq c1 attempt_shut)
  then show ?thesis using f by simp
qed

lemma attempt_401:
  assumes "attempt_once env rq p paced c = (Inr (Answered 401 h b), d)"
  shows "\<not> valve_open (s_valve (c_sess d))"
proof -
  from assms obtain cr parsed u resp began c1
    where con: "conclude env rq cr u paced resp began c1 = (Inr (Answered 401 h b), d)"
    by (auto simp: attempt_once_def split: if_splits option.splits sum.splits prod.splits)
  then have "cr = Credential \<and> answered_with env rq Credential u paced resp began c1 = (Inr (Answered 401 h b), d)"
    by (cases cr) (auto simp: conclude_def refused_on_session_def answered_with_def Let_def
        split: if_splits prod.splits sum.splits)
  then show ?thesis
    by (auto simp: answered_with_def Let_def settle_answer_def settle_auth_def count_session_def
        shut_valve_def learn_url_def valve_open_def latch_def split: if_splits sum.splits)
qed

lemma send_401:
  assumes "send_passes env rq ps c = (Inr (401, h, b), d)"
  shows "\<not> valve_open (s_valve (c_sess d))"
  using assms
proof (induction ps arbitrary: c)
  case Nil
  then show ?case by simp
next
  case (Cons p ps)
  then show ?case using attempt_401 [of env rq p]
    by (auto simp: Let_def split: prod.splits sum.splits attempt.splits)
qed

text \<open>Requests one after another on one client.\<close>

fun send_all :: "'w env \<Rightarrow> request list \<Rightarrow> 'w client
    \<Rightarrow> (prism_error + (nat \<times> headers \<times> string)) list \<times> 'w client" where
  "send_all env [] c = ([], c)"
| "send_all env (rq # rqs) c =
     (let (r, c1) = send env rq c; (rs, c2) = send_all env rqs c1 in (r # rs, c2))"

lemma send_all_shut:
  "\<not> valve_open (s_valve (c_sess c)) \<Longrightarrow>
    fst (send_all env rqs c) = replicate (length rqs) (Inl EAuth) \<and>
    c_sent (snd (send_all env rqs c)) = c_sent c \<and> c_world (snd (send_all env rqs c)) = c_world c"
proof (induction rqs arbitrary: c)
  case Nil
  then show ?case by simp
next
  case (Cons rq rqs)
  obtain r c1 where r: "send env rq c = (r, c1)" by force
  note f = send_shut [OF Cons.prems, of env rq, unfolded r]
  then have "\<not> valve_open (s_valve (c_sess c1))" using Cons.prems by simp
  moreover obtain rs c2 where "send_all env rqs c1 = (rs, c2)" by force
  ultimately show ?case using Cons.IH [of c1] f r by simp
qed

section \<open>A Prism Central to run against\<close>

text \<open>One that answers every request the same, and keeps nothing.\<close>

definition plain_answer :: "nat \<Rightarrow> response" where
  "plain_answer status = \<lparr>r_status = status, r_headers = \<lambda>_. None, r_set_cookies = [],
     r_body = Inr [], r_body_time = 0\<rparr>"

definition plain_env :: "nat \<Rightarrow> unit env" where
  "plain_env status = \<lparr>execute = \<lambda>w x. (Inr (plain_answer status), 1, x),
     parse_url = \<lambda>s. Inr (lab_url, s), with_query = \<lambda>s q. s, header_ok = \<lambda>_. True, lateness = \<lambda>_. 0,
     request_id = \<lambda>_. ''id'', body_codec = no_codec\<rparr>"

definition lab_profile :: profile where
  "lab_profile = \<lparr>pf_host = ''pc'', pf_port = 9440, pf_username = ''u'', pf_verify_tls = True,
     pf_ca_bundle = None, pf_plain_http = False\<rparr>"

definition lab_client :: "unit client" where
  "lab_client = connect lab_profile 0 ()"

definition lab_request :: request where
  "lab_request = \<lparr>rq_method = Get, rq_template = ''/x'', rq_limit = rate_limit_default,
     rq_url = ''https://pc:9440/api/x'', rq_headers = [], rq_body = None\<rparr>"

lemma lab_sess [simp]: "c_sess lab_client = new_sess" "c_sent lab_client = []"
  by (simp_all add: lab_client_def connect_def)

lemma plain_env_simps [simp]:
  "parse_url (plain_env st) x = Inr (lab_url, x)" "lateness (plain_env st) n = 0"
  "header_ok (plain_env st) x" "body_codec (plain_env st) = no_codec"
  by (simp_all add: plain_env_def)

lemma plain_exec:
  "exec_wire (plain_env status) w c =
     (Inr (plain_answer status), upd_jar (set_cookies (c_origin c) [] (w_parsed w))
        (pass_time 1 (c\<lparr>c_world := c_world c, c_sent := c_sent c @ [w]\<rparr>)))"
  by (simp add: exec_wire_def plain_env_def plain_answer_def)

lemma new_sess_holds: "carry_alone env First new_sess = Some Credential"
  by (simp add: carry_alone_def carry_before_def carry_behind_def new_sess_def empty_jar_def
      usable_def give_up_renewals_def ride_def)

lemma plain_send:
  assumes "st \<noteq> 429" and "c_sess c = new_sess"
  shows "\<exists>d. send (plain_env st) rq c = (Inr (st, \<lambda>_. None, []), d)"
proof -
  obtain paced c1 where c1: "pace (plain_env st) (op_key_of rq) (rq_limit rq) c = (paced, c1)" by force
  have f: "c_sess c1 = new_sess"
    using pace_frame(2) [of "plain_env st" "op_key_of rq" "rq_limit rq" c] c1 assms(2) by simp
  have "\<exists>d. attempt_once (plain_env st) rq First paced c1 = (Inr (Answered st (\<lambda>_. None) []), d)"
    using f new_sess_holds [of "plain_env st"] assms(1)
    by (simp add: attempt_once_def exchange_def once_def Let_def plain_exec conclude_def
        answered_with_def may_carry_def)
      (simp add: plain_answer_def new_sess_def valve_open_def valve_default_def)
  then show ?thesis by (auto simp: send_eq c1)
qed

section \<open>Properties\<close>

text \<open>
  C16: one call of \<open>send\<close> puts at most nine requests on the wire, at most two of them with the
  credential; every one of them proves who it is; and a session cookie without the credential
  rides only to the jar's origin or to a URL the session has already answered on.
\<close>

theorem send_is_bounded:
  "\<exists>ws. c_sent (snd (send env rq c)) = c_sent c @ ws \<and> length ws \<le> 9 \<and>
     length (filter w_credential ws) \<le> 2 \<and>
     set ws \<subseteq> {w. w_credential w} \<union> {w. w_cookie w \<noteq> None \<and>
       (origin_is (c_origin c) (w_parsed w) \<or> w_url w \<in> set (j_ok_urls (s_jar (c_sess c))))}"
proof -
  obtain r d where rd: "send env rq c = (r, d)" by force
  then obtain ws where ws: "sends ws c d" "length ws \<le> 9" "presents_in ws \<le> 2"
    using send_passes_sends [of env rq "[First, Renewing, Authenticate]" c r d] by (auto simp: send_eq)
  then show ?thesis
    using rd by (intro exI [of _ ws]) (auto simp: sends_def wire_fits_def presents_in_def)
qed

text \<open>
  after a request comes back 401, every later request fails at once: nothing more is put on
  the wire and the server is not asked again.
\<close>

theorem first_refusal_is_last:
  assumes "send env rq c = (Inr (401, h, b), d)"
  shows "fst (send_all env rqs d) = replicate (length rqs) (Inl EAuth) \<and>
    c_sent (snd (send_all env rqs d)) = c_sent d \<and> c_world (snd (send_all env rqs d)) = c_world d"
  using send_401 [of env rq "[First, Renewing, Authenticate]" c h b d] assms send_all_shut [of d env rqs]
  by (simp add: send_eq)

theorem first_refusal_is_last_witness:
  "\<exists>d. fst (send_all (plain_env 401) [lab_request, lab_request] d) = [Inl EAuth, Inl EAuth] \<and>
     c_sent (snd (send_all (plain_env 401) [lab_request, lab_request] d)) = c_sent d"
proof -
  obtain d where "send (plain_env 401) lab_request lab_client = (Inr (401, \<lambda>_. None, []), d)"
    using plain_send [of 401 lab_client lab_request] by auto
  then show ?thesis
    using first_refusal_is_last [of "plain_env 401" lab_request lab_client "\<lambda>_. None" "[]" d
        "[lab_request, lab_request]"]
    by (intro exI [of _ d]) (simp add: numeral_2_eq_2)
qed

text \<open>
  the last pass of \<open>send\<close> never comes back as a session that ended, whatever the server
  does: with the credential on it the answer is definitive.
\<close>

theorem authenticate_is_definitive:
  "fst (attempt_once env rq Authenticate paced c) \<noteq> Inr SessionEnded"
  using authenticate_is_last [of env rq paced c] by (cases "attempt_once env rq Authenticate paced c") simp

end
