(* ===== verification/Negotiate.thy ===== *)
theory Negotiate
  imports Send
begin

text \<open>
  Which API version a Prism Central serves (\<open>crates/prism/src/client/negotiate.rs\<close>): one list
  request, the probes that settle a namespace, the pins they leave, the lazy repair of pins that
  came from a restore, and what all of it says about a kind.

  The list request is \<open>list_page_at\<close> of \<open>client/requests.rs\<close> up to the repair, which calls
  back here: a probe names its version and never repairs, so the cycle is cut there. The catalog's
  tables are an argument.
\<close>

record catalog =
  cat_kinds :: "kind list"
  cat_namespaces :: "ns_info list"

section \<open>One list request\<close>

definition page_limit_max :: nat where
  "page_limit_max = 100"

record list_options =
  lo_limit :: nat
  lo_filter :: "string option"
  lo_orderby :: "string option"
  lo_select :: "string option"
  lo_parents :: "string list"

definition list_options_default :: list_options where
  "list_options_default = \<lparr>lo_limit = page_limit_max, lo_filter = None, lo_orderby = None,
     lo_select = None, lo_parents = []\<rparr>"

record page =
  pg_entities :: "entity list"
  pg_total :: "nat option"

definition clamp_limit :: "nat \<Rightarrow> nat" where
  "clamp_limit l = max 1 (min l page_limit_max)"

definition dollar :: "string \<Rightarrow> string" where
  "dollar s = CHR 0x24 # s"

definition list_query :: "kind \<Rightarrow> nat \<Rightarrow> list_options \<Rightarrow> (string \<times> string) list" where
  "list_query k pg opts =
     (let ps = k_list_params k
      in (if lp_page ps then [(dollar ''page'', show_nat pg)] else []) @
         (if lp_limit ps then [(dollar ''limit'', show_nat (clamp_limit (lo_limit opts)))] else []) @
         (case lo_filter opts of
            Some f \<Rightarrow> (if lp_filter ps then [(dollar ''filter'', f)] else []) | None \<Rightarrow> []) @
         (case lo_orderby opts of
            Some ob \<Rightarrow> (if lp_orderby ps then [(dollar ''orderby'', ob)] else []) | None \<Rightarrow> []))"

definition get_request :: "string \<Rightarrow> rate_limit \<Rightarrow> string \<Rightarrow> request" where
  "get_request template l u = \<lparr>rq_method = Get, rq_template = template, rq_limit = l, rq_url = u,
     rq_headers = [], rq_body = None\<rparr>"

definition fetch_page :: "'w env \<Rightarrow> kind \<Rightarrow> string \<Rightarrow> (string \<times> string) list \<Rightarrow> string option
    \<Rightarrow> (page, 'w) io" where
  "fetch_page env k path query select c =
     (let q = query @ (case select of Some s \<Rightarrow> [(dollar ''select'', s)] | None \<Rightarrow> [])
      in case send env (get_request (k_list_path k) (k_rate k) (with_query env (raw_url c path) q)) c of
           (Inl e, c1) \<Rightarrow> (Inl e, c1)
         | (Inr (status, h, body), c1) \<Rightarrow>
             (case ok_answer (body_codec env) status h body path of
                Inl e \<Rightarrow> (Inl e, c1)
              | Inr e \<Rightarrow> (case list_items e of
                    Inl e \<Rightarrow> (Inl e, c1)
                  | Inr (items, tot) \<Rightarrow>
                      (Inr \<lparr>pg_entities = map (\<lambda>v. new_entity k v None) items, pg_total = tot\<rparr>, c1))))"

definition refuse_select :: "kind \<Rightarrow> 'w client \<Rightarrow> 'w client" where
  "refuse_select k c = c\<lparr>c_no_select := insert (k_id k) (c_no_select c)\<rparr>"

definition select_refused :: "'w client \<Rightarrow> kind \<Rightarrow> bool" where
  "select_refused c k \<longleftrightarrow> k_id k \<in> c_no_select c"

definition narrowing_refused :: "prism_error \<Rightarrow> bool" where
  "narrowing_refused e = (case e of EApi s _ _ \<Rightarrow> s = 400 | _ \<Rightarrow> False)"

text \<open>The loop of \<open>list_page_at\<close>: a narrowing the endpoint refuses is given up once.\<close>

definition fetch_narrowed :: "'w env \<Rightarrow> kind \<Rightarrow> string \<Rightarrow> (string \<times> string) list \<Rightarrow> string option
    \<Rightarrow> (page, 'w) io" where
  "fetch_narrowed env k path query select c =
     (case fetch_page env k path query select c of
        (Inr p, c1) \<Rightarrow> (Inr p, c1)
      | (Inl e, c1) \<Rightarrow>
          (if select \<noteq> None \<and> narrowing_refused e
           then fetch_page env k path query None (refuse_select k c1)
           else (Inl e, c1)))"

definition list_page_once :: "'w env \<Rightarrow> kind \<Rightarrow> nat \<Rightarrow> list_options \<Rightarrow> string option \<Rightarrow> (page, 'w) io" where
  "list_page_once env k pg opts version c =
     (case scoped_path k (k_list_path k) (lo_parents opts) None of
        Inl e \<Rightarrow> (Inl e, c)
      | Inr scoped \<Rightarrow>
          (let path = (case version of Some v \<Rightarrow> with_version scoped v | None \<Rightarrow> pinned_path_for c k scoped);
               select = (if lp_select (k_list_params k) \<and> \<not> select_refused c k then lo_select opts else None)
           in fetch_narrowed env k path (list_query k pg opts) select c))"

section \<open>Probing a namespace\<close>

definition probe_candidates_max :: nat where
  "probe_candidates_max = 3"

definition repair_interval :: duration where
  "repair_interval = from_secs 60"

definition down_detail :: "string \<Rightarrow> prism_error \<Rightarrow> string" where
  "down_detail path e = (let txt = error_text e in if sublist path txt then txt else path @ '': '' @ txt)"

text \<open>The sort is stable, so by path and then by length is by length and then path.\<close>

definition probe_candidates :: "catalog \<Rightarrow> ns_info \<Rightarrow> string \<Rightarrow> kind list" where
  "probe_candidates cat ns version =
     take probe_candidates_max
       (sort_key (\<lambda>k. length (k_list_path k)) (sort_key k_list_path
         (filter (\<lambda>k. k_namespace k = n_name ns \<and> is_top_level k \<and> lp_limit (k_list_params k) \<and>
            \<not> lp_required (k_list_params k) \<and> served_at k version) (cat_kinds cat))))"

definition worth_repairing :: "prism_error \<Rightarrow> bool" where
  "worth_repairing e = (case e of ENotFound _ \<Rightarrow> True | EApi s _ _ \<Rightarrow> 500 \<le> s | _ \<Rightarrow> False)"

text \<open>What one probe's error says: the version is there, it is not, the service is down, or the
  negotiation cannot go on.\<close>

datatype probe_verdict = Reachable string | Missing | Down string | Aborts

fun probe_verdict_of :: "string \<Rightarrow> prism_error \<Rightarrow> probe_verdict" where
  "probe_verdict_of path (EForbidden m) = Reachable (''reachable ('' @ path @ '': not permitted for this account)'')"
| "probe_verdict_of path (ENotFound m) = Missing"
| "probe_verdict_of path (EApi s m d) =
     (if s < 500 then Reachable (''reachable ('' @ path @ '': HTTP '' @ show_nat s @ '': '' @ m @ '')'')
      else Down (down_detail path (EApi s m d)))"
| "probe_verdict_of path EAuth = Aborts"
| "probe_verdict_of path (EConnect h m) = Aborts"
| "probe_verdict_of path (ETls m) = Aborts"
| "probe_verdict_of path (ECertificate h r) = Aborts"
| "probe_verdict_of path (ERateLimited d) = Aborts"
| "probe_verdict_of path (ETransport m) = Aborts"
| "probe_verdict_of path e = Down (down_detail path e)"

definition probe_options :: list_options where
  "probe_options = list_options_default\<lparr>lo_limit := 1\<rparr>"

text \<open>The candidates of one version: an early result, or the first reason it is down.\<close>

fun probe_kinds :: "'w env \<Rightarrow> ns_info \<Rightarrow> string \<Rightarrow> kind list \<Rightarrow> string option \<Rightarrow> 'w client
    \<Rightarrow> ((prism_error + ns_status) + string option) \<times> 'w client" where
  "probe_kinds env ns version [] down c = (Inr down, c)"
| "probe_kinds env ns version (k # ks) down c =
     (let path = with_version (k_list_path k) version
      in case list_page_once env k 0 probe_options (Some version) c of
           (Inr _, c1) \<Rightarrow> (Inl (Inr (ns_served ns version (''probed '' @ path))), c1)
         | (Inl e, c1) \<Rightarrow>
             (case probe_verdict_of path e of
                Reachable detail \<Rightarrow> (Inl (Inr (ns_served ns version detail)), c1)
              | Missing \<Rightarrow> probe_kinds env ns version ks down c1
              | Aborts \<Rightarrow> (Inl (Inl e), c1)
              | Down detail \<Rightarrow> probe_kinds env ns version ks (or_else down (Some detail)) c1))"

fun probe_versions :: "'w env \<Rightarrow> catalog \<Rightarrow> ns_info \<Rightarrow> string list \<Rightarrow> bool \<Rightarrow> (ns_status, 'w) io" where
  "probe_versions env cat ns [] probed_any c =
     (Inr (ns_not_served ns (if probed_any then ''not served at '' @ join '', '' (n_versions ns)
        else ''no listable kind in catalog'')), c)"
| "probe_versions env cat ns (v # vs) probed_any c =
     (let ks = probe_candidates cat ns v
      in case probe_kinds env ns v ks None c of
           (Inl r, c1) \<Rightarrow> (r, c1)
         | (Inr (Some detail), c1) \<Rightarrow> (Inr (ns_down ns v detail), c1)
         | (Inr None, c1) \<Rightarrow> probe_versions env cat ns vs (probed_any \<or> ks \<noteq> []) c1)"

definition probe_namespace :: "'w env \<Rightarrow> catalog \<Rightarrow> ns_info \<Rightarrow> (ns_status, 'w) io" where
  "probe_namespace env cat ns = probe_versions env cat ns (n_versions ns) False"

section \<open>Negotiating\<close>

definition adopt_pins :: "catalog \<Rightarrow> (string \<times> string) list \<Rightarrow> ns_status list \<Rightarrow> 'w client \<Rightarrow> 'w client" where
  "adopt_pins cat pins statuses c =
     (let resolved = map_of (rev (filter (\<lambda>(name, version).
            case namespace_of (cat_namespaces cat) name of
              None \<Rightarrow> False | Some ns \<Rightarrow> version \<in> set (n_versions ns)) pins));
          kept = filter ns_ok statuses
      in c\<lparr>c_pins := resolved, c_statuses := kept,
           c_adopted := set (filter (\<lambda>n. resolved n \<noteq> None \<or> n \<notin> ns_name ` set kept)
             (map n_name (cat_namespaces cat)))\<rparr>)"

definition negotiate_namespace :: "'w env \<Rightarrow> catalog \<Rightarrow> string \<Rightarrow> (ns_status, 'w) io" where
  "negotiate_namespace env cat name c =
     (case namespace_of (cat_namespaces cat) name of
        None \<Rightarrow> (Inl (ECatalog (''no namespace '' @ name)), c)
      | Some ns \<Rightarrow>
          (case probe_namespace env cat ns c of
             (Inl e, c1) \<Rightarrow> (Inl e, c1)
           | (Inr status, c1) \<Rightarrow> (Inr status,
               c1\<lparr>c_pins := (c_pins c1)(n_name ns := ns_pinned status),
                  c_statuses := filter (\<lambda>s. ns_name s \<noteq> n_name ns) (c_statuses c1) @ [status],
                  c_adopted := c_adopted c1 - {n_name ns}\<rparr>)))"

text \<open>The probes of \<open>negotiate\<close> run a few at a time; here they run in their order, in which their
  results are taken too.\<close>

fun probe_all :: "'w env \<Rightarrow> catalog \<Rightarrow> ns_info list \<Rightarrow> (ns_status list, 'w) io" where
  "probe_all env cat [] c = (Inr [], c)"
| "probe_all env cat (ns # nss) c =
     (case probe_namespace env cat ns c of
        (Inl e, c1) \<Rightarrow> (Inl e, c1)
      | (Inr st, c1) \<Rightarrow> (case probe_all env cat nss c1 of
            (Inl e, c2) \<Rightarrow> (Inl e, c2)
          | (Inr sts, c2) \<Rightarrow> (Inr (st # sts), c2)))"

definition pins_of :: "ns_status list \<Rightarrow> string \<Rightarrow> string option" where
  "pins_of sts = map_of (rev (List.map_filter (\<lambda>s. map_option (\<lambda>p. (ns_name s, p)) (ns_pinned s)) sts))"

definition negotiate :: "'w env \<Rightarrow> catalog \<Rightarrow> (ns_status list, 'w) io" where
  "negotiate env cat c =
     (case probe_all env cat (cat_namespaces cat) c of
        (Inl e, c1) \<Rightarrow> (Inl e, c1)
      | (Inr sts, c1) \<Rightarrow> (Inr sts, c1\<lparr>c_pins := pins_of sts, c_statuses := sts, c_adopted := {}\<rparr>))"

definition repair_after :: "'w env \<Rightarrow> catalog \<Rightarrow> string \<Rightarrow> prism_error \<Rightarrow> 'w client \<Rightarrow> 'w client" where
  "repair_after env cat namespace e c =
     (if \<not> worth_repairing e then c
      else if namespace \<notin> c_adopted c then c
      else case c_repaired c namespace of
          Some prev \<Rightarrow> (if c_now c - prev < repair_interval then c
            else snd (negotiate_namespace env cat namespace
              (c\<lparr>c_repaired := (c_repaired c)(namespace \<mapsto> c_now c)\<rparr>)))
        | None \<Rightarrow> snd (negotiate_namespace env cat namespace
              (c\<lparr>c_repaired := (c_repaired c)(namespace \<mapsto> c_now c)\<rparr>)))"

section \<open>What is served\<close>

definition namespace_availability :: "'w client \<Rightarrow> string \<Rightarrow> availability" where
  "namespace_availability c namespace =
     (case find (\<lambda>s. ns_name s = namespace) (c_statuses c) of
        Some s \<Rightarrow> (if ns_pinned s \<noteq> None \<and> ns_ok s then Served else NamespaceUnavailable (ns_detail s))
      | None \<Rightarrow> (if namespace \<in> c_adopted c then Served else NamespaceUnavailable ''not negotiated''))"

definition version_availability :: "'w client \<Rightarrow> kind \<Rightarrow> availability" where
  "version_availability c k =
     (case c_pins c (k_namespace k) of
        Some pinned \<Rightarrow> (if \<not> served_at k pinned \<and> k_id k \<notin> c_asked c
          then NotServedAtPin (k_namespace k) (k_since k) pinned else Served)
      | None \<Rightarrow> Served)"

definition kind_availability :: "'w client \<Rightarrow> kind \<Rightarrow> availability" where
  "kind_availability c k =
     (case namespace_availability c (k_namespace k) of Served \<Rightarrow> version_availability c k | down \<Rightarrow> down)"

definition list_availability :: "'w client \<Rightarrow> kind \<Rightarrow> availability" where
  "list_availability c k =
     (case kind_availability c k of
        Served \<Rightarrow> (if k_id k \<in> c_missing c then ListNotFound else Served) | verdict \<Rightarrow> verdict)"

definition is_served :: "'w client \<Rightarrow> kind \<Rightarrow> bool" where
  "is_served c k \<longleftrightarrow> list_availability c k = Served"

definition ask_anyway :: "kind \<Rightarrow> 'w client \<Rightarrow> 'w client" where
  "ask_anyway k c = c\<lparr>c_asked := insert (k_id k) (c_asked c)\<rparr>"

definition mark_missing :: "kind \<Rightarrow> 'w client \<Rightarrow> 'w client" where
  "mark_missing k c = c\<lparr>c_missing := insert (k_id k) (c_missing c)\<rparr>"

definition forget_missing :: "kind \<Rightarrow> 'w client \<Rightarrow> 'w client" where
  "forget_missing k c = c\<lparr>c_missing := c_missing c - {k_id k}\<rparr>"

section \<open>What a request leaves alone\<close>

text \<open>Everything negotiation settles: a request changes none of it.\<close>

definition routing :: "'w client \<Rightarrow> (string \<Rightarrow> string option) \<times> ns_status list \<times> string set \<times>
    (string \<Rightarrow> instant option) \<times> string set \<times> string set" where
  "routing c = (c_pins c, c_statuses c, c_adopted c, c_repaired c, c_missing c, c_asked c)"

lemma routing_simps [simp]:
  "routing (upd_metrics f c) = routing c" "routing (upd_buckets g c) = routing c"
  "routing (pass_time d c) = routing c" "routing (upd_sess h c) = routing c"
  "routing (upd_jar k c) = routing c" "routing (trace m u who b p st c) = routing c"
  "routing (refused_call t c) = routing c" "routing (drained rq d c) = routing c"
  "routing (refuse_select kd c) = routing c"
  by (simp_all add: routing_def upd_metrics_def upd_buckets_def pass_time_def upd_sess_def upd_jar_def
      trace_def refused_call_def drained_def refuse_select_def)

lemma routing_pace: "routing (snd (pace env k l c)) = routing c"
  by (auto simp: routing_def pace_def split: option.splits)

lemma routing_exec: "exec_wire env w c = (r, d) \<Longrightarrow> routing d = routing c"
  by (auto simp: exec_wire_def Let_def split: prod.splits sum.splits) (simp_all add: routing_def pass_time_def)

lemma routing_once: "once env rq cr parsed u paced c = (r, d) \<Longrightarrow> routing d = routing c"
  by (auto simp: once_def Let_def dest!: routing_exec split: prod.splits sum.splits)

lemma routing_exchange: "exchange env rq cr parsed u paced c = (r, d) \<Longrightarrow> routing d = routing c"
  by (auto simp: exchange_def Let_def dest!: routing_once split: prod.splits sum.splits if_splits)

lemma routing_alive: "session_alive env k nu c = (a, d) \<Longrightarrow> routing d = routing c"
  by (auto simp: session_alive_def Let_def routing_pace dest!: routing_exec
      split: prod.splits sum.splits option.splits)

lemma routing_answered: "answered_with env rq cr u paced resp began c = (r, d) \<Longrightarrow> routing d = routing c"
  by (auto simp: answered_with_def Let_def split: sum.splits if_splits)

lemma routing_refused: "refused_on_session env rq g k u paced resp began c = (r, d) \<Longrightarrow> routing d = routing c"
  by (auto simp: refused_on_session_def Let_def dest!: routing_alive split: prod.splits if_splits)

lemma routing_conclude: "conclude env rq cr u paced resp began c = (r, d) \<Longrightarrow> routing d = routing c"
  by (auto simp: conclude_def dest: routing_answered routing_refused split: carry.splits if_splits)

lemma routing_attempt: "attempt_once env rq p paced c = (r, d) \<Longrightarrow> routing d = routing c"
  by (auto simp: attempt_once_def dest!: routing_exchange routing_conclude
      split: if_splits option.splits sum.splits prod.splits)

lemma routing_passes: "send_passes env rq ps c = (r, d) \<Longrightarrow> routing d = routing c"
proof (induction ps arbitrary: c)
  case Nil
  then show ?case by simp
next
  case (Cons p ps)
  obtain paced c1 where c1: "pace env (op_key_of rq) (rq_limit rq) c = (paced, c1)" by force
  obtain x c2 where x: "attempt_once env rq p paced c1 = (x, c2)" by force
  have "routing c2 = routing c"
    using routing_attempt [OF x] routing_pace [of env "op_key_of rq" "rq_limit rq" c] c1 by simp
  then show ?case using Cons c1 x by (auto split: sum.splits attempt.splits)
qed

lemma routing_send: "send env rq c = (r, d) \<Longrightarrow> routing d = routing c"
  by (auto simp: send_def dest: routing_passes)

lemma routing_fetch: "fetch_page env k path q sel c = (r, d) \<Longrightarrow> routing d = routing c"
  by (auto simp: fetch_page_def Let_def dest!: routing_send split: prod.splits sum.splits)

lemma routing_narrowed: "fetch_narrowed env k path q sel c = (r, d) \<Longrightarrow> routing d = routing c"
  by (auto simp: fetch_narrowed_def dest!: routing_fetch split: prod.splits sum.splits if_splits)

lemma routing_list: "list_page_once env k pg opts v c = (r, d) \<Longrightarrow> routing d = routing c"
  by (auto simp: list_page_once_def Let_def dest: routing_narrowed split: sum.splits)

lemma routing_probe_kinds: "probe_kinds env ns v ks down c = (r, d) \<Longrightarrow> routing d = routing c"
proof (induction ks arbitrary: down c)
  case Nil
  then show ?case by simp
next
  case (Cons k ks)
  obtain x c1 where x: "list_page_once env k 0 probe_options (Some v) c = (x, c1)" by force
  have "routing c1 = routing c" by (rule routing_list [OF x])
  then show ?case using Cons x by (auto simp: Let_def split: sum.splits probe_verdict.splits)
qed

lemma routing_probe_versions: "probe_versions env cat ns vs pa c = (r, d) \<Longrightarrow> routing d = routing c"
proof (induction vs arbitrary: pa c)
  case Nil
  then show ?case by simp
next
  case (Cons v vs)
  obtain x c1 where x: "probe_kinds env ns v (probe_candidates cat ns v) None c = (x, c1)" by force
  have "routing c1 = routing c" by (rule routing_probe_kinds [OF x])
  then show ?case using Cons x by (auto simp: Let_def split: sum.splits option.splits)
qed

section \<open>A catalog to run against\<close>

definition lab_kind :: kind where
  "lab_kind = \<lparr>k_id = ''vmm.Vm'', k_namespace = ''vmm'', k_version = ''v4.3'', k_since = ''v4.0'',
     k_display = ''VMs'', k_aliases = [''vm''], k_poll_secs = 30, k_list_path = ''/vmm/v4.3/vms'',
     k_get_path = None,
     k_list_params = \<lparr>lp_page = True, lp_limit = True, lp_filter = True, lp_orderby = True,
       lp_select = True, lp_required = False\<rparr>,
     k_orderby = None, k_probe_by = None, k_max_rows = None, k_parent = None, k_actions = [], k_action_kind = None, k_action_parents = [],
     k_rate = rate_limit_default, k_select = None, k_ext_id_key = ''extId'', k_name_path = [], k_warm = False,
     k_status_roles = []\<rparr>"

definition lab_ns :: ns_info where
  "lab_ns = \<lparr>n_name = ''vmm'', n_version = ''v4.3'', n_versions = [''v4.3'', ''v4.0'']\<rparr>"

definition lab_catalog :: catalog where
  "lab_catalog = \<lparr>cat_kinds = [lab_kind], cat_namespaces = [lab_ns]\<rparr>"

lemma lab_scoped: "scoped_path lab_kind (k_list_path lab_kind) [] None = Inr ''/vmm/v4.3/vms''"
  by (simp add: scoped_path_def lab_kind_def fill_placeholders_def placeholder_count_def fill_loop.simps)

lemma plain_list_403:
  assumes "c_sess c = new_sess"
  shows "\<exists>m d. list_page_once (plain_env 403) lab_kind 0 probe_options (Some v) c = (Inl (EForbidden m), d)"
proof -
  have f: "\<exists>m d. fetch_page (plain_env 403) lab_kind path q sel c = (Inl (EForbidden m), d)" for path q sel
  proof -
    let ?q = "q @ (case sel of Some s \<Rightarrow> [(dollar ''select'', s)] | None \<Rightarrow> [])"
    obtain d where "send (plain_env 403) (get_request (k_list_path lab_kind) (k_rate lab_kind)
        (with_query (plain_env 403) (raw_url c path) ?q)) c = (Inr (403, \<lambda>_. None, []), d)"
      using plain_send [OF _ assms, of 403] by force
    then show ?thesis by (simp add: fetch_page_def Let_def ok_answer_def)
  qed
  have "\<exists>m d. fetch_narrowed (plain_env 403) lab_kind path q sel c = (Inl (EForbidden m), d)" for path q sel
  proof -
    obtain m d where "fetch_page (plain_env 403) lab_kind path q sel c = (Inl (EForbidden m), d)"
      using f by blast
    then show ?thesis by (simp add: fetch_narrowed_def narrowing_refused_def)
  qed
  then show ?thesis
    using lab_scoped by (simp add: list_page_once_def probe_options_def list_options_default_def)
qed

section \<open>What a probe says\<close>

definition status_fits :: "ns_info \<Rightarrow> string list \<Rightarrow> ns_status \<Rightarrow> bool" where
  "status_fits ns vs st \<longleftrightarrow> ns_name st = n_name ns \<and> \<not> ns_restored st \<and>
     (case ns_pinned st of None \<Rightarrow> \<not> ns_ok st | Some v \<Rightarrow> v \<in> set vs)"

lemma probe_kinds_status:
  "probe_kinds env ns v ks down c = (Inl (Inr st), d) \<Longrightarrow> \<exists>detail. st = ns_served ns v detail"
proof (induction ks arbitrary: down c)
  case Nil
  then show ?case by simp
next
  case (Cons k ks)
  then show ?case
    by (auto simp: Let_def split: sum.splits prod.splits probe_verdict.splits)
qed

lemma probe_versions_status:
  "probe_versions env cat ns vs pa c = (Inr st, d) \<Longrightarrow> status_fits ns vs st"
proof (induction vs arbitrary: pa c)
  case Nil
  then show ?case by (auto simp: status_fits_def ns_not_served_def)
next
  case (Cons v vs)
  obtain x c1 where x: "probe_kinds env ns v (probe_candidates cat ns v) None c = (x, c1)" by force
  show ?case
  proof (cases x)
    case (Inl r)
    then obtain detail where "st = ns_served ns v detail"
      using Cons.prems x probe_kinds_status [of env ns v _ None c st c1] by (auto simp: Let_def)
    then show ?thesis by (simp add: status_fits_def ns_served_def)
  next
    case (Inr down)
    show ?thesis
    proof (cases down)
      case None
      then have "status_fits ns vs st" using Cons x Inr by (simp add: Let_def)
      then show ?thesis by (auto simp: status_fits_def split: option.splits)
    next
      case (Some detail)
      then have "st = ns_down ns v detail" using Cons.prems x Inr by (simp add: Let_def)
      then show ?thesis by (simp add: status_fits_def ns_down_def)
    qed
  qed
qed

lemma namespace_of_name: "namespace_of nss name = Some ns \<Longrightarrow> n_name ns = name \<and> ns \<in> set nss"
  unfolding namespace_of_def by (drule find_Some_in) simp

text \<open>A probe answered 401 while its session still answers elsewhere is about this account, yet it
  is read as the service being down, where the same verdict as a 403 is read as reachable.\<close>

lemma denied_probe_reads_as_down:
  "probe_verdict_of path (EDenied m) = Down (down_detail path (EDenied m)) \<and>
   probe_verdict_of path (EForbidden m) = Reachable (''reachable ('' @ path @ '': not permitted for this account)'')"
  by simp

section \<open>Properties\<close>


lemma lab_candidates: "probe_candidates lab_catalog lab_ns ''v4.3'' = [lab_kind]"
proof -
  have "served_at lab_kind ''v4.3''"
    by (simp add: served_at_def lab_kind_def version_key_def strip_prefix_def parse_or_zero_def
        parse_uint_def digit_val_def u64_max_def)
  then show ?thesis
    by (simp add: probe_candidates_def lab_catalog_def lab_ns_def probe_candidates_max_def is_top_level_def)
      (simp add: lab_kind_def)
qed


text \<open>
  C18: the lazy repair cannot become a storm: it sends nothing and changes nothing unless the
  failure is worth it, the namespace's pin came from a restore, and the last repair of that
  namespace is at least a minute old; and when it runs it remembers that it did.
\<close>

theorem repair_is_rate_limited:
  "repair_after env cat ns e c = c \<or>
   worth_repairing e \<and> ns \<in> c_adopted c \<and>
     (case c_repaired c ns of None \<Rightarrow> True | Some t \<Rightarrow> repair_interval \<le> c_now c - t) \<and>
     c_repaired (repair_after env cat ns e c) = (c_repaired c)(ns \<mapsto> c_now c)"
proof -
  let ?c = "c\<lparr>c_repaired := (c_repaired c)(ns \<mapsto> c_now c)\<rparr>"
  have "c_repaired (snd (negotiate_namespace env cat ns ?c)) = (c_repaired c)(ns \<mapsto> c_now c)"
  proof (cases "namespace_of (cat_namespaces cat) ns")
    case None
    then show ?thesis by (simp add: negotiate_namespace_def)
  next
    case (Some info)
    obtain x d where x: "probe_namespace env cat info ?c = (x, d)" by force
    have "routing d = routing ?c" using x by (auto simp: probe_namespace_def dest: routing_probe_versions)
    then have "c_repaired d = (c_repaired c)(ns \<mapsto> c_now c)" by (simp add: routing_def)
    then show ?thesis using Some x by (cases x) (simp_all add: negotiate_namespace_def)
  qed
  then show ?thesis by (auto simp: repair_after_def split: option.splits)
qed

end
