(* ===== verification/Requests.thy ===== *)
theory Requests
  imports Negotiate
begin

text \<open>
  The requests a caller makes (\<open>crates/prism/src/client/requests.rs\<close>): lists a page at a time
  and whole, gets, actions with their conditional header, full-replace updates, and resolving a
  cluster's name.

  Pages that \<open>list_all\<close> fetches side by side are fetched in their order here, which is the order
  it keeps them in.
\<close>

section \<open>Lists\<close>

definition list_page_at :: "'w env \<Rightarrow> catalog \<Rightarrow> kind \<Rightarrow> nat \<Rightarrow> list_options \<Rightarrow> string option
    \<Rightarrow> (page, 'w) io" where
  "list_page_at env cat k pg opts version c =
     (case list_page_once env k pg opts version c of
        (Inr p, c1) \<Rightarrow> (Inr p, c1)
      | (Inl e, c1) \<Rightarrow> (Inl e,
          if version = None then repair_after env cat (k_namespace k) e c1 else c1))"

definition list_page :: "'w env \<Rightarrow> catalog \<Rightarrow> kind \<Rightarrow> nat \<Rightarrow> list_options \<Rightarrow> (page, 'w) io" where
  "list_page env cat k pg opts = list_page_at env cat k pg opts None"

definition max_pages :: nat where
  "max_pages = 10000"

text \<open>The pages named, in order, up to the first error.\<close>

fun fetch_each :: "(nat \<Rightarrow> (page, 'w) io) \<Rightarrow> nat list \<Rightarrow> (entity list, 'w) io" where
  "fetch_each fetch [] c = (Inr [], c)"
| "fetch_each fetch (p # ps) c =
     (case fetch p c of
        (Inl e, c1) \<Rightarrow> (Inl e, c1)
      | (Inr pg, c1) \<Rightarrow> (case fetch_each fetch ps c1 of
            (Inl e, c2) \<Rightarrow> (Inl e, c2)
          | (Inr es, c2) \<Rightarrow> (Inr (pg_entities pg @ es), c2)))"

text \<open>Without a total: one page at a time until a short or an empty one.\<close>

function walk_pages :: "(nat \<Rightarrow> (page, 'w) io) \<Rightarrow> string \<Rightarrow> nat \<Rightarrow> nat \<Rightarrow> entity list \<Rightarrow> (entity list, 'w) io"
  where
  "walk_pages fetch kid lmt page all c =
     (if length all mod lmt = 0 \<and> all \<noteq> [] then
        (if max_pages \<le> page then (Inl (EDecode (kid @ '' returned more than '' @ show_nat max_pages @
            '' pages without a total'')), c)
         else case fetch page c of
             (Inl e, c1) \<Rightarrow> (Inl e, c1)
           | (Inr pg, c1) \<Rightarrow> (if pg_entities pg = [] then (Inr all, c1)
               else walk_pages fetch kid lmt (Suc page) (all @ pg_entities pg) c1))
      else (Inr all, c))"
  by pat_completeness auto
termination
  by (relation "measure (\<lambda>(fetch, kid, lmt, page, all, c). max_pages - page)") auto

declare walk_pages.simps [simp del]

definition list_all_with :: "bool \<Rightarrow> string \<Rightarrow> nat \<Rightarrow> (nat \<Rightarrow> (page, 'w) io) \<Rightarrow> (entity list, 'w) io" where
  "list_all_with paged kid lmt fetch c =
     (case fetch 0 c of
        (Inl e, c1) \<Rightarrow> (Inl e, c1)
      | (Inr first, c1) \<Rightarrow>
          (if \<not> paged then (Inr (pg_entities first), c1)
           else case pg_total first of
               Some tot \<Rightarrow> (if lmt < tot then
                   (let pages = page_count tot lmt
                    in if max_pages < pages
                       then (Inl (EDecode (kid @ '' reported '' @ show_nat tot @ '' rows, which is more than '' @
                         show_nat max_pages @ '' pages'')), c1)
                       else (case fetch_each fetch [1..<pages] c1 of
                           (Inl e, c2) \<Rightarrow> (Inl e, c2)
                         | (Inr es, c2) \<Rightarrow> (Inr (pg_entities first @ es), c2)))
                 else (Inr (pg_entities first), c1))
             | None \<Rightarrow> walk_pages fetch kid lmt 1 (pg_entities first) c1))"

definition list_all :: "'w env \<Rightarrow> catalog \<Rightarrow> kind \<Rightarrow> list_options \<Rightarrow> (entity list, 'w) io" where
  "list_all env cat k opts =
     list_all_with (lp_page (k_list_params k)) (k_id k) (clamp_limit (lo_limit opts))
       (\<lambda>p. list_page env cat k p opts)"

section \<open>Resolving a cluster\<close>

record cluster_ref =
  cr_ext_id :: string
  cr_name :: string

definition pick_cluster :: "string \<Rightarrow> entity list \<Rightarrow> prism_error + cluster_ref" where
  "pick_cluster name clusters =
     (let exact = filter (\<lambda>c. e_name c = name) clusters;
          matches = (if exact = [] then filter (\<lambda>c. eq_ignore_ascii_case (e_name c) name) clusters else exact)
      in case matches of
           [] \<Rightarrow> Inl (EUnresolved (''cluster '' @ debug_str name @ '' not found; known: '' @ name_and_id clusters))
         | [one] \<Rightarrow> Inr \<lparr>cr_ext_id = e_ext_id one, cr_name = e_name one\<rparr>
         | many \<Rightarrow> Inl (EAmbiguous (''cluster '' @ debug_str name @ '' is ambiguous: '' @ name_and_id many)))"

definition resolve_cluster :: "'w env \<Rightarrow> catalog \<Rightarrow> string \<Rightarrow> (cluster_ref, 'w) io" where
  "resolve_cluster env cat name c =
     (case kind_of_id (cat_kinds cat) ''clustermgmt.config.Cluster'' of
        None \<Rightarrow> (Inl (ECatalog ''catalog has no cluster kind''), c)
      | Some k \<Rightarrow> (case list_all env cat k list_options_default c of
            (Inl e, c1) \<Rightarrow> (Inl e, c1)
          | (Inr clusters, c1) \<Rightarrow> (pick_cluster name clusters, c1)))"

section \<open>Gets\<close>

definition strong_etag :: "headers \<Rightarrow> string option" where
  "strong_etag h = (case h ''etag'' of
       Some (Some v) \<Rightarrow> Some (case strip_prefix ''W/'' v of Some s \<Rightarrow> s | None \<Rightarrow> v)
     | _ \<Rightarrow> None)"

definition get_in :: "'w env \<Rightarrow> kind \<Rightarrow> string list \<Rightarrow> string \<Rightarrow> (entity, 'w) io" where
  "get_in env k parents ext_id c =
     (case k_get_path k of
        None \<Rightarrow> (Inl (ECatalog (k_id k @ '' has no get endpoint'')), c)
      | Some template \<Rightarrow>
          (case scoped_path k template parents (Some ext_id) of
             Inl e \<Rightarrow> (Inl e, c)
           | Inr filled \<Rightarrow>
               (let path = pinned_path_for c k filled
                in case send env (get_request template (k_rate k) (raw_url c path)) c of
                     (Inl e, c1) \<Rightarrow> (Inl e, c1)
                   | (Inr (status, h, body), c1) \<Rightarrow>
                       (case ok_answer (body_codec env) status h body path of
                          Inl e \<Rightarrow> (Inl e, c1)
                        | Inr e \<Rightarrow> (case envelope_one e of
                              Inl er \<Rightarrow> (Inl er, c1)
                            | Inr v \<Rightarrow> (Inr (new_entity k v (strong_etag h)), c1))))))"

definition get_path_template :: string where
  "get_path_template = ''GET (path)''"

definition get_path :: "'w env \<Rightarrow> string \<Rightarrow> (json, 'w) io" where
  "get_path env path0 c =
     (let path = pinned_path c path0
      in case send env (get_request get_path_template rate_limit_default (raw_url c path)) c of
           (Inl e, c1) \<Rightarrow> (Inl e, c1)
         | (Inr (status, h, body), c1) \<Rightarrow>
             (case ok_answer (body_codec env) status h body path of
                Inl e \<Rightarrow> (Inl e, c1)
              | Inr e \<Rightarrow> (envelope_one e, c1)))"

section \<open>Actions\<close>

text \<open>The validator of the conditional request: the one in hand, or a read's own.\<close>

definition etag_for :: "'w env \<Rightarrow> kind \<Rightarrow> string list \<Rightarrow> string \<Rightarrow> string \<Rightarrow> string option \<Rightarrow> (string, 'w) io" where
  "etag_for env k parents ext_id action etag c =
     (case etag of
        Some tag \<Rightarrow> (Inr tag, c)
      | None \<Rightarrow> (case get_in env k parents ext_id c of
            (Inl (ENotFound m), c1) \<Rightarrow> (Inl (ENotFound (k_id k @ '' '' @ ext_id @ '' (before '' @ action @ ''): '' @ m)), c1)
          | (Inl e, c1) \<Rightarrow> (Inl e, c1)
          | (Inr current, c1) \<Rightarrow> (case e_etag current of
                None \<Rightarrow> (Inl (missing_etag k ext_id), c1)
              | Some tag \<Rightarrow> (Inr tag, c1))))"

definition act_request :: "'w env \<Rightarrow> action \<Rightarrow> string \<Rightarrow> string option \<Rightarrow> json option \<Rightarrow> 'w client \<Rightarrow> request" where
  "act_request env a u etag body c =
     \<lparr>rq_method = a_method a, rq_template = a_path a, rq_limit = a_rate a, rq_url = u,
      rq_headers = [(''NTNX-Request-Id'', request_id env (c_world c))] @
        (case etag of Some tag \<Rightarrow> [(''if-match'', tag)] | None \<Rightarrow> []),
      rq_body = body\<rparr>"

definition act_send :: "'w env \<Rightarrow> kind \<Rightarrow> action \<Rightarrow> string \<Rightarrow> string \<Rightarrow> string option \<Rightarrow> json option
    \<Rightarrow> (action_result, 'w) io" where
  "act_send env k a ext_id path etag body c =
     (case send env (act_request env a (raw_url c path) etag body c) c of
        (Inl e, c1) \<Rightarrow> (Inl e, c1)
      | (Inr (status, h, resp), c1) \<Rightarrow>
          (if status = 412 then (Inl (EConflict (k_id k) ext_id (a_name a)), c1)
           else case ok_answer (body_codec env) status h resp path of
               Inl e \<Rightarrow> (Inl e, c1)
             | Inr e \<Rightarrow> (Inr (result_of (a_returns a) (env_data e)), c1)))"

definition act_with_etag :: "'w env \<Rightarrow> kind \<Rightarrow> string list \<Rightarrow> string \<Rightarrow> string \<Rightarrow> json option \<Rightarrow> string option
    \<Rightarrow> (action_result, 'w) io" where
  "act_with_etag env k parents ext_id action body etag c =
     (case kind_action k action of
        None \<Rightarrow> (Inl (ECatalog (k_id k @ '' has no action '' @ action)), c)
      | Some a \<Rightarrow>
          (if a_needs_body a \<and> body = None
           then (Inl (ECatalog (action @ '' on '' @ k_id k @ '' requires a request body'')), c)
           else if \<not> a_takes_body a \<and> body \<noteq> None
           then (Inl (ECatalog (action @ '' on '' @ k_id k @ '' takes no request body'')), c)
           else case scoped_path k (a_path a) parents (if names_entity a then Some ext_id else None) of
               Inl (ECatalog m) \<Rightarrow> (Inl (ECatalog (action @ '' on '' @ m)), c)
             | Inl e \<Rightarrow> (Inl e, c)
             | Inr filled \<Rightarrow>
                 (let path = pinned_path_for c k filled
                  in if a_needs_etag a then
                       (case etag_for env k parents ext_id action etag c of
                          (Inl e, c1) \<Rightarrow> (Inl e, c1)
                        | (Inr tag, c1) \<Rightarrow> act_send env k a ext_id path (Some tag) body c1)
                     else act_send env k a ext_id path None body c)))"

definition act :: "'w env \<Rightarrow> kind \<Rightarrow> string list \<Rightarrow> string \<Rightarrow> string \<Rightarrow> json option \<Rightarrow> (action_result, 'w) io" where
  "act env k parents ext_id action body = act_with_etag env k parents ext_id action body None"

definition delete_entity :: "'w env \<Rightarrow> kind \<Rightarrow> string list \<Rightarrow> string \<Rightarrow> (action_result, 'w) io" where
  "delete_entity env k parents ext_id = act env k parents ext_id ''delete'' None"

definition read_only_keys :: "string list" where
  "read_only_keys = [dollar ''objectType'', dollar ''reserved'', dollar ''metadata'', ''extId'', ''links'',
     ''tenantId'', ''createdBy'', ''creationTime'', ''lastModifiedTime'']"

definition update_body :: "(string \<times> json) list \<Rightarrow> (string \<times> json) list \<Rightarrow> (string \<times> json) list" where
  "update_body current changes = map_remove_all read_only_keys (map_extend current changes)"

definition update :: "'w env \<Rightarrow> kind \<Rightarrow> string list \<Rightarrow> string \<Rightarrow> json \<Rightarrow> (action_result, 'w) io" where
  "update env k parents ext_id changes c =
     (case changes of
        JObj ch \<Rightarrow>
          (case get_in env k parents ext_id c of
             (Inl e, c1) \<Rightarrow> (Inl e, c1)
           | (Inr current, c1) \<Rightarrow>
               (case e_etag current of
                  None \<Rightarrow> (Inl (missing_etag k ext_id), c1)
                | Some tag \<Rightarrow>
                    (case e_raw current of
                       JObj m \<Rightarrow> act_with_etag env k parents ext_id ''update''
                         (Some (JObj (update_body m ch))) (Some tag) c1
                     | _ \<Rightarrow> (Inl (EDecode (k_id k @ '' '' @ ext_id @ '' is not an object'')), c1))))
      | _ \<Rightarrow> (Inl (ECatalog (k_id k @ '' '' @ ext_id @ '': update changes must be a JSON object'')), c))"

section \<open>Who this Prism Central is\<close>

definition pc_identity_result :: "'w env \<Rightarrow> catalog \<Rightarrow> ((string \<times> string option) option, 'w) io" where
  "pc_identity_result env cat c =
     (case kind_of_id (cat_kinds cat) ''prism.config.DomainManager'' of
        None \<Rightarrow> (Inr None, c)
      | Some k \<Rightarrow> (case list_page env cat k 0 probe_options c of
            (Inl e, c1) \<Rightarrow> (Inl e, c1)
          | (Inr pg, c1) \<Rightarrow> (case pg_entities pg of
                [] \<Rightarrow> (Inr None, c1)
              | first # _ \<Rightarrow>
                  (if e_ext_id first = [] then (Inr None, c1)
                   else (Inr (Some (e_ext_id first, opt_str (Option.bind (Option.bind
                     (jget ''config'' (e_raw first)) (jget ''buildInfo'')) (jget ''version'')))), c1)))))"

definition pc_identity :: "'w env \<Rightarrow> catalog \<Rightarrow> 'w client \<Rightarrow> (string \<times> string option) option \<times> 'w client" where
  "pc_identity env cat c = (case pc_identity_result env cat c of
       (Inl e, c1) \<Rightarrow> (None, c1) | (Inr r, c1) \<Rightarrow> (r, c1))"

section \<open>Whole lists\<close>

text \<open>The rows a server that keeps \<open>xs\<close> answers page \<open>p\<close> with.\<close>

definition slice :: "nat \<Rightarrow> 'a list \<Rightarrow> nat \<Rightarrow> 'a list" where
  "slice lmt xs p = take lmt (drop (p * lmt) xs)"

text \<open>\<open>fetch\<close> answers every page with its rows and the total, from whatever state.\<close>

definition serves :: "nat \<Rightarrow> entity list \<Rightarrow> nat option \<Rightarrow> (nat \<Rightarrow> (page, 'w) io) \<Rightarrow> bool" where
  "serves lmt xs tot fetch \<longleftrightarrow>
     (\<forall>p c. \<exists>d. fetch p c = (Inr \<lparr>pg_entities = slice lmt xs p, pg_total = tot\<rparr>, d))"

lemma serves_fetch:
  assumes "serves lmt xs tot fetch"
  obtains d where "fetch p c = (Inr \<lparr>pg_entities = slice lmt xs p, pg_total = tot\<rparr>, d)"
  using assms by (auto simp: serves_def)

lemma concat_slices: "concat (map (slice lmt xs) [0..<n]) = take (n * lmt) xs"
proof (induction n)
  case 0
  then show ?case by simp
next
  case (Suc n)
  have "concat (map (slice lmt xs) [0..<Suc n]) = take (n * lmt) xs @ take lmt (drop (n * lmt) xs)"
    using Suc by (simp add: slice_def [of lmt xs n])
  also have "\<dots> = take (n * lmt + lmt) xs" by (simp only: take_add)
  also have "n * lmt + lmt = Suc n * lmt" by simp
  finally show ?case .
qed

lemma fetch_each_serves:
  "serves lmt xs tot fetch \<Longrightarrow>
    \<exists>d. fetch_each fetch ps c = (Inr (concat (map (slice lmt xs) ps)), d)"
proof (induction ps arbitrary: c)
  case Nil
  then show ?case by simp
next
  case (Cons p ps)
  obtain d where d: "fetch p c = (Inr \<lparr>pg_entities = slice lmt xs p, pg_total = tot\<rparr>, d)"
    using Cons.prems by (rule serves_fetch)
  obtain e where "fetch_each fetch ps d = (Inr (concat (map (slice lmt xs) ps)), e)"
    using Cons by blast
  then show ?case using d by simp
qed

lemma between_multiples:
  "(p - 1) * l < n \<Longrightarrow> n < p * l \<Longrightarrow> n mod l \<noteq> (0 :: nat)"
proof
  assume a: "(p - 1) * l < n" and b: "n < p * l" and "n mod l = 0"
  then obtain q where q: "n = q * l" by (metis mod_0_imp_dvd dvd_def mult.commute)
  then have "p - 1 < q" and "q < p" using a b by (metis mult_less_cancel2)+
  then show False by linarith
qed

lemma walk_pages_serves:
  assumes "serves lmt xs None fetch" and "0 < lmt" and "length xs < max_pages * lmt"
  shows "0 < page \<Longrightarrow> (page - 1) * lmt < length xs \<Longrightarrow>
    \<exists>d. walk_pages fetch kid lmt page (take (page * lmt) xs) c = (Inr xs, d)"
proof (induction "length xs - page * lmt" arbitrary: page c rule: less_induct)
  case less
  show ?case
  proof (cases "page * lmt \<le> length xs")
    case False
    then have "length xs mod lmt \<noteq> 0" using less.prems between_multiples [of page lmt] by simp
    then show ?thesis using False by (subst walk_pages.simps) simp
  next
    case True
    then have all: "length (take (page * lmt) xs) mod lmt = 0" "take (page * lmt) xs \<noteq> []"
      using less.prems assms(2) by auto
    have "page * lmt < max_pages * lmt" using True assms(3) by linarith
    then have small: "\<not> max_pages \<le> page" by simp
    obtain d where d: "fetch page c = (Inr \<lparr>pg_entities = slice lmt xs page, pg_total = None\<rparr>, d)"
      using assms(1) by (rule serves_fetch)
    show ?thesis
    proof (cases "page * lmt = length xs")
      case last_page: True
      then have "slice lmt xs page = []" by (simp add: slice_def)
      then show ?thesis using all small d last_page by (subst walk_pages.simps) simp
    next
      case False
      then have lt: "page * lmt < length xs" using True by simp
      then have ne: "slice lmt xs page \<noteq> []" using assms(2) by (simp add: slice_def)
      have more: "take (page * lmt) xs @ slice lmt xs page = take (Suc page * lmt) xs"
        by (simp add: slice_def take_add [symmetric] add.commute)
      have "length xs - Suc page * lmt < length xs - page * lmt" using lt assms(2) by simp
      then obtain e where "walk_pages fetch kid lmt (Suc page) (take (Suc page * lmt) xs) d = (Inr xs, e)"
        using less.hyps [of "Suc page" d] lt by auto
      then show ?thesis using all small d ne more by (subst walk_pages.simps) simp
    qed
  qed
qed

section \<open>Properties\<close>


definition one_row :: entity where
  "one_row = new_entity lab_kind JNull None"

definition row_pages :: "nat option \<Rightarrow> nat \<Rightarrow> (page, unit) io" where
  "row_pages tot p = io_return \<lparr>pg_entities = slice 2 (replicate 3 one_row) p, pg_total = tot\<rparr>"


text \<open>
  C20: the body an update puts back: no read-only key, whatever the changes try to smuggle in;
  a changed key has its new value, every other its current one.
\<close>

theorem update_body_fields:
  assumes "distinct (map fst current)" and "distinct (map fst changes)"
  shows "map_of (update_body current changes) key =
    (if key \<in> set read_only_keys then None
     else case map_of changes key of Some v \<Rightarrow> Some v | None \<Rightarrow> map_of current key)"
  using map_remove_all_props [OF distinct_map_extend [OF assms(1)], of read_only_keys changes key]
    map_of_map_extend [OF assms(2), of current]
  by (simp add: update_body_def map_add_def)

theorem update_body_fields_witness:
  "map_of (update_body [(''name'', JStr ''a''), (''extId'', JStr ''1'')]
     [(''name'', JStr ''b''), (''extId'', JStr ''2'')]) ''extId'' = None"
  using update_body_fields [of "[(''name'', JStr ''a''), (''extId'', JStr ''1'')]"
      "[(''name'', JStr ''b''), (''extId'', JStr ''2'')]" "''extId''"]
  by (simp add: read_only_keys_def dollar_def)

end
