(* ===== verification/CanI.thy ===== *)
theory CanI
  imports Requests
begin

text \<open>
  Whether this account may perform an action (\<open>crates/core/src/can_i.rs\<close>): roles resolved from
  four lists, the answer they give, and the cell a background resolution writes and a 403 resets.
  The cell's mutex makes each of its operations one step.
\<close>

section \<open>The answer\<close>

datatype can_i = CanYes string | CanNo "string list" | CanUnknown string

record can_index =
  ci_roles :: "string list option"
  ci_why :: "string option"

definition index_default :: can_index where
  "index_default = \<lparr>ci_roles = None, ci_why = None\<rparr>"

definition with_roles :: "string list \<Rightarrow> can_index" where
  "with_roles roles = \<lparr>ci_roles = Some roles, ci_why = None\<rparr>"

definition index_unknown :: "string \<Rightarrow> can_index" where
  "index_unknown why = \<lparr>ci_roles = None, ci_why = Some why\<rparr>"

definition can :: "can_index \<Rightarrow> action \<Rightarrow> can_i" where
  "can ix a =
     (case ci_roles ix of
        None \<Rightarrow> CanUnknown (case ci_why ix of Some w \<Rightarrow> w | None \<Rightarrow> ''resolving authorization policies'')
      | Some roles \<Rightarrow>
          (if a_roles a = [] then CanUnknown ''the spec lists no roles for this operation''
           else case find (\<lambda>mine. \<exists>r \<in> set (a_roles a). eq_ignore_ascii_case r mine) roles of
               Some via \<Rightarrow> CanYes via
             | None \<Rightarrow> CanNo (a_roles a)))"

section \<open>Policies\<close>

fun any_string :: "(string \<Rightarrow> bool) \<Rightarrow> json \<Rightarrow> bool" where
  "any_string f (JStr s) = f s"
| "any_string f (JArr vs) = (\<exists>v \<in> set vs. any_string f v)"
| "any_string f (JObj m) = (\<exists>kv \<in> set m. any_string f (snd kv))"
| "any_string f _ = False"

definition names_me :: "string \<Rightarrow> string \<Rightarrow> string list \<Rightarrow> string list \<Rightarrow> string \<Rightarrow> bool" where
  "names_me user_ext_id username group_ids group_names leaf \<longleftrightarrow> leaf \<noteq> [] \<and>
     (eq_ignore_ascii_case leaf user_ext_id \<or> eq_ignore_ascii_case leaf username \<or>
      (\<exists>g \<in> set group_ids. eq_ignore_ascii_case leaf g) \<or>
      (\<exists>g \<in> set group_names. eq_ignore_ascii_case leaf g))"

definition policy_matches :: "json \<Rightarrow> string \<Rightarrow> string \<Rightarrow> string list \<Rightarrow> string list \<Rightarrow> bool" where
  "policy_matches policy user_ext_id username group_ids group_names =
     (\<exists>filt \<in> set (List.map_filter (jget ''identityFilter'')
         (case Option.bind (jget ''identities'' policy) as_array of Some xs \<Rightarrow> xs | None \<Rightarrow> [])).
       any_string (names_me user_ext_id username group_ids group_names) filt)"

text \<open>The roles of an account, sorted, each once: the set the source collects.\<close>

definition my_roles :: "entity list \<Rightarrow> entity list \<Rightarrow> entity list \<Rightarrow> string \<Rightarrow> string \<Rightarrow> string list" where
  "my_roles groups policies roles user_ext_id username =
     remdups (sort (List.map_filter (\<lambda>role.
         Option.bind (find (\<lambda>r. e_ext_id r = role) roles) (\<lambda>r. opt_str (jget ''displayName'' (e_raw r))))
       (List.map_filter (\<lambda>p. opt_str (jget ''role'' (e_raw p)))
         (filter (\<lambda>p. policy_matches (e_raw p) user_ext_id username (map e_ext_id groups) (map e_name groups))
           policies))))"

definition list_named :: "'w env \<Rightarrow> catalog \<Rightarrow> string \<Rightarrow> (entity list, 'w) io" where
  "list_named env cat i c =
     (case kind_of_id (cat_kinds cat) i of
        None \<Rightarrow> (Inl (ECatalog (''no kind '' @ i)), c)
      | Some k \<Rightarrow> list_all env cat k list_options_default c)"

definition resolve :: "'w env \<Rightarrow> catalog \<Rightarrow> string \<Rightarrow> 'w client \<Rightarrow> can_index \<times> 'w client" where
  "resolve env cat username c =
     (case list_named env cat ''iam.authn.User'' c of
        (Inl e, c1) \<Rightarrow> (index_unknown (''cannot read users ('' @ error_text e @ '')''), c1)
      | (Inr users, c1) \<Rightarrow>
     (case find (\<lambda>u. case opt_str (jget ''username'' (e_raw u)) of
            Some n \<Rightarrow> eq_ignore_ascii_case n username | None \<Rightarrow> False) users of
        None \<Rightarrow> (index_unknown (username @ '' is not in the IAM user list''), c1)
      | Some me \<Rightarrow>
     (case list_named env cat ''iam.authn.UserGroup'' c1 of
        (Inl e, c2) \<Rightarrow> (index_unknown (''cannot read user groups ('' @ error_text e @ '')''), c2)
      | (Inr groups, c2) \<Rightarrow>
     (case list_named env cat ''iam.authz.AuthorizationPolicy'' c2 of
        (Inl e, c3) \<Rightarrow> (index_unknown (''cannot read authorization policies ('' @ error_text e @ '')''), c3)
      | (Inr policies, c3) \<Rightarrow>
     (case list_named env cat ''iam.authz.Role'' c3 of
        (Inl e, c4) \<Rightarrow> (index_unknown (''cannot read roles ('' @ error_text e @ '')''), c4)
      | (Inr roles, c4) \<Rightarrow>
          (with_roles (my_roles groups policies roles (e_ext_id me) username), c4))))))"

section \<open>The cell\<close>

record can_slot =
  sl_index :: can_index
  sl_claimed :: bool
  sl_generation :: "64 word"

definition slot_default :: can_slot where
  "slot_default = \<lparr>sl_index = index_default, sl_claimed = False, sl_generation = 0\<rparr>"

definition claim :: "can_slot \<Rightarrow> 64 word option \<times> can_slot" where
  "claim s = (if sl_claimed s then (None, s) else (Some (sl_generation s), s\<lparr>sl_claimed := True\<rparr>))"

definition set_index :: "64 word \<Rightarrow> can_index \<Rightarrow> can_slot \<Rightarrow> can_slot" where
  "set_index g ix s = (if sl_generation s = g then s\<lparr>sl_index := ix\<rparr> else s)"

definition restore :: "can_index \<Rightarrow> can_slot \<Rightarrow> can_slot" where
  "restore ix s = (if sl_claimed s then s else s\<lparr>sl_index := ix\<rparr>)"

definition invalidate :: "can_slot \<Rightarrow> can_slot" where
  "invalidate s = \<lparr>sl_index = index_default, sl_claimed = False, sl_generation = sl_generation s + 1\<rparr>"

datatype cell_op = Claim | SetIndex "64 word" can_index | Restore can_index | Invalidate

fun cell_step :: "cell_op \<Rightarrow> can_slot \<Rightarrow> can_slot" where
  "cell_step Claim s = snd (claim s)"
| "cell_step (SetIndex g ix) s = set_index g ix s"
| "cell_step (Restore ix) s = restore ix s"
| "cell_step Invalidate s = invalidate s"

definition invalidations :: "cell_op list \<Rightarrow> nat" where
  "invalidations es = length (filter (\<lambda>e. e = Invalidate) es)"

lemma cell_generation:
  "sl_generation (fold cell_step es s) = sl_generation s + of_nat (invalidations es)"
proof (induction es arbitrary: s)
  case Nil
  then show ?case by (simp add: invalidations_def)
next
  case (Cons e es)
  have "sl_generation (cell_step e s) = sl_generation s + (if e = Invalidate then 1 else 0)"
    by (cases e) (simp_all add: claim_def set_index_def restore_def invalidate_def)
  then show ?case using Cons by (simp add: invalidations_def)
qed

section \<open>Properties\<close>

text \<open>
  C21: an answer a 403 disproved never comes back: a resolution claimed before an invalidation
  and delivered after it, whatever happened in between, changes nothing.
\<close>

theorem stale_resolution_is_dropped:
  assumes "claim s = (Some g, s1)" and "Invalidate \<in> set es" and "length es < 2 ^ 64"
  shows "set_index g ix (fold cell_step es s1) = fold cell_step es s1"
proof -
  have g: "sl_generation s1 = g" using assms(1) by (auto simp: claim_def split: if_splits)
  have "filter (\<lambda>e. e = Invalidate) es \<noteq> []" using assms(2) by (auto simp: filter_empty_conv)
  then have "0 < invalidations es" by (simp add: invalidations_def)
  moreover have "invalidations es < 2 ^ 64"
    using assms(3) length_filter_le [of "\<lambda>e. e = Invalidate" es] unfolding invalidations_def
    by (rule le_less_trans [rotated])
  ultimately have "(of_nat (invalidations es) :: 64 word) \<noteq> 0"
    by (simp add: word_of_nat_eq_0_iff nat_dvd_not_less)
  then show ?thesis using g by (simp add: set_index_def cell_generation)
qed

theorem stale_resolution_is_dropped_witness:
  "set_index 0 (with_roles [''admin'']) (fold cell_step [Invalidate] (snd (claim slot_default)))
     = fold cell_step [Invalidate] (snd (claim slot_default))"
  by (rule stale_resolution_is_dropped [of slot_default]) (simp_all add: claim_def slot_default_def)

text \<open>
  a refusal is only ever given for cause: the answer is No exactly when this account's roles
  were resolved, the operation names roles, and none of them is among them in any spelling.
\<close>

theorem no_means_no_role:
  "can ix a = CanNo missing \<longleftrightarrow>
     missing = a_roles a \<and> a_roles a \<noteq> [] \<and>
     (\<exists>roles. ci_roles ix = Some roles \<and>
       set (map (map to_lower) roles) \<inter> set (map (map to_lower) (a_roles a)) = {})"
proof (cases "ci_roles ix")
  case None
  then show ?thesis by (simp add: can_def)
next
  case (Some roles)
  let ?P = "\<lambda>mine. \<exists>r \<in> set (a_roles a). eq_ignore_ascii_case r mine"
  have "find ?P roles = None \<longleftrightarrow> (\<forall>x \<in> set roles. \<not> ?P x)" by (auto simp: find_None_iff)
  also have "\<dots> \<longleftrightarrow> set (map (map to_lower) roles) \<inter> set (map (map to_lower) (a_roles a)) = {}"
    by (force simp: eq_ignore_ascii_case_def)
  finally show ?thesis using Some by (auto simp: can_def split: option.splits)
qed

end
