(* ===== verification/Guardrails.thy ===== *)
theory Guardrails
  imports CanI
begin

text \<open>
  Local rules that can refuse a mutation before it is sent (\<open>crates/core/src/guardrails.rs\<close>):
  the glob matcher every rule hangs on, rules read from a configuration file, and the verdict.
\<close>

section \<open>Globs\<close>

text \<open>
  The matcher's loop. An index into the pattern or the text is the part from there on: \<open>ps\<close>
  and \<open>ts\<close> are what is left of both, and \<open>star\<close> is the pattern after the last \<open>*\<close> with the
  text from where it has swallowed up to. The first argument is fuel.
\<close>

definition backtrack :: "(string \<times> string) option \<Rightarrow> (string \<times> string \<times> (string \<times> string) option) option" where
  "backtrack star = (case star of
       Some (after, from) \<Rightarrow> Some (after, tl from, Some (after, tl from))
     | None \<Rightarrow> None)"

definition glob_step :: "string \<Rightarrow> char \<Rightarrow> string \<Rightarrow> (string \<times> string) option
    \<Rightarrow> (string \<times> string \<times> (string \<times> string) option) option" where
  "glob_step ps x xs star = (case ps of
       [] \<Rightarrow> backtrack star
     | c # cs \<Rightarrow>
         (if c = CHR ''*'' then Some (cs, x # xs, Some (cs, x # xs))
          else if c = CHR ''?'' then Some (cs, xs, star)
          else if eq_ci c x then Some (cs, xs, star)
          else backtrack star))"

fun glob_loop :: "nat \<Rightarrow> string \<Rightarrow> string \<Rightarrow> (string \<times> string) option \<Rightarrow> bool option" where
  "glob_loop 0 ps ts star = None"
| "glob_loop (Suc n) ps [] star = Some (dropWhile (\<lambda>c. c = CHR ''*'') ps = [])"
| "glob_loop (Suc n) ps (x # xs) star =
     (case glob_step ps x xs star of
        None \<Rightarrow> Some False
      | Some (ps', ts', star') \<Rightarrow> glob_loop n ps' ts' star')"

definition glob_fuel :: "string \<Rightarrow> string \<Rightarrow> nat" where
  "glob_fuel p t = Suc ((length t + 2) * (length p + length t + 1))"

definition glob :: "string \<Rightarrow> string \<Rightarrow> bool" where
  "glob p t \<longleftrightarrow> glob_loop (glob_fuel p t) p t None = Some True"

text \<open>What a glob means: \<open>*\<close> stands for any text, \<open>?\<close> for one byte, the rest for itself.\<close>

function (sequential) glob_means :: "string \<Rightarrow> string \<Rightarrow> bool" where
  "glob_means [] t = (t = [])"
| "glob_means (c # p) [] = (c = CHR ''*'' \<and> glob_means p [])"
| "glob_means (c # p) (x # t) =
     (if c = CHR ''*'' then glob_means p (x # t) \<or> glob_means (c # p) t
      else (c = CHR ''?'' \<or> eq_ci c x) \<and> glob_means p t)"
  by pat_completeness auto
termination
  by (relation "measure (\<lambda>(p, t). length p + length t)") auto

definition plain_seg :: "string \<Rightarrow> bool" where
  "plain_seg seg \<longleftrightarrow> CHR ''*'' \<notin> set seg"

definition fits :: "char \<Rightarrow> char \<Rightarrow> bool" where
  "fits c x \<longleftrightarrow> c = CHR ''?'' \<or> eq_ci c x"

lemma means_star: "glob_means (CHR ''*'' # p) t \<longleftrightarrow> (\<exists>u v. t = u @ v \<and> glob_means p v)"
proof (induction t)
  case Nil
  then show ?case by auto
next
  case (Cons x t)
  have "(\<exists>u v. x # t = u @ v \<and> glob_means p v) \<longleftrightarrow>
      glob_means p (x # t) \<or> (\<exists>u v. t = u @ v \<and> glob_means p v)"
    by (metis Cons_eq_append_conv)
  then show ?case using Cons by simp
qed

lemma means_stars: "glob_means ps [] \<longleftrightarrow> dropWhile (\<lambda>c. c = CHR ''*'') ps = []"
  by (induction ps) auto

lemma means_seg:
  "plain_seg seg \<Longrightarrow> glob_means (seg @ q) t \<longleftrightarrow>
    (\<exists>w v. t = w @ v \<and> list_all2 fits seg w \<and> glob_means q v)"
proof (induction seg arbitrary: t)
  case Nil
  then show ?case by auto
next
  case (Cons c seg)
  then have c: "c \<noteq> CHR ''*''" and ps: "plain_seg seg" by (auto simp: plain_seg_def)
  show ?case
  proof (cases t)
    case Nil
    then show ?thesis using c by auto
  next
    case t: (Cons x t')
    have "glob_means ((c # seg) @ q) t \<longleftrightarrow> fits c x \<and> glob_means (seg @ q) t'"
      using c t by (simp add: fits_def)
    also have "\<dots> \<longleftrightarrow> (\<exists>w v. t = w @ v \<and> list_all2 fits (c # seg) w \<and> glob_means q v)"
    proof
      assume "fits c x \<and> glob_means (seg @ q) t'"
      then obtain w v where "t' = w @ v" "list_all2 fits seg w" "glob_means q v" "fits c x"
        using Cons.IH [OF ps] by blast
      then have "t = (x # w) @ v" "list_all2 fits (c # seg) (x # w)" using t by simp_all
      then show "\<exists>w v. t = w @ v \<and> list_all2 fits (c # seg) w \<and> glob_means q v"
        using \<open>glob_means q v\<close> by blast
    next
      assume "\<exists>w v. t = w @ v \<and> list_all2 fits (c # seg) w \<and> glob_means q v"
      then obtain w v where wv: "t = w @ v" "list_all2 fits (c # seg) w" "glob_means q v" by blast
      then obtain z zs where "w = z # zs" "fits c z" "list_all2 fits seg zs" by (auto simp: list_all2_Cons1)
      then show "fits c x \<and> glob_means (seg @ q) t'" using wv t Cons.IH [OF ps] by auto
    qed
    finally show ?thesis .
  qed
qed

lemma means_seg_at:
  assumes "plain_seg seg" and "list_all2 fits seg w"
  shows "glob_means (seg @ q) (w @ v) \<longleftrightarrow> glob_means q v"
proof -
  have "w @ v = w' @ v' \<Longrightarrow> list_all2 fits seg w' \<Longrightarrow> v' = v" for w' v'
    using list_all2_lengthD [OF assms(2)] list_all2_lengthD [of fits seg w'] by simp
  then show ?thesis using means_seg [OF assms(1)] assms(2) by blast
qed

text \<open>
  The invariant: the answer wanted is the one the loop started with, and since the last star
  the pattern has matched, byte for byte, what the text has moved past.
\<close>

definition glob_inv :: "bool \<Rightarrow> string \<Rightarrow> string \<Rightarrow> (string \<times> string) option \<Rightarrow> bool" where
  "glob_inv want ps ts star \<longleftrightarrow> (case star of
       None \<Rightarrow> want = glob_means ps ts
     | Some (after, from) \<Rightarrow> want = glob_means (CHR ''*'' # after) from \<and>
         (\<exists>seg w. after = seg @ ps \<and> plain_seg seg \<and> from = w @ ts \<and> list_all2 fits seg w))"

lemma glob_inv_match:
  assumes "glob_inv want (c # cs) (x # xs) star" and "c \<noteq> CHR ''*''" and "fits c x"
  shows "glob_inv want cs xs star"
proof (cases star)
  case None
  then show ?thesis using assms by (simp add: glob_inv_def fits_def)
next
  case (Some af)
  obtain after "from" where af: "af = (after, from)" by force
  with Some assms(1) obtain seg w where "after = seg @ c # cs" "plain_seg seg" "from = w @ x # xs"
    "list_all2 fits seg w" and want: "want = glob_means (CHR ''*'' # after) from"
    by (auto simp: glob_inv_def)
  then have "after = (seg @ [c]) @ cs" "plain_seg (seg @ [c])" "from = (w @ [x]) @ xs"
    "list_all2 fits (seg @ [c]) (w @ [x])"
    using assms(2,3) by (auto simp: plain_seg_def list_all2_appendI)
  then show ?thesis unfolding glob_inv_def Some af using want by (simp del: append_assoc)
qed

lemma glob_inv_star:
  assumes "glob_inv want (CHR ''*'' # cs) ts star"
  shows "glob_inv want cs ts (Some (cs, ts))"
proof -
  have "want = glob_means (CHR ''*'' # cs) ts"
  proof (cases star)
    case None
    then show ?thesis using assms by (simp add: glob_inv_def)
  next
    case (Some af)
    obtain after "from" where af: "af = (after, from)" by force
    with Some assms obtain seg w where seg: "after = seg @ CHR ''*'' # cs" "plain_seg seg"
      and fr: "from = w @ ts" "list_all2 fits seg w"
      and want: "want = glob_means (CHR ''*'' # after) from"
      by (auto simp: glob_inv_def)
    have "glob_means (CHR ''*'' # cs) ts" if w: want
    proof -
      obtain u v where uv: "from = u @ v" "glob_means after v" using w want means_star by blast
      then obtain w' v' where v: "v = w' @ v'" "list_all2 fits seg w'" "glob_means (CHR ''*'' # cs) v'"
        using means_seg [OF seg(2)] seg(1) by blast
      obtain a b where ab: "v' = a @ b" "glob_means cs b" using v(3) means_star by blast
      have "length w \<le> length (u @ w')"
        using list_all2_lengthD [OF fr(2)] list_all2_lengthD [OF v(2)] by simp
      moreover have "w @ ts = (u @ w') @ (a @ b)" using fr(1) uv(1) v(1) ab(1) by simp
      ultimately obtain r where "ts = r @ (a @ b)" by (metis append_eq_append_conv_if append_eq_conv_conj)
      then show ?thesis using ab(2) means_star [of cs ts] by (metis append.assoc)
    qed
    moreover have want if "glob_means (CHR ''*'' # cs) ts"
      using that means_seg_at [OF seg(2) fr(2), of "CHR ''*'' # cs" ts] want fr(1) seg(1) means_star by blast
    ultimately show ?thesis by blast
  qed
  then show ?thesis by (simp add: glob_inv_def plain_seg_def)
qed

lemma glob_inv_back:
  assumes "glob_inv want ps (x # xs) star" and "\<not> glob_means ps (x # xs)"
  shows "case backtrack star of None \<Rightarrow> \<not> want | Some (ps', ts', star') \<Rightarrow> glob_inv want ps' ts' star'"
proof (cases star)
  case None
  then show ?thesis using assms by (simp add: glob_inv_def backtrack_def)
next
  case (Some af)
  obtain after "from" where af: "af = (after, from)" by force
  with Some assms(1) obtain seg w where seg: "after = seg @ ps" "plain_seg seg"
    and fr: "from = w @ x # xs" "list_all2 fits seg w"
    and want: "want = glob_means (CHR ''*'' # after) from"
    by (auto simp: glob_inv_def)
  have "\<not> glob_means after from"
    using means_seg_at [OF seg(2) fr(2), of ps "x # xs"] assms(2) seg(1) fr(1) by simp
  moreover have "from \<noteq> []" using fr(1) by simp
  then obtain y ys where y: "from = y # ys" by (auto simp: neq_Nil_conv)
  ultimately have "want = glob_means (CHR ''*'' # after) (tl from)" using want by simp
  then show ?thesis using Some af by (simp add: backtrack_def glob_inv_def plain_seg_def)
qed

lemma glob_inv_end:
  assumes "glob_inv want ps [] star"
  shows "want = glob_means ps []"
proof (cases star)
  case None
  then show ?thesis using assms by (simp add: glob_inv_def)
next
  case (Some af)
  obtain after "from" where af: "af = (after, from)" by force
  with Some assms obtain seg where seg: "after = seg @ ps" "plain_seg seg" "list_all2 fits seg from"
    and want: "want = glob_means (CHR ''*'' # after) from"
    by (auto simp: glob_inv_def)
  have "glob_means ps []" if w: want
  proof -
    obtain u v where uv: "from = u @ v" "glob_means (seg @ ps) v" using w want means_star seg(1) by blast
    then obtain w' v' where v: "v = w' @ v'" "list_all2 fits seg w'" "glob_means ps v'"
      using means_seg [OF seg(2)] by blast
    have "length w' = length from" using list_all2_lengthD [OF seg(3)] list_all2_lengthD [OF v(2)] by simp
    then have "v' = []" using uv(1) v(1) by simp
    then show ?thesis using v(3) by simp
  qed
  moreover have want if "glob_means ps []"
    using that means_seg_at [OF seg(2,3), of ps "[]"] want seg(1) means_star by (metis append_Nil append_Nil2)
  ultimately show ?thesis by blast
qed

definition star_within :: "nat \<Rightarrow> nat \<Rightarrow> (string \<times> string) option \<Rightarrow> bool" where
  "star_within np nt star \<longleftrightarrow> (case star of
       None \<Rightarrow> True | Some (after, from) \<Rightarrow> length after \<le> np \<and> length from \<le> nt)"

definition glob_left :: "nat \<Rightarrow> nat \<Rightarrow> string \<Rightarrow> string \<Rightarrow> (string \<times> string) option \<Rightarrow> nat" where
  "glob_left np nt ps ts star =
     (case star of None \<Rightarrow> nt + 1 | Some (after, from) \<Rightarrow> length from) * (np + nt + 1) + length ps + length ts"

text \<open>A step either ends the match or gets nearer the end of the fuel.\<close>

lemma glob_step_left:
  assumes "glob_step ps x xs star = Some (ps', ts', star')" and "glob_inv want ps (x # xs) star"
    and "length ps \<le> np" and "length (x # xs) \<le> nt" and "star_within np nt star"
  shows "glob_left np nt ps' ts' star' < glob_left np nt ps (x # xs) star \<and> length ps' \<le> np \<and>
    length ts' \<le> nt \<and> star_within np nt star'"
proof -
  have bt: ?thesis if b: "backtrack star = Some (ps', ts', star')"
  proof -
    obtain after "from" where star: "star = Some (after, from)" and ps': "ps' = after" "ts' = tl from"
      "star' = Some (after, tl from)"
      using b by (auto simp: backtrack_def split: option.splits)
    have "from \<noteq> []" using assms(2) star by (auto simp: glob_inv_def)
    then obtain y ys where y: "from = y # ys" by (auto simp: neq_Nil_conv)
    have "length after \<le> np" "length from \<le> nt" using assms(5) star by (simp_all add: star_within_def)
    then show ?thesis using star ps' y by (simp add: glob_left_def star_within_def)
  qed
  show ?thesis
  proof (cases ps)
    case Nil
    then show ?thesis using assms(1) bt by (simp add: glob_step_def)
  next
    case (Cons c cs)
    show ?thesis
    proof (cases "c = CHR ''*''")
      case True
      then have out: "ps' = cs" "ts' = x # xs" "star' = Some (cs, x # xs)"
        using assms(1) Cons by (auto simp: glob_step_def)
      have "length (x # xs) * (np + nt + 1) \<le> (case star of None \<Rightarrow> nt + 1 | Some (after, from) \<Rightarrow> length from) *
          (np + nt + 1)"
        using assms(2,4) by (intro mult_le_mono1) (auto simp: glob_inv_def split: option.splits)
      then show ?thesis using out Cons assms(3,4) by (simp add: glob_left_def star_within_def)
    next
      case False
      show ?thesis
      proof (cases "c = CHR ''?'' \<or> eq_ci c x")
        case True
        then have "ps' = cs" "ts' = xs" "star' = star" using assms(1) Cons False
          by (auto simp: glob_step_def split: if_splits)
        then show ?thesis using Cons assms(3-5) by (simp add: glob_left_def)
      next
        case no: False
        then show ?thesis using assms(1) Cons False bt by (simp add: glob_step_def)
      qed
    qed
  qed
qed

lemma glob_step_inv:
  assumes "glob_inv want ps (x # xs) star"
  shows "case glob_step ps x xs star of None \<Rightarrow> \<not> want | Some (ps', ts', star') \<Rightarrow> glob_inv want ps' ts' star'"
proof (cases ps)
  case Nil
  then show ?thesis using glob_inv_back [OF assms] by (simp add: glob_step_def)
next
  case (Cons c cs)
  show ?thesis
  proof (cases "c = CHR ''*''")
    case True
    then show ?thesis using glob_inv_star assms Cons by (simp add: glob_step_def)
  next
    case False
    show ?thesis
    proof (cases "fits c x")
      case True
      then show ?thesis using glob_inv_match [of want c cs x xs star] assms Cons False
        by (auto simp: glob_step_def fits_def)
    next
      case no: False
      then have "\<not> glob_means ps (x # xs)" using Cons False by (simp add: fits_def)
      then show ?thesis using glob_inv_back [OF assms] Cons False no by (simp add: glob_step_def fits_def)
    qed
  qed
qed

lemma glob_loop_means:
  "glob_inv want ps ts star \<Longrightarrow> length ps \<le> np \<Longrightarrow> length ts \<le> nt \<Longrightarrow> star_within np nt star \<Longrightarrow>
    glob_left np nt ps ts star < n \<Longrightarrow> glob_loop n ps ts star = Some want"
proof (induction n arbitrary: ps ts star)
  case 0
  then show ?case by simp
next
  case (Suc n)
  show ?case
  proof (cases ts)
    case Nil
    then show ?thesis using glob_inv_end Suc.prems(1) means_stars by simp
  next
    case (Cons x xs)
    note inv = glob_step_inv [OF Suc.prems(1) [unfolded Cons]]
    show ?thesis
    proof (cases "glob_step ps x xs star")
      case None
      then show ?thesis using inv Cons by simp
    next
      case (Some r)
      obtain ps' ts' star' where r: "r = (ps', ts', star')" by (cases r)
      note left = glob_step_left [OF Some [unfolded r] Suc.prems(1) [unfolded Cons] Suc.prems(2)
        Suc.prems(3) [unfolded Cons] Suc.prems(4)]
      have "glob_inv want ps' ts' star'" using inv Some r by simp
      moreover have "glob_left np nt ps' ts' star' < n" using left Suc.prems(5) Cons by simp
      ultimately have "glob_loop n ps' ts' star' = Some want" using Suc.IH left by blast
      then show ?thesis using Some r Cons by simp
    qed
  qed
qed

lemma glob_loop_total: "glob_loop (glob_fuel p t) p t None = Some (glob_means p t)"
  by (rule glob_loop_means [where np = "length p" and nt = "length t"])
    (simp_all add: glob_inv_def star_within_def glob_left_def glob_fuel_def algebra_simps)

lemma glob_eq_means: "glob p t \<longleftrightarrow> glob_means p t"
  by (simp add: glob_def glob_loop_total)

section \<open>Rules\<close>

record rule_spec =
  rs_contexts :: "string list"
  rs_kinds :: "string list"
  rs_actions :: "string list"
  rs_deny :: bool
  rs_reason :: "string option"
  rs_confirm :: "string option"
  rs_max_bulk :: "nat option"

record rule =
  ru_contexts :: "string list"
  ru_kinds :: "string list"
  ru_actions :: "string list"
  ru_deny :: bool
  ru_reason :: "string option"
  ru_confirm :: "confirm_kind option"
  ru_max_bulk :: "nat option"

definition rule_default :: rule where
  "rule_default = \<lparr>ru_contexts = [], ru_kinds = [], ru_actions = [], ru_deny = False,
     ru_reason = None, ru_confirm = None, ru_max_bulk = None\<rparr>"

definition confirm_of_spec :: "string option \<Rightarrow> string + confirm_kind option" where
  "confirm_of_spec s = (case s of
       None \<Rightarrow> Inr None
     | Some w \<Rightarrow>
         (if w = ''none'' then Inr (Some CNone)
          else if w = ''yes'' then Inr (Some CYes)
          else if w = ''type-name'' then Inr (Some CTypeName)
          else Inl (''confirm '' @ debug_str w @ '' is not one of none, yes, type-name'')))"

definition rule_from_spec :: "rule_spec \<Rightarrow> string + rule" where
  "rule_from_spec spec =
     (case confirm_of_spec (rs_confirm spec) of
        Inl e \<Rightarrow> Inl e
      | Inr conf \<Rightarrow>
          (if rs_max_bulk spec = Some 0 then Inl ''max_bulk must be at least 1''
           else if rs_reason spec \<noteq> None \<and> \<not> rs_deny spec then Inl ''reason needs deny = true''
           else Inr \<lparr>ru_contexts = rs_contexts spec, ru_kinds = rs_kinds spec, ru_actions = rs_actions spec,
             ru_deny = rs_deny spec, ru_reason = rs_reason spec, ru_confirm = conf,
             ru_max_bulk = rs_max_bulk spec\<rparr>))"

definition any_glob :: "string list \<Rightarrow> (string \<Rightarrow> bool) \<Rightarrow> bool" where
  "any_glob globs f \<longleftrightarrow> globs = [] \<or> (\<exists>g \<in> set globs. f g)"

definition rule_matches :: "rule \<Rightarrow> string \<Rightarrow> kind \<Rightarrow> action \<Rightarrow> bool" where
  "rule_matches r ctxt k a \<longleftrightarrow>
     any_glob (ru_contexts r) (\<lambda>g. glob g ctxt) \<and>
     any_glob (ru_kinds r) (\<lambda>g. glob g (k_id k) \<or> glob g (k_display k) \<or>
       (\<exists>al \<in> set (k_aliases k). glob g al)) \<and>
     any_glob (ru_actions r) (\<lambda>g. glob g (a_name a))"

section \<open>The verdict\<close>

datatype verdict =
    Allow
  | Confirm confirm_kind
  | ReadOnly
  | Deny "string option"
  | NotPermitted "string list"
  | TooMany nat

record guardrails =
  gr_readonly :: bool
  gr_rules :: "rule list"

definition default_max_bulk :: nat where
  "default_max_bulk = 5"

definition built_in :: "rule list" where
  "built_in =
     [rule_default\<lparr>ru_actions := [''delete''], ru_confirm := Some CTypeName\<rparr>,
      rule_default\<lparr>ru_actions := [''power-off'', ''power-cycle'', ''reset'', ''reboot'', ''shutdown'',
        ''guest-shutdown'', ''guest-reboot'', ''revert'', ''enter-host-maintenance''],
        ru_confirm := Some CYes\<rparr>,
      rule_default\<lparr>ru_max_bulk := Some default_max_bulk\<rparr>]"

definition guardrails_default :: guardrails where
  "guardrails_default = \<lparr>gr_readonly = False, gr_rules = built_in\<rparr>"

fun rules_from :: "nat \<Rightarrow> rule_spec list \<Rightarrow> string + rule list" where
  "rules_from i [] = Inr []"
| "rules_from i (s # ss) =
     (case rule_from_spec s of
        Inl e \<Rightarrow> Inl (''guardrails['' @ show_nat i @ '']: '' @ e)
      | Inr r \<Rightarrow> (case rules_from (Suc i) ss of Inl e \<Rightarrow> Inl e | Inr rs \<Rightarrow> Inr (r # rs)))"

definition from_config :: "bool \<Rightarrow> rule_spec list \<Rightarrow> string + guardrails" where
  "from_config readonly specs =
     (case rules_from 0 specs of
        Inl e \<Rightarrow> Inl e
      | Inr rules \<Rightarrow> Inr \<lparr>gr_readonly = readonly, gr_rules = rules @ built_in\<rparr>)"

definition verdict_of :: "guardrails \<Rightarrow> string \<Rightarrow> kind \<Rightarrow> action \<Rightarrow> nat \<Rightarrow> can_i \<Rightarrow> verdict" where
  "verdict_of g ctxt k a n ci =
     (if gr_readonly g then ReadOnly
      else let matching = filter (\<lambda>r. rule_matches r ctxt k a) (gr_rules g)
      in case find ru_deny matching of
           Some denied \<Rightarrow> Deny (ru_reason denied)
         | None \<Rightarrow>
             (case ci of
                CanNo missing \<Rightarrow> NotPermitted missing
              | _ \<Rightarrow>
                  (let maxb = (case find_map ru_max_bulk matching of Some m \<Rightarrow> m | None \<Rightarrow> default_max_bulk)
                   in if maxb < n then TooMany maxb
                      else let least = max (case find_map ru_confirm matching of Some c \<Rightarrow> c | None \<Rightarrow> CNone)
                                 (a_confirm a)
                           in if least = CNone then Allow else Confirm least)))"

section \<open>What the verdicts rest on\<close>

lemma default_max_bulk_pos: "0 < default_max_bulk"
  by (simp add: default_max_bulk_def)

lemma find_map_append:
  "find_map f (xs @ ys) = (case find_map f xs of Some y \<Rightarrow> Some y | None \<Rightarrow> find_map f ys)"
  by (induction xs) (auto split: option.split)

lemma find_map_Some: "find_map f xs = Some y \<Longrightarrow> \<exists>x \<in> set xs. f x = Some y"
  by (induction xs) (auto split: option.splits)

lemma rule_from_spec_deny: "rule_from_spec s = Inr r \<Longrightarrow> ru_deny r = rs_deny s"
  by (auto simp: rule_from_spec_def split: sum.splits if_splits)

lemma rule_from_spec_bulk: "rule_from_spec s = Inr r \<Longrightarrow> ru_max_bulk r = rs_max_bulk s \<and> ru_max_bulk r \<noteq> Some 0"
  by (auto simp: rule_from_spec_def split: sum.splits if_splits)

lemma rules_from_each:
  "rules_from i ss = Inr rs \<Longrightarrow> r \<in> set rs \<Longrightarrow> \<exists>s \<in> set ss. rule_from_spec s = Inr r"
  by (induction ss arbitrary: i rs) (fastforce split: sum.splits)+

lemma built_in_no_deny: "r \<in> set built_in \<Longrightarrow> \<not> ru_deny r \<and> ru_max_bulk r \<noteq> Some 0"
  by (auto simp: built_in_def rule_default_def default_max_bulk_def)

lemma from_config_rules:
  "from_config ro specs = Inr g \<Longrightarrow> \<exists>rules. gr_rules g = rules @ built_in \<and> gr_readonly g = ro \<and>
     (\<forall>r \<in> set rules. \<exists>s \<in> set specs. rule_from_spec s = Inr r)"
  by (auto simp: from_config_def dest: rules_from_each split: sum.splits)

lemma verdict_confirm: "verdict_of g c k a n ci = Confirm f \<Longrightarrow> a_confirm a \<le> f \<and> f \<noteq> CNone"
  by (auto simp: verdict_of_def Let_def split: if_splits option.splits can_i.splits)

lemma verdict_allow: "verdict_of g c k a n ci = Allow \<Longrightarrow> a_confirm a = CNone"
  by (auto simp: verdict_of_def Let_def max_def split: if_splits option.splits can_i.splits)

definition goes_ahead :: "verdict \<Rightarrow> bool" where
  "goes_ahead v \<longleftrightarrow> (case v of Allow \<Rightarrow> True | Confirm _ \<Rightarrow> True | _ \<Rightarrow> False)"

definition needs :: "verdict \<Rightarrow> confirm_kind" where
  "needs v = (case v of Confirm f \<Rightarrow> f | _ \<Rightarrow> CNone)"

definition matching_rules :: "guardrails \<Rightarrow> string \<Rightarrow> kind \<Rightarrow> action \<Rightarrow> rule list" where
  "matching_rules g c k a = filter (\<lambda>r. rule_matches r c k a) (gr_rules g)"

definition bulk_cap :: "guardrails \<Rightarrow> string \<Rightarrow> kind \<Rightarrow> action \<Rightarrow> nat" where
  "bulk_cap g c k a =
     (case find_map ru_max_bulk (matching_rules g c k a) of Some m \<Rightarrow> m | None \<Rightarrow> default_max_bulk)"

lemma goes_ahead_exactly:
  "goes_ahead (verdict_of g c k a n ci) \<longleftrightarrow>
     \<not> gr_readonly g \<and> (\<forall>r \<in> set (matching_rules g c k a). \<not> ru_deny r) \<and>
     (\<forall>missing. ci \<noteq> CanNo missing) \<and> n \<le> bulk_cap g c k a"
proof (cases "find ru_deny (matching_rules g c k a)")
  case None
  then have nd: "\<forall>r \<in> set (matching_rules g c k a). \<not> ru_deny r" by (auto simp: find_None_iff)
  show ?thesis
    using None nd by (cases ci) (auto simp: verdict_of_def goes_ahead_def matching_rules_def bulk_cap_def Let_def)
next
  case (Some r)
  then have "r \<in> set (matching_rules g c k a)" "ru_deny r" by (auto simp: find_Some_iff)
  then show ?thesis
    using Some by (auto simp: verdict_of_def goes_ahead_def matching_rules_def Let_def)
qed

lemma needs_exactly:
  assumes "goes_ahead (verdict_of g c k a n ci)"
  shows "needs (verdict_of g c k a n ci) =
    max (case find_map ru_confirm (matching_rules g c k a) of Some f \<Rightarrow> f | None \<Rightarrow> CNone) (a_confirm a)"
  using assms
  by (auto simp: verdict_of_def goes_ahead_def needs_def matching_rules_def Let_def
      split: option.splits can_i.splits if_splits)

lemma glob_self: "CHR ''*'' \<notin> set t \<Longrightarrow> glob_means t t"
  by (induction t) (auto simp: eq_ci_def)

lemma first_matching:
  assumes "gr_rules g = rules @ built_in" and "\<forall>r \<in> set rules. f r = None"
  shows "find_map f (matching_rules g c k a) = find_map f (filter (\<lambda>r. rule_matches r c k a) built_in)"
proof -
  have "find_map f (filter P rules) = None" for P using assms(2) by (induction rules) auto
  then show ?thesis using assms(1) by (simp add: matching_rules_def find_map_append)
qed

text \<open>The concrete delete the witnesses use.\<close>

definition lab_delete :: action where
  "lab_delete = \<lparr>a_name = ''delete'', a_path = ''/vmm/v4.0/ahv/config/vms/{extId}'', a_method = Delete,
     a_needs_etag = True, a_needs_body = False, a_takes_body = False, a_returns = RTask, a_scope = [],
     a_roles = [], a_confirm = CYes, a_body = None, a_form = [], a_rate = rate_limit_default\<rparr>"

lemma lab_delete_goes_any:
  "\<forall>missing. ci \<noteq> CanNo missing \<Longrightarrow> goes_ahead (verdict_of guardrails_default ctxt lab_kind lab_delete 1 ci)"
  by (simp add: goes_ahead_exactly guardrails_default_def matching_rules_def built_in_def rule_matches_def
      rule_default_def any_glob_def glob_eq_means lab_delete_def bulk_cap_def default_max_bulk_def eq_ci_def)

lemma lab_delete_goes: "goes_ahead (verdict_of guardrails_default ''pc'' lab_kind lab_delete 1 (CanUnknown []))"
  by (rule lab_delete_goes_any) simp

section \<open>Properties\<close>

text \<open>
  C22: the one matcher every rule hangs on is right: the loop with its single backtrack point
  always ends, and matches exactly the texts the pattern stands for, where a star is any text, a
  question mark any one byte, and every other byte itself in either case.
\<close>

theorem glob_is_its_meaning:
  "glob_loop (glob_fuel p t) p t None = Some (glob_means p t) \<and> glob p t = glob_means p t"
  by (simp add: glob_loop_total glob_eq_means)

text \<open>
  C23: what lets an action through: under guardrails read from a configuration, an action goes
  ahead only when the session is not read-only, no matching rule denies it, the account was not
  found to lack the role, and no more rows are marked than a positive cap; and what it asks for
  is never less than the catalogue's own confirmation.
\<close>

theorem going_ahead_is_earned:
  assumes "from_config ro specs = Inr g" and "goes_ahead (verdict_of g c k a n ci)"
  shows "\<not> ro \<and> (\<forall>r \<in> set (matching_rules g c k a). \<not> ru_deny r) \<and>
    (\<forall>missing. ci \<noteq> CanNo missing) \<and> n \<le> bulk_cap g c k a \<and> 0 < bulk_cap g c k a \<and>
    a_confirm a \<le> needs (verdict_of g c k a n ci)"
proof -
  obtain rules where rules: "gr_rules g = rules @ built_in" "gr_readonly g = ro"
    "\<forall>r \<in> set rules. \<exists>s \<in> set specs. rule_from_spec s = Inr r"
    using from_config_rules [OF assms(1)] by blast
  have "ru_max_bulk r \<noteq> Some 0" if "r \<in> set (gr_rules g)" for r
    using that rules(1,3) built_in_no_deny rule_from_spec_bulk by (metis UnE set_append)
  then have "find_map ru_max_bulk (matching_rules g c k a) \<noteq> Some 0"
    by (auto simp: matching_rules_def dest!: find_map_Some)
  then have "0 < bulk_cap g c k a"
    by (auto simp: bulk_cap_def default_max_bulk_pos split: option.split)
  then show ?thesis
    using assms(2) goes_ahead_exactly needs_exactly [OF assms(2)] rules(2) by simp
qed

theorem going_ahead_is_earned_witness:
  "a_confirm lab_delete \<le> needs (verdict_of guardrails_default ''pc'' lab_kind lab_delete 1 (CanUnknown []))"
proof -
  have "from_config False [] = Inr guardrails_default"
    by (simp add: from_config_def guardrails_default_def)
  then show ?thesis using going_ahead_is_earned [OF _ lab_delete_goes] by blast
qed

text \<open>
  C24: a fail-open the module exists to prevent: whatever the rules of a configuration file say of
  contexts, kinds, denials and caps, as long as none of them sets a confirmation, a delete that
  goes ahead asks for the name to be typed.
\<close>

theorem delete_asks_for_the_name:
  assumes "from_config ro specs = Inr g" and "\<forall>s \<in> set specs. rs_confirm s = None"
    and "a_name a = ''delete''" and "goes_ahead (verdict_of g c k a n ci)"
  shows "verdict_of g c k a n ci = Confirm CTypeName"
proof -
  obtain rules where rules: "gr_rules g = rules @ built_in"
    "\<forall>r \<in> set rules. \<exists>s \<in> set specs. rule_from_spec s = Inr r"
    using from_config_rules [OF assms(1)] by blast
  have "ru_confirm r = None" if s: "s \<in> set specs" and r: "rule_from_spec s = Inr r" for s r
    using assms(2) s r by (auto simp: rule_from_spec_def confirm_of_spec_def split: if_splits)
  then have "\<forall>r \<in> set rules. ru_confirm r = None"
    using rules(2) by blast
  moreover have "find_map ru_confirm (filter (\<lambda>r. rule_matches r c k a) built_in) = Some CTypeName"
    using assms(3) glob_self [of "''delete''"]
    by (simp add: built_in_def rule_matches_def rule_default_def any_glob_def glob_eq_means)
  ultimately have "find_map ru_confirm (matching_rules g c k a) = Some CTypeName"
    using first_matching [OF rules(1), of ru_confirm c k a] by simp
  then have "needs (verdict_of g c k a n ci) = max CTypeName (a_confirm a)"
    using needs_exactly [OF assms(4)] by simp
  then have "needs (verdict_of g c k a n ci) = CTypeName" by (simp add: max_def antisym)
  then show ?thesis
    using assms(4) by (auto simp: needs_def goes_ahead_def split: verdict.splits)
qed

theorem delete_asks_for_the_name_witness:
  "verdict_of guardrails_default ''pc'' lab_kind lab_delete 1 (CanUnknown []) = Confirm CTypeName"
proof -
  have "from_config False [] = Inr guardrails_default"
    by (simp add: from_config_def guardrails_default_def)
  then show ?thesis
    by (rule delete_asks_for_the_name [OF _ _ _ lab_delete_goes]) (simp_all add: lab_delete_def)
qed

end
