(* ===== verification/Write_Path.thy ===== *)
theory Write_Path
  imports Json
begin

text \<open>
  The write grammar of a form: \<open>valid_field_name\<close> (\<open>crates/catalog/src/lib.rs\<close>) and the pair
  \<open>write_at\<close> and \<open>read_at\<close> of \<open>crates/core/src/actions.rs\<close>, which resolve \<open>seg[n].seg\<close> paths one
  index at a time.

  On an error the source leaves a document half written, and its only caller throws that
  document away: here an error carries no document.
\<close>

section \<open>Field names\<close>

definition max_field_index :: nat where
  "max_field_index = 16"

definition word_char :: "char \<Rightarrow> bool" where
  "word_char c \<longleftrightarrow> (let n = (of_char c :: nat) in
     48 \<le> n \<and> n \<le> 57 \<or> 65 \<le> n \<and> n \<le> 90 \<or> 97 \<le> n \<and> n \<le> 122 \<or> n = 95)"

definition valid_segment :: "string \<Rightarrow> bool" where
  "valid_segment segment =
     (case (case split_once CHR ''['' segment of
         None \<Rightarrow> Some (segment, None)
       | Some (key, rest) \<Rightarrow> (case strip_suffix '']'' rest of
             None \<Rightarrow> None
           | Some digits \<Rightarrow> Some (key, Some digits))) of
        None \<Rightarrow> False
      | Some (key, index) \<Rightarrow>
          (if key = [] \<or> \<not> list_all word_char key then False
           else case index of
               None \<Rightarrow> True
             | Some digits \<Rightarrow> (case parse_uint u64_max digits of
                   None \<Rightarrow> False
                 | Some n \<Rightarrow> n < max_field_index \<and> digits = show_nat n)))"

definition valid_field_name :: "string \<Rightarrow> bool" where
  "valid_field_name name \<longleftrightarrow> name \<noteq> [] \<and> list_all valid_segment (split_on CHR ''.'' name)"

section \<open>Writing and reading\<close>

text \<open>What a segment names: a key, and the index into the array there when it has one.\<close>

definition seg_index :: "string \<Rightarrow> string \<times> nat option" where
  "seg_index segment =
     (case split_once CHR ''['' segment of
        None \<Rightarrow> (segment, None)
      | Some (key, rest) \<Rightarrow> (key, parse_uint u64_max (rev (dropWhile (\<lambda>c. c = CHR '']'') (rev rest)))))"

definition entry_or :: "json \<Rightarrow> string \<Rightarrow> (string \<times> json) list \<Rightarrow> json" where
  "entry_or d key m = (case map_of m key of Some v \<Rightarrow> v | None \<Rightarrow> d)"

definition grow_to :: "nat \<Rightarrow> json list \<Rightarrow> json list" where
  "grow_to n vs = vs @ replicate (Suc n - length vs) JNull"

definition object_or_new :: "json \<Rightarrow> json" where
  "object_or_new v = (case v of JObj m \<Rightarrow> v | _ \<Rightarrow> JObj [])"

text \<open>
  The loop of \<open>write_at\<close>: \<open>before\<close> are the segments already walked, \<open>v\<close> is what the walk has
  come to, and the result is \<open>v\<close> with the rest written into it.
\<close>

fun write_segs :: "string \<Rightarrow> string list \<Rightarrow> string list \<Rightarrow> json \<Rightarrow> json \<Rightarrow> string + json" where
  "write_segs name before [] new v = Inr v"
| "write_segs name before (seg # segs) new v =
     (case v of
        JObj m \<Rightarrow>
          (case seg_index seg of
             (key, None) \<Rightarrow>
               (if segs = [] then Inr (JObj (map_insert key new m))
                else case write_segs name (before @ [seg]) segs new (entry_or (JObj []) key m) of
                    Inl e \<Rightarrow> Inl e
                  | Inr child \<Rightarrow> Inr (JObj (map_insert key child m)))
           | (key, Some n) \<Rightarrow>
               (case entry_or (JArr []) key m of
                  JArr vs \<Rightarrow>
                    (let grown = grow_to n vs
                     in if segs = [] then Inr (JObj (map_insert key (JArr (grown[n := new])) m))
                        else case write_segs name (before @ [seg]) segs new (object_or_new (grown ! n)) of
                            Inl e \<Rightarrow> Inl e
                          | Inr child \<Rightarrow> Inr (JObj (map_insert key (JArr (grown[n := child])) m)))
                | _ \<Rightarrow> Inl (name @ '': '' @ key @ '' is not an array'')))
      | _ \<Rightarrow> Inl (name @ '': '' @ join ''.'' before @ '' is not an object''))"

definition write_at :: "json \<Rightarrow> string \<Rightarrow> json \<Rightarrow> string + json" where
  "write_at body name new =
     (if \<not> valid_field_name name then Inl (''field name '' @ debug_str name @ '' is not a write path'')
      else write_segs name [] (split_on CHR ''.'' name) new body)"

fun read_segs :: "string list \<Rightarrow> json \<Rightarrow> json option" where
  "read_segs [] v = Some v"
| "read_segs (seg # segs) v =
     (case v of
        JObj m \<Rightarrow>
          (case seg_index seg of
             (key, None) \<Rightarrow> Option.bind (map_of m key) (read_segs segs)
           | (key, Some n) \<Rightarrow>
               (case map_of m key of
                  Some (JArr vs) \<Rightarrow> (if n < length vs then read_segs segs (vs ! n) else None)
                | _ \<Rightarrow> None))
      | _ \<Rightarrow> None)"

definition read_at :: "json \<Rightarrow> string \<Rightarrow> json option" where
  "read_at v name = (if valid_field_name name then read_segs (split_on CHR ''.'' name) v else None)"

section \<open>What a write is read back as\<close>

lemma grow_to_longer: "n < length (grow_to n vs)"
  by (auto simp: grow_to_def)

lemma grow_to_old: "i < length vs \<Longrightarrow> grow_to n vs ! i = vs ! i"
  by (simp add: grow_to_def nth_append)

lemma read_written:
  "write_segs name before segs new v = Inr w \<Longrightarrow> segs \<noteq> [] \<Longrightarrow> read_segs segs w = Some new"
proof (induction name before segs new v arbitrary: w rule: write_segs.induct)
  case (1 name before new v)
  then show ?case by simp
next
  case (2 name before seg segs new v)
  then obtain m where v: "v = JObj m" by (cases v) auto
  obtain key i where k: "seg_index seg = (key, i)" by force
  show ?case
  proof (cases i)
    case None
    then show ?thesis using 2 v k
      by (auto simp: map_of_map_insert split: if_splits sum.splits)
  next
    case (Some n)
    then obtain vs where vs: "entry_or (JArr []) key m = JArr vs"
      using 2 v k by (auto split: json.splits)
    show ?thesis
    proof (cases "segs = []")
      case True
      then show ?thesis using 2 v k Some vs
        by (auto simp: map_of_map_insert grow_to_longer)
    next
      case False
      then show ?thesis using 2 v k Some vs
        by (auto simp: map_of_map_insert grow_to_longer Let_def split: sum.splits)
    qed
  qed
qed

text \<open>Two paths that part: at some segment they name different keys, or different indices of one array.\<close>

fun diverge :: "string list \<Rightarrow> string list \<Rightarrow> bool" where
  "diverge (s # ss) (t # ts) =
     (case (seg_index s, seg_index t) of
        ((k, i), (l, j)) \<Rightarrow> k \<noteq> l \<or> (if i = j then diverge ss ts else i \<noteq> None \<and> j \<noteq> None))"
| "diverge _ _ = False"

lemma diverge_Nil [simp]: "\<not> diverge [] ts" "\<not> diverge ss []"
  by (cases ss; simp)+

lemma diverge_sym: "diverge ss ts = diverge ts ss"
  by (induction ss ts rule: diverge.induct) (auto split: prod.splits)

lemma read_elsewhere:
  "write_segs name before ss new v = Inr w \<Longrightarrow> diverge ss ts \<Longrightarrow> read_segs ts v = Some x \<Longrightarrow>
    read_segs ts w = Some x"
proof (induction name before ss new v arbitrary: ts w rule: write_segs.induct)
  case (1 name before new v)
  then show ?case by simp
next
  case (2 name before s ss new v)
  obtain t us where ts: "ts = t # us" using 2 by (cases ts) auto
  obtain m where v: "v = JObj m" using 2 by (cases v) auto
  obtain k i where s: "seg_index s = (k, i)" by force
  obtain l j where t: "seg_index t = (l, j)" by force
  show ?case
  proof (cases "k = l")
    case False
    then have "\<exists>c. w = JObj (map_insert k c m)"
      using 2(3) v s by (auto simp: Let_def split: option.splits if_splits sum.splits json.splits)
    then obtain c where "w = JObj (map_insert k c m)" ..
    then show ?thesis using 2 ts v t False by (simp add: map_of_map_insert)
  next
    case kl: True
    show ?thesis
    proof (cases i)
      case None
      then have j: "j = None" and d: "diverge ss us" using 2(4) ts s t kl by (auto split: if_splits)
      then obtain child where c: "map_of m k = Some child" "read_segs us child = Some x"
        using 2(5) ts v t kl by (auto simp: bind_eq_Some_conv)
      have ss: "ss \<noteq> []" using d by auto
      obtain c' where c': "write_segs name (before @ [s]) ss new child = Inr c'" "w = JObj (map_insert k c' m)"
        using 2(3) ss v s None c by (auto simp: entry_or_def split: sum.splits)
      have "read_segs us c' = Some x"
        using 2(1) [OF v s [symmetric] None ss] c' c d by (simp add: entry_or_def)
      then show ?thesis using c' ts t j kl by (simp add: map_of_map_insert)
    next
      case (Some n)
      then obtain n' where j: "j = Some n'" using 2(4) ts s t kl by (auto split: if_splits)
      then obtain vs where vs: "map_of m k = Some (JArr vs)" "n' < length vs" "read_segs us (vs ! n') = Some x"
        using 2(5) ts v t kl by (auto split: option.splits json.splits if_splits)
      have old: "grow_to n vs ! n' = vs ! n'" "n' < length (grow_to n vs)"
        using vs(2) by (auto simp: grow_to_def nth_append)
      show ?thesis
      proof (cases "n = n'")
        case False
        then show ?thesis using 2(3) v ts s t j kl Some vs old
          by (auto simp: map_of_map_insert entry_or_def Let_def split: sum.splits if_splits)
      next
        case True
        then have d: "diverge ss us" using 2(4) ts s t kl Some j by simp
        then have "us \<noteq> []" "ss \<noteq> []" by auto
        then obtain m' where "vs ! n' = JObj m'" using vs(3) by (cases us; cases "vs ! n'") auto
        then have child: "object_or_new (grow_to n vs ! n) = vs ! n'" using old True by (simp add: object_or_new_def)
        obtain c' where c': "write_segs name (before @ [s]) ss new (vs ! n') = Inr c'"
          "w = JObj (map_insert k (JArr ((grow_to n vs)[n := c'])) m)"
          using 2(3) \<open>ss \<noteq> []\<close> v s Some vs(1) child by (auto simp: entry_or_def Let_def split: sum.splits)
        have "read_segs us c' = Some x"
          using 2(2) [OF v s [symmetric] Some _ _ \<open>ss \<noteq> []\<close>] c' vs d child by (simp add: entry_or_def)
        then show ?thesis using c' ts t j kl old True by (simp add: map_of_map_insert)
      qed
    qed
  qed
qed

end
