(* ===== verification/Failure.thy ===== *)
theory Failure
  imports Guardrails
begin

text \<open>
  How a table is named and why a request failed, in the terms the screen has to tell apart
  (\<open>TableKey\<close>, \<open>Failure\<close> and \<open>Cause\<close> of \<open>crates/core/src/store.rs\<close>).
\<close>

section \<open>Table keys\<close>

record table_key =
  tk_kind :: kind
  tk_parents :: "string list"
  tk_filter :: "string option"
  tk_context :: "string option"

definition key_top :: "kind \<Rightarrow> table_key" where
  "key_top k = \<lparr>tk_kind = k, tk_parents = [], tk_filter = None, tk_context = None\<rparr>"

definition key_under :: "kind \<Rightarrow> string list \<Rightarrow> table_key" where
  "key_under k parents = \<lparr>tk_kind = k, tk_parents = parents, tk_filter = None, tk_context = None\<rparr>"

definition in_context :: "string \<Rightarrow> table_key \<Rightarrow> table_key" where
  "in_context name key = key\<lparr>tk_context := Some name\<rparr>"

definition is_top :: "table_key \<Rightarrow> bool" where
  "is_top key \<longleftrightarrow> tk_parents key = [] \<and> tk_filter key = None \<and> tk_context key = None"

definition key_filtered :: "kind \<Rightarrow> string option \<Rightarrow> table_key" where
  "key_filtered k filt = \<lparr>tk_kind = k, tk_parents = [], tk_filter = filt, tk_context = None\<rparr>"

text \<open>Two keys name one table when these four agree: kinds are told apart by their ids.\<close>

definition key_id :: "table_key \<Rightarrow> string \<times> string list \<times> string option \<times> string option" where
  "key_id key = (k_id (tk_kind key), tk_parents key, tk_filter key, tk_context key)"

definition same_key :: "table_key \<Rightarrow> table_key \<Rightarrow> bool" where
  "same_key a b \<longleftrightarrow> k_id (tk_kind a) = k_id (tk_kind b) \<and> tk_parents a = tk_parents b \<and>
     tk_filter a = tk_filter b \<and> tk_context a = tk_context b"

lemma same_key_id: "same_key a b \<longleftrightarrow> key_id a = key_id b"
  by (simp add: same_key_def key_id_def)

section \<open>Failures\<close>

datatype cause =
    NotServed
  | NotFound
  | Unavailable nat
  | RateLimited
  | RejectedWith nat
  | DeniedHere
  | Unreachable
  | Unreadable
  | LocalCause

record failure =
  fl_cause :: cause
  fl_namespace :: string
  fl_upstream :: string

fun cause_of :: "bool \<Rightarrow> prism_error \<Rightarrow> cause" where
  "cause_of not_served (ENotFound _) = (if not_served then NotServed else NotFound)"
| "cause_of not_served (EApi status _ _) = (if 500 \<le> status then Unavailable status else RejectedWith status)"
| "cause_of not_served (ERateLimited _) = RateLimited"
| "cause_of not_served EAuth = RejectedWith 401"
| "cause_of not_served (EDenied _) = DeniedHere"
| "cause_of not_served (EForbidden _) = RejectedWith 403"
| "cause_of not_served (EConflict _ _ _) = RejectedWith 412"
| "cause_of not_served (ETransport _) = Unreachable"
| "cause_of not_served (EDecode _) = Unreadable"
| "cause_of not_served _ = LocalCause"

definition failure_of :: "kind \<Rightarrow> prism_error \<Rightarrow> bool \<Rightarrow> failure" where
  "failure_of k e not_served =
     \<lparr>fl_cause = cause_of not_served e, fl_namespace = k_namespace k, fl_upstream = error_text e\<rparr>"

definition failure_local :: "string \<Rightarrow> failure" where
  "failure_local message = \<lparr>fl_cause = LocalCause, fl_namespace = [], fl_upstream = message\<rparr>"

fun failure_text :: "failure \<Rightarrow> string" where
  "failure_text f = (case fl_cause f of
       NotServed \<Rightarrow> not_served_text
     | NotFound \<Rightarrow> ''not found (HTTP 404)''
     | Unavailable status \<Rightarrow> fl_namespace f @ '' unavailable (HTTP '' @ show_nat status @ '') - retrying''
     | RateLimited \<Rightarrow> ''rate limited (HTTP 429) - retrying''
     | RejectedWith status \<Rightarrow>
         (if status = 401 then ''authentication failed (HTTP 401) - requests stopped; run `nutsh ctx login`''
          else if status = 403 then ''not permitted for this account (HTTP 403)''
          else if 300 \<le> status \<and> status \<le> 399
            then ''this Prism Central redirected the request (HTTP '' @ show_nat status @ '') - not followed''
          else ''the request was refused (HTTP '' @ show_nat status @ '')'')
     | DeniedHere \<Rightarrow> ''not permitted for this account (HTTP 401)''
     | Unreachable \<Rightarrow> ''cannot reach this Prism Central (retrying)''
     | Unreadable \<Rightarrow> ''the response could not be read (see :journal)''
     | LocalCause \<Rightarrow> fl_upstream f)"

definition failure_is_terminal :: "failure \<Rightarrow> bool" where
  "failure_is_terminal f \<longleftrightarrow> fl_cause f = RejectedWith 401 \<or> fl_cause f = DeniedHere"

definition failure_is_not_served :: "failure \<Rightarrow> bool" where
  "failure_is_not_served f \<longleftrightarrow> fl_cause f = NotServed"

lemma failure_terminal_iff:
  "failure_is_terminal (failure_of k e ns) \<longleftrightarrow>
     e = EAuth \<or> (\<exists>m. e = EDenied m) \<or> (\<exists>m w. e = EApi 401 m w)"
  by (cases e) (auto simp: failure_is_terminal_def failure_of_def)

lemma failure_not_served_iff:
  "failure_is_not_served (failure_of k e ns) \<longleftrightarrow> ns \<and> (\<exists>m. e = ENotFound m)"
  by (cases e) (auto simp: failure_is_not_served_def failure_of_def)

end
