(* ===== verification/Kept.thy ===== *)
theory Kept
  imports Requests
begin

text \<open>
  What the client's operations leave alone. Two interfaces: \<open>kept_pages\<close>, for a condition every
  page of a list keeps, and \<open>kept_sends\<close>, for a condition every single \<open>send\<close> keeps and that
  does not look at what negotiation settles. Whatever meets the second one, every list, get,
  action, update, negotiation and repair keeps too.
\<close>

section \<open>What a list leaves alone\<close>

text \<open>Whatever every page of a list keeps, the whole list keeps.\<close>

locale kept_pages =
  fixes fetch :: "nat \<Rightarrow> 'w client \<Rightarrow> (prism_error + page) \<times> 'w client"
    and kept :: "'w client \<Rightarrow> bool"
  assumes page_keeps: "kept c \<Longrightarrow> kept (snd (fetch p c))"
begin

lemma fetch_kept: "fetch p c = (r, d) \<Longrightarrow> kept c \<Longrightarrow> kept d"
  using page_keeps [of c p] by simp

lemma each_kept: "fetch_each fetch ps c = (r, d) \<Longrightarrow> kept c \<Longrightarrow> kept d"
proof (induction ps arbitrary: c r d)
  case Nil
  then show ?case by simp
next
  case (Cons p ps)
  obtain x c1 where x: "fetch p c = (x, c1)" by force
  have c1: "kept c1" using fetch_kept [OF x] Cons.prems by simp
  obtain y c2 where y: "fetch_each fetch ps c1 = (y, c2)" by force
  have "kept c2" using Cons.IH [OF y c1] .
  then show ?case using Cons.prems x y c1 by (auto split: sum.splits)
qed

lemma walk_kept: "walk_pages fetch kid lmt page all c = (r, d) \<Longrightarrow> kept c \<Longrightarrow> kept d"
proof (induction "max_pages - page" arbitrary: page all c r d rule: less_induct)
  case less
  obtain x c1 where x: "fetch page c = (x, c1)" by force
  have c1: "kept c1" using fetch_kept [OF x less.prems(2)] .
  show ?case
  proof (cases "length all mod lmt = 0 \<and> all \<noteq> [] \<and> page < max_pages \<and> (\<exists>pg. x = Inr pg \<and> pg_entities pg \<noteq> [])")
    case True
    then obtain pg where pg: "x = Inr pg" "pg_entities pg \<noteq> []" by blast
    then have w: "walk_pages fetch kid lmt (Suc page) (all @ pg_entities pg) c1 = (r, d)"
      using less.prems(1) True x by (subst (asm) walk_pages.simps) simp
    have "page < max_pages" using True by blast
    then have "max_pages - Suc page < max_pages - page" by (rule diff_less_mono2 [OF lessI])
    then show ?thesis by (rule less.hyps [OF _ w c1])
  next
    case False
    then show ?thesis using less.prems x c1
      by (subst (asm) walk_pages.simps) (auto split: if_splits sum.splits)
  qed
qed

lemma list_all_kept: "list_all_with paged kid lmt fetch c = (r, d) \<Longrightarrow> kept c \<Longrightarrow> kept d"
proof -
  assume r: "list_all_with paged kid lmt fetch c = (r, d)" and c: "kept c"
  obtain x c1 where x: "fetch 0 c = (x, c1)" by force
  have c1: "kept c1" using fetch_kept [OF x c] .
  have each: "kept c2" if "fetch_each fetch ps c1 = (y, c2)" for ps y c2 using each_kept [OF that c1] .
  show "kept d"
  proof (cases x)
    case (Inl e)
    then show ?thesis using r x c1 by (simp add: list_all_with_def)
  next
    case (Inr pg)
    show ?thesis
    proof (cases "pg_total pg")
      case None
      then show ?thesis using r x c1 Inr walk_kept [OF _ c1] by (auto simp: list_all_with_def split: if_splits)
    next
      case (Some t)
      then show ?thesis using r x c1 Inr
        by (auto simp: list_all_with_def Let_def dest: each split: if_splits sum.splits prod.splits)
    qed
  qed
qed

end

section \<open>What every operation leaves alone\<close>

locale kept_sends =
  fixes env :: "'w env" and kept :: "'w client \<Rightarrow> bool"
  assumes send_keeps: "kept c \<Longrightarrow> kept (snd (send env rq c))"
    and settled_keeps: "kept c \<Longrightarrow> kept (c\<lparr>c_pins := a, c_statuses := b, c_adopted := x\<rparr>)"
    and repaired_keeps: "kept c \<Longrightarrow> kept (c\<lparr>c_repaired := y\<rparr>)"
    and select_keeps: "kept c \<Longrightarrow> kept (refuse_select k c)"
begin

lemma send_kept: "send env rq c = (r, d) \<Longrightarrow> kept c \<Longrightarrow> kept d"
  using send_keeps [of c rq] by simp

lemma fetch_page_kept: "fetch_page env k path q sel c = (r, d) \<Longrightarrow> kept c \<Longrightarrow> kept d"
  by (auto simp: fetch_page_def Let_def dest!: send_kept split: prod.splits sum.splits)

lemma narrowed_kept: "fetch_narrowed env k path q sel c = (r, d) \<Longrightarrow> kept c \<Longrightarrow> kept d"
  by (auto simp: fetch_narrowed_def dest!: fetch_page_kept intro: select_keeps
      split: prod.splits sum.splits if_splits)

lemma once_kept: "list_page_once env k pg opts v c = (r, d) \<Longrightarrow> kept c \<Longrightarrow> kept d"
  by (auto simp: list_page_once_def Let_def dest: narrowed_kept split: sum.splits)

lemma probe_kinds_kept: "probe_kinds env ns v ks down c = (r, d) \<Longrightarrow> kept c \<Longrightarrow> kept d"
proof (induction ks arbitrary: down c)
  case Nil
  then show ?case by simp
next
  case (Cons k ks)
  obtain x c1 where x: "list_page_once env k 0 probe_options (Some v) c = (x, c1)" by force
  have c1: "kept c1" by (rule once_kept [OF x Cons.prems(2)])
  then show ?case using Cons.prems(1) x Cons.IH [OF _ c1]
    by (auto simp: Let_def split: sum.splits probe_verdict.splits)
qed

lemma probe_versions_kept: "probe_versions env cat ns vs pa c = (r, d) \<Longrightarrow> kept c \<Longrightarrow> kept d"
proof (induction vs arbitrary: pa c)
  case Nil
  then show ?case by simp
next
  case (Cons v vs)
  obtain x c1 where x: "probe_kinds env ns v (probe_candidates cat ns v) None c = (x, c1)" by force
  have c1: "kept c1" by (rule probe_kinds_kept [OF x Cons.prems(2)])
  then show ?case using Cons.prems(1) x Cons.IH [OF _ c1]
    by (auto simp: Let_def split: sum.splits option.splits)
qed

lemma probe_kept: "probe_namespace env cat ns c = (r, d) \<Longrightarrow> kept c \<Longrightarrow> kept d"
  by (auto simp: probe_namespace_def dest: probe_versions_kept)

lemma probe_all_kept: "probe_all env cat nss c = (r, d) \<Longrightarrow> kept c \<Longrightarrow> kept d"
proof (induction nss arbitrary: c r d)
  case Nil
  then show ?case by simp
next
  case (Cons ns nss)
  obtain x c1 where x: "probe_namespace env cat ns c = (x, c1)" by force
  have c1: "kept c1" by (rule probe_kept [OF x Cons.prems(2)])
  obtain y c2 where y: "probe_all env cat nss c1 = (y, c2)" by force
  have "kept c2" by (rule Cons.IH [OF y c1])
  then show ?case using Cons.prems(1) x y c1 by (auto split: sum.splits)
qed

lemma negotiate_kept: "negotiate env cat c = (r, d) \<Longrightarrow> kept c \<Longrightarrow> kept d"
  by (auto simp: negotiate_def dest!: probe_all_kept intro: settled_keeps split: prod.splits sum.splits)

lemma negotiate_namespace_kept: "negotiate_namespace env cat name c = (r, d) \<Longrightarrow> kept c \<Longrightarrow> kept d"
  by (auto simp: negotiate_namespace_def dest!: probe_kept intro: settled_keeps
      split: option.splits prod.splits sum.splits)

lemma repair_kept: "kept c \<Longrightarrow> kept (repair_after env cat ns e c)"
  using negotiate_namespace_kept [OF surjective_pairing] repaired_keeps
  by (auto simp: repair_after_def split: option.split)

lemma page_at_kept: "list_page_at env cat k pg opts v c = (r, d) \<Longrightarrow> kept c \<Longrightarrow> kept d"
  by (auto simp: list_page_at_def dest!: once_kept intro: repair_kept split: prod.splits sum.splits if_splits)

lemma page_kept: "list_page env cat k pg opts c = (r, d) \<Longrightarrow> kept c \<Longrightarrow> kept d"
  by (auto simp: list_page_def dest: page_at_kept)

sublocale pages: kept_pages "\<lambda>p. list_page env cat k p opts" kept for cat k opts
  by unfold_locales (rule page_kept [OF surjective_pairing])

lemma all_kept: "list_all env cat k opts c = (r, d) \<Longrightarrow> kept c \<Longrightarrow> kept d"
  unfolding list_all_def by (rule pages.list_all_kept)

lemma resolve_cluster_kept: "resolve_cluster env cat name c = (r, d) \<Longrightarrow> kept c \<Longrightarrow> kept d"
  by (auto simp: resolve_cluster_def dest: all_kept split: option.splits prod.splits sum.splits)

lemma get_kept: "get_in env k parents ext_id c = (r, d) \<Longrightarrow> kept c \<Longrightarrow> kept d"
  by (auto simp: get_in_def Let_def dest!: send_kept split: option.splits prod.splits sum.splits)

lemma get_path_kept: "get_path env path c = (r, d) \<Longrightarrow> kept c \<Longrightarrow> kept d"
  by (auto simp: get_path_def Let_def dest!: send_kept split: prod.splits sum.splits)

lemma etag_kept: "etag_for env k parents ext_id action etag c = (r, d) \<Longrightarrow> kept c \<Longrightarrow> kept d"
  by (auto simp: etag_for_def dest!: get_kept
      split: option.splits prod.splits sum.splits prism_error.splits)

lemma act_send_kept: "act_send env k a ext_id path etag body c = (r, d) \<Longrightarrow> kept c \<Longrightarrow> kept d"
  by (auto simp: act_send_def dest!: send_kept split: prod.splits sum.splits if_splits)

lemma act_with_etag_kept: "act_with_etag env k parents ext_id action body etag c = (r, d) \<Longrightarrow> kept c \<Longrightarrow> kept d"
  by (auto simp: act_with_etag_def Let_def dest: etag_kept act_send_kept
      split: option.splits prod.splits sum.splits prism_error.splits if_splits)

lemma act_kept: "act env k parents ext_id action body c = (r, d) \<Longrightarrow> kept c \<Longrightarrow> kept d"
  by (auto simp: act_def dest: act_with_etag_kept)

lemma update_kept: "update env k parents ext_id changes c = (r, d) \<Longrightarrow> kept c \<Longrightarrow> kept d"
  by (auto simp: update_def dest: get_kept act_with_etag_kept
      split: json.splits option.splits prod.splits sum.splits)

lemma pc_identity_kept: "pc_identity env cat c = (r, d) \<Longrightarrow> kept c \<Longrightarrow> kept d"
  by (auto simp: pc_identity_def pc_identity_result_def dest: page_kept
      split: option.splits prod.splits sum.splits list.splits if_splits)

end

end
