(* ===== verification/Connected.thy ===== *)
theory Connected
  imports Failure Kept
begin

text \<open>
  A connected Prism Central (\<open>crates/core/src/session.rs\<close>): connecting with or without what the
  cache restored, the rule for which restored statuses may be adopted, and their record.
\<close>

section \<open>What a cache directory gave back\<close>

record identity =
  id_host :: string
  id_port :: nat
  id_username :: string
  id_domain_manager :: "string option"
  id_pc_version :: "string option"

definition same_target :: "identity \<Rightarrow> identity \<Rightarrow> bool" where
  "same_target a b \<longleftrightarrow> id_host a = id_host b \<and> id_port a = id_port b \<and> id_username a = id_username b"

record ns_record =
  nr_name :: string
  nr_version :: string
  nr_pinned :: "string option"
  nr_ok :: bool
  nr_detail :: string
  nr_at :: nat

record cluster_record =
  cl_ext_id :: string
  cl_name :: string

text \<open>The part of \<open>Restored\<close> a connection reads.\<close>

record restored =
  rs_identity :: identity
  rs_pins :: "(string \<times> string) list"
  rs_namespaces :: "ns_record list"
  rs_cluster :: "cluster_record option"

definition namespace_ttl :: nat where
  "namespace_ttl = 24 * 60 * 60"

section \<open>The session\<close>

datatype cache_outcome = NotOffered | Adopted | CacheRejected

record 'w connected =
  cn_client :: "'w client"
  cn_host :: string
  cn_port :: nat
  cn_username :: string
  cn_context :: "string option"
  cn_cluster :: "cluster_ref option"
  cn_readonly :: bool
  cn_insecure :: bool
  cn_pc_version :: "string option"
  cn_domain_manager :: "string option"
  cn_cache :: cache_outcome

record scope =
  sc_context :: "string option"
  sc_cluster :: "string option"
  sc_readonly :: bool

datatype connect_error = NegotiateFailed prism_error | ClusterFailed string prism_error

fun host_wide :: "prism_error \<Rightarrow> bool" where
  "host_wide EAuth = True"
| "host_wide (ECertificate _ _) = True"
| "host_wide (ETls _) = True"
| "host_wide (EConnect _ _) = True"
| "host_wide (ETransport _) = True"
| "host_wide (ERateLimited _) = True"
| "host_wide _ = False"

definition cache_verdict :: "string option \<Rightarrow> string option \<Rightarrow> cache_outcome" where
  "cache_verdict said stored = (case (said, stored) of
       (Some a, Some s) \<Rightarrow> (if a \<noteq> s then CacheRejected else Adopted)
     | _ \<Rightarrow> Adopted)"

section \<open>Restored statuses\<close>

text \<open>\<open>str::trim_start_matches\<close> on a non-empty string.\<close>

function trim_start_matches :: "string \<Rightarrow> string \<Rightarrow> string" where
  "trim_start_matches p s =
     (if p \<noteq> [] \<and> prefix p s then trim_start_matches p (drop (length p) s) else s)"
  by pat_completeness auto
termination
  by (relation "measure (\<lambda>(p, s). length s)") (auto simp: prefix_def)

declare trim_start_matches.simps [simp del]

definition adopted_status :: "ns_info list \<Rightarrow> ns_record \<Rightarrow> ns_status option" where
  "adopted_status nss n =
     (case find (\<lambda>c. n_name c = nr_name n) nss of
        None \<Rightarrow> None
      | Some ns \<Rightarrow> Some \<lparr>ns_name = n_name ns, ns_version = n_version ns,
          ns_pinned = Option.bind (nr_pinned n) (\<lambda>p. find (\<lambda>v. v = p) (n_versions ns)),
          ns_ok = True, ns_detail = trim_start_matches ''restored: '' (nr_detail n), ns_restored = True\<rparr>)"

definition adoptable :: "catalog \<Rightarrow> restored \<Rightarrow> nat \<Rightarrow> ns_status list" where
  "adoptable cat r now =
     List.map_filter (adopted_status (cat_namespaces cat))
       (filter (\<lambda>n. nr_ok n \<and> now - nr_at n \<le> namespace_ttl) (rs_namespaces r))"

definition recorded :: "ns_status \<Rightarrow> nat \<Rightarrow> ns_record" where
  "recorded status now = \<lparr>nr_name = ns_name status, nr_version = ns_version status,
     nr_pinned = ns_pinned status, nr_ok = ns_ok status, nr_detail = ns_detail status, nr_at = now\<rparr>"

section \<open>Connecting\<close>

definition split_identity :: "(string \<times> string option) option \<Rightarrow> string option \<times> string option" where
  "split_identity identity = (case identity of
       Some (ext_id, version) \<Rightarrow> (Some ext_id, version) | None \<Rightarrow> (None, None))"

text \<open>The cluster of the session: the restored one when it is the one asked for, or a lookup.\<close>

definition pick_scope :: "'w env \<Rightarrow> catalog \<Rightarrow> string option \<Rightarrow> cluster_record option \<Rightarrow> 'w client
    \<Rightarrow> (connect_error + cluster_ref option) \<times> 'w client" where
  "pick_scope env cat wanted stored c =
     (case wanted of
        None \<Rightarrow> (Inr None, c)
      | Some name \<Rightarrow>
          (case stored of
             Some s \<Rightarrow> (if eq_ignore_ascii_case (cl_name s) name
                then (Inr (Some \<lparr>cr_ext_id = cl_ext_id s, cr_name = cl_name s\<rparr>), c)
                else (case resolve_cluster env cat name c of
                    (Inl e, c1) \<Rightarrow> (Inl (ClusterFailed name e), c1) | (Inr x, c1) \<Rightarrow> (Inr (Some x), c1)))
           | None \<Rightarrow> (case resolve_cluster env cat name c of
                 (Inl e, c1) \<Rightarrow> (Inl (ClusterFailed name e), c1) | (Inr x, c1) \<Rightarrow> (Inr (Some x), c1))))"

text \<open>With a restored record: adopt it, then let the one request of that path judge it.\<close>

definition open_restored :: "'w env \<Rightarrow> catalog \<Rightarrow> restored \<Rightarrow> nat \<Rightarrow> 'w client
    \<Rightarrow> (connect_error + (string option \<times> string option) \<times> cache_outcome) \<times> 'w client" where
  "open_restored env cat r now c =
     (case pc_identity_result env cat (adopt_pins cat (rs_pins r) (adoptable cat r now) c) of
        (Inl e, c1) \<Rightarrow> (if host_wide e then (Inl (NegotiateFailed e), c1)
          else (Inr ((None, None), Adopted), c1))
      | (Inr identity, c1) \<Rightarrow>
          (let ident = split_identity identity;
               outcome = cache_verdict (fst ident) (id_domain_manager (rs_identity r))
           in if outcome = CacheRejected then
                (case negotiate env cat c1 of
                   (Inl e, c2) \<Rightarrow> (Inl (NegotiateFailed e), c2)
                 | (Inr _, c2) \<Rightarrow> (Inr (ident, outcome), c2))
              else (Inr (ident, outcome), c1)))"

definition open_fresh :: "'w env \<Rightarrow> catalog \<Rightarrow> 'w client
    \<Rightarrow> (connect_error + (string option \<times> string option) \<times> cache_outcome) \<times> 'w client" where
  "open_fresh env cat c =
     (case negotiate env cat c of
        (Inl e, c1) \<Rightarrow> (Inl (NegotiateFailed e), c1)
      | (Inr _, c1) \<Rightarrow> (case pc_identity env cat c1 of
            (identity, c2) \<Rightarrow> (Inr (split_identity identity, NotOffered), c2)))"

definition connect_session :: "'w env \<Rightarrow> catalog \<Rightarrow> profile \<Rightarrow> scope \<Rightarrow> restored option \<Rightarrow> nat \<Rightarrow> 'w client
    \<Rightarrow> (connect_error + 'w connected) \<times> 'w client" where
  "connect_session env cat profile scope rst now c =
     (case (case rst of Some r \<Rightarrow> open_restored env cat r now c | None \<Rightarrow> open_fresh env cat c) of
        (Inl e, c1) \<Rightarrow> (Inl e, c1)
      | (Inr ((domain_manager, pc_version), outcome), c1) \<Rightarrow>
          (case pick_scope env cat (sc_cluster scope)
             (if outcome = Adopted then Option.bind rst rs_cluster else None) c1 of
             (Inl e, c2) \<Rightarrow> (Inl e, c2)
           | (Inr cluster, c2) \<Rightarrow> (Inr \<lparr>cn_client = c2, cn_host = pf_host profile, cn_port = pf_port profile,
               cn_username = pf_username profile, cn_context = sc_context scope, cn_cluster = cluster,
               cn_readonly = sc_readonly scope, cn_insecure = \<not> pf_verify_tls profile,
               cn_pc_version = pc_version, cn_domain_manager = domain_manager, cn_cache = outcome\<rparr>, c2)))"

definition session_header :: "'w connected \<Rightarrow> string" where
  "session_header s =
     (let cluster = (case cn_cluster s of Some c \<Rightarrow> cr_name c @ '' ('' @ cr_ext_id c @ '')'' | None \<Rightarrow> ''-'');
          version = (case cn_pc_version s of Some v \<Rightarrow> '' '' @ v | None \<Rightarrow> []);
          mode = (if cn_readonly s then ''read-only'' else ''read-write'');
          insecure = (if cn_insecure s then '' [insecure]'' else [])
      in ''context '' @ (case cn_context s of Some c \<Rightarrow> c | None \<Rightarrow> ''-'') @ ''  '' @ cn_host s @ version @
        ''  cluster '' @ cluster @ ''  '' @ mode @ insecure)"

section \<open>A cache that belongs elsewhere\<close>

text \<open>Nothing in the client's routing came from disk.\<close>

definition probed_only :: "'w client \<Rightarrow> bool" where
  "probed_only c \<longleftrightarrow> c_adopted c = {} \<and> (\<forall>st \<in> set (c_statuses c). \<not> ns_restored st)"

lemma probed_only_routing: "routing d = routing c \<Longrightarrow> probed_only c \<Longrightarrow> probed_only d"
  by (simp add: probed_only_def routing_def)

lemma probed_only_page:
  assumes "probed_only c"
  shows "probed_only (snd (list_page env cat k p opts c))"
proof -
  obtain x c1 where x: "list_page_once env k p opts None c = (x, c1)" by force
  have "probed_only c1" using probed_only_routing [OF routing_list [OF x] assms] .
  moreover from this have "repair_after env cat ns e c1 = c1" for ns e
    by (simp add: repair_after_def probed_only_def)
  ultimately show ?thesis using x by (simp add: list_page_def list_page_at_def split: sum.split)
qed

interpretation probed_pages: kept_pages "\<lambda>p. list_page env cat k p opts" probed_only
  for env :: "'w env" and cat k opts
  by unfold_locales (rule probed_only_page)

lemma probed_only_all: "list_all env cat k opts c = (r, d) \<Longrightarrow> probed_only c \<Longrightarrow> probed_only d"
  unfolding list_all_def by (rule probed_pages.list_all_kept)

lemma probed_only_scope: "pick_scope env cat wanted stored c = (r, d) \<Longrightarrow> probed_only c \<Longrightarrow> probed_only d"
  by (auto simp: pick_scope_def resolve_cluster_def dest: probed_only_all split: option.splits prod.splits
      sum.splits if_splits)

lemma probe_all_probed:
  "probe_all env cat nss c = (Inr sts, d) \<Longrightarrow> \<forall>st \<in> set sts. \<not> ns_restored st"
proof (induction nss arbitrary: c sts)
  case Nil
  then show ?case by simp
next
  case (Cons ns nss)
  obtain x c1 where x: "probe_namespace env cat ns c = (x, c1)" by force
  show ?case
  proof (cases x)
    case (Inl e)
    then show ?thesis using Cons.prems x by simp
  next
    case (Inr st)
    then have "\<not> ns_restored st"
      using x probe_versions_status by (fastforce simp: probe_namespace_def status_fits_def)
    moreover obtain y c2 where y: "probe_all env cat nss c1 = (y, c2)" by force
    ultimately show ?thesis using Cons.prems Cons.IH [of c1] x Inr y by (auto split: sum.splits)
  qed
qed

lemma negotiate_probed: "negotiate env cat c = (Inr sts, d) \<Longrightarrow> probed_only d"
  by (auto simp: negotiate_def probed_only_def dest: probe_all_probed split: prod.splits sum.splits)

lemma open_restored_rejected:
  "open_restored env cat r now c = (Inr (ident, outcome), d) \<Longrightarrow>
    (if outcome = Adopted then cache_verdict (fst ident) (id_domain_manager (rs_identity r)) = Adopted
     else probed_only d)"
  by (auto simp: open_restored_def Let_def negotiate_probed cache_verdict_def split_identity_def
      split: prod.splits sum.splits if_splits option.splits)

lemma open_fresh_probed:
  assumes "open_fresh env cat c = (Inr (ident, outcome), d)"
  shows "outcome = NotOffered \<and> probed_only d"
proof -
  obtain sts c1 where n: "negotiate env cat c = (Inr sts, c1)"
    using assms by (auto simp: open_fresh_def split: prod.splits sum.splits)
  have c1: "probed_only c1" using negotiate_probed [OF n] .
  have "probed_only c2" if "pc_identity_result env cat c1 = (r, c2)" for r c2
    using that c1 probed_only_page [OF c1]
    by (auto simp: pc_identity_result_def split: option.splits prod.splits sum.splits list.splits if_splits)
      (metis snd_conv)+
  then show ?thesis using assms n
    by (auto simp: open_fresh_def pc_identity_def split: prod.splits sum.splits)
qed

section \<open>Restored statuses come back\<close>

lemma trim_start_matches_none: "\<not> prefix p s \<Longrightarrow> trim_start_matches p s = s"
  by (subst trim_start_matches.simps) simp

lemma trimmed_no_prefix: "p \<noteq> [] \<Longrightarrow> \<not> prefix p (trim_start_matches p s)"
proof (induction p s rule: trim_start_matches.induct)
  case (1 p s)
  then show ?case by (subst trim_start_matches.simps) simp
qed

lemma adopted_status_from:
  "adopted_status nss n = Some st \<Longrightarrow> ns_ok st \<and> ns_restored st \<and> ns_name st = nr_name n"
  by (auto simp: adopted_status_def dest: find_Some_in split: option.splits)

section \<open>Properties\<close>



text \<open>
  C26: a namespace's status survives the disk: a positive status of a catalog namespace, recorded
  and read back within a day, is adopted as it was and marked as restored; recording what was
  adopted and reading it again gives the same once more, so the mark never grows into the text.
\<close>

theorem recorded_status_comes_back:
  assumes "ns_ok st" and "find (\<lambda>c. n_name c = ns_name st) (cat_namespaces cat) = Some ns"
    and "ns_version st = n_version ns" and "\<forall>v. ns_pinned st = Some v \<longrightarrow> v \<in> set (n_versions ns)"
    and "\<not> prefix ''restored: '' (ns_detail st)" and "later - now \<le> namespace_ttl"
    and "rs_namespaces r = [recorded st now]"
  shows "adoptable cat r later = [st\<lparr>ns_restored := True\<rparr>] \<and>
    adoptable cat (r\<lparr>rs_namespaces := map (\<lambda>s. recorded s later) (adoptable cat r later)\<rparr>) later
      = adoptable cat r later"
proof -
  have name: "n_name ns = ns_name st" using assms(2) by (auto simp: find_Some_iff)
  have pin: "Option.bind (ns_pinned st) (\<lambda>p. find (\<lambda>v. v = p) (n_versions ns)) = ns_pinned st"
  proof (cases "ns_pinned st")
    case (Some v)
    then have "v \<in> set (n_versions ns)" using assms(4) by simp
    then show ?thesis using Some by (simp add: find_self)
  qed simp
  have again: "adopted_status (cat_namespaces cat) (recorded s t) = Some (st\<lparr>ns_restored := True\<rparr>)"
    if "s = st \<or> s = st\<lparr>ns_restored := True\<rparr>" for s t
    using that assms name pin by (auto simp: adopted_status_def recorded_def trim_start_matches_none)
  have "nr_ok (recorded s t) = ns_ok s" "nr_at (recorded s t) = t" for s t by (simp_all add: recorded_def)
  then show ?thesis
    using again assms by (simp add: adoptable_def map_filter_simps)
qed

theorem recorded_status_comes_back_witness:
  "let st = ns_served lab_ns ''v4.0'' ''probed /vmm/v4.0/vms'';
       r = \<lparr>rs_identity = \<lparr>id_host = ''pc'', id_port = 9440, id_username = ''u'', id_domain_manager = None,
          id_pc_version = None\<rparr>, rs_pins = [], rs_namespaces = [recorded st 100], rs_cluster = None\<rparr>
   in adoptable lab_catalog r 200 = [st\<lparr>ns_restored := True\<rparr>]"
  unfolding Let_def
  by (rule conjunct1, rule recorded_status_comes_back [where ns = lab_ns and now = 100])
    (simp_all add: ns_served_def lab_ns_def lab_catalog_def namespace_ttl_def)

end
