(* ===== verification/Actions.thy ===== *)
theory Actions
  imports Connected Write_Path
begin

text \<open>
  One path from a row to a mutation (\<open>crates/core/src/actions.rs\<close>): what is sent (\<open>plan\<close>), why
  it cannot run (\<open>reason\<close>), a form's request body (\<open>build_body\<close>) and sending it (\<open>execute\<close>).

  A time is a number of seconds since the epoch. The calendar of the \<open>time\<close> crate and the text
  form of \<open>serde_json\<close> are parameters.
\<close>

section \<open>Plans\<close>

record plan =
  pl_kind :: kind
  pl_ext_id :: string
  pl_name :: string
  pl_action :: action
  pl_body :: "json option"
  pl_parents :: "string list"
  pl_row_kind :: kind

record plan_ref =
  pr_kind :: kind
  pr_ext_id :: string
  pr_name :: string
  pr_action :: action
  pr_row_kind :: kind

definition to_ref :: "plan \<Rightarrow> plan_ref" where
  "to_ref p = \<lparr>pr_kind = pl_kind p, pr_ext_id = pl_ext_id p, pr_name = pl_name p,
     pr_action = pl_action p, pr_row_kind = pl_row_kind p\<rparr>"

datatype act_outcome = ActStarted string | ActDone | ActReturned json | ActFailed failure bool

definition outcome_failed :: "string \<Rightarrow> act_outcome" where
  "outcome_failed message = ActFailed (failure_local message) False"

definition no_parent :: string where
  "no_parent = ''needs a parent this table cannot supply''"

definition read_only_text :: string where
  "read_only_text = ''read-only session''"

definition task_kind_id :: string where
  "task_kind_id = ''prism.config.Task''"

definition not_cancelable :: string where
  "not_cancelable = ''not cancelable''"

text \<open>The ids a table cannot supply, read out of the row.\<close>

definition row_parent :: "json \<Rightarrow> string \<Rightarrow> string option" where
  "row_parent raw path = opt_str (path_first raw path)"

fun row_parents :: "json \<Rightarrow> string list \<Rightarrow> string + string list" where
  "row_parents raw [] = Inr []"
| "row_parents raw (path # paths) =
     (case row_parent raw path of
        None \<Rightarrow> Inl no_parent
      | Some v \<Rightarrow> (case row_parents raw paths of Inl e \<Rightarrow> Inl e | Inr vs \<Rightarrow> Inr (v # vs)))"

definition plan_of :: "catalog \<Rightarrow> kind \<Rightarrow> entity \<Rightarrow> action \<Rightarrow> string list \<Rightarrow> json option \<Rightarrow> string + plan" where
  "plan_of cat k e a table_parents body =
     (case row_parents (e_raw e) (k_action_parents k) of
        Inl m \<Rightarrow> Inl m
      | Inr found \<Rightarrow>
          (let parents = table_parents @ found
           in if length parents \<noteq> parents_needed a then Inl no_parent
              else Inr \<lparr>pl_kind = action_target (cat_kinds cat) k, pl_ext_id = e_ext_id e, pl_name = e_name e,
                pl_action = a, pl_body = body, pl_parents = parents, pl_row_kind = k\<rparr>))"

section \<open>Sending\<close>

definition is_empty_object :: "json \<Rightarrow> bool" where
  "is_empty_object body = (case as_object body of Some m \<Rightarrow> m = [] | None \<Rightarrow> False)"

definition outcome_of :: "kind \<Rightarrow> prism_error + action_result \<Rightarrow> act_outcome" where
  "outcome_of k r = (case r of
       Inr (Task t) \<Rightarrow> ActStarted t
     | Inr (Payload v) \<Rightarrow> ActReturned v
     | Inr Empty \<Rightarrow> ActDone
     | Inl e \<Rightarrow> (case e of
           EConflict _ _ _ \<Rightarrow> outcome_failed ''changed since you loaded it''
         | _ \<Rightarrow> ActFailed (failure_of k e False) (is_forbidden e)))"

definition execute_plan :: "'w env \<Rightarrow> plan \<Rightarrow> 'w client \<Rightarrow> act_outcome \<times> 'w client" where
  "execute_plan env p c =
     (if a_name (pl_action p) = ''update'' then
        (case pl_body p of
           None \<Rightarrow> (outcome_failed ''update needs a request body'', c)
         | Some body \<Rightarrow>
             (if is_empty_object body then (outcome_failed ''update needs a request body'', c)
              else let (r, c1) = update env (pl_kind p) (pl_parents p) (pl_ext_id p) body c
                   in (outcome_of (pl_kind p) r, c1)))
      else let (r, c1) = act env (pl_kind p) (pl_parents p) (pl_ext_id p) (a_name (pl_action p)) (pl_body p) c
           in (outcome_of (pl_kind p) r, c1))"

section \<open>Why not\<close>

record 'w policy =
  po_session :: "'w connected"
  po_guardrails :: guardrails
  po_can_i :: can_index

definition policy_context :: "'w policy \<Rightarrow> string" where
  "policy_context p = (case cn_context (po_session p) of Some c \<Rightarrow> c | None \<Rightarrow> ''(env)'')"

definition cancelable :: "entity option \<Rightarrow> bool" where
  "cancelable e = (case e of
       None \<Rightarrow> True
     | Some row \<Rightarrow> Option.bind (jget ''isCancelable'' (e_raw row)) as_bool = Some True)"

definition supplied :: "kind \<Rightarrow> string list \<Rightarrow> entity option \<Rightarrow> nat" where
  "supplied k table_parents e =
     length table_parents + length (filter (\<lambda>p. case e of
         None \<Rightarrow> False | Some row \<Rightarrow> row_parent (e_raw row) p \<noteq> None) (k_action_parents k))"

definition verdict_reason :: "nat \<Rightarrow> verdict \<Rightarrow> string option" where
  "verdict_reason n v = (case v of
       ReadOnly \<Rightarrow> Some read_only_text
     | Deny None \<Rightarrow> Some ''denied by a guardrail''
     | Deny (Some why) \<Rightarrow> Some (''denied: '' @ why)
     | NotPermitted roles \<Rightarrow> Some (''not permitted: needs '' @ join '', '' roles)
     | TooMany m \<Rightarrow> Some (show_nat n @ '' marked, this guardrail allows '' @ show_nat m @ '' at a time'')
     | Confirm _ \<Rightarrow> None
     | Allow \<Rightarrow> None)"

definition reason :: "catalog \<Rightarrow> 'w policy \<Rightarrow> kind \<Rightarrow> action \<Rightarrow> string list \<Rightarrow> entity option \<Rightarrow> nat
    \<Rightarrow> string option" where
  "reason cat p k a table_parents e n =
     (if cn_readonly (po_session p) \<or> gr_readonly (po_guardrails p) then Some read_only_text
      else case availability_reason (kind_availability (cn_client (po_session p)) (action_target (cat_kinds cat) k)) of
          Some why \<Rightarrow> Some why
        | None \<Rightarrow>
            (if k_id k = task_kind_id \<and> a_name a = ''cancel'' \<and> \<not> cancelable e then Some not_cancelable
             else if supplied k table_parents e \<noteq> parents_needed a then Some no_parent
             else if a_needs_body a \<and> a_form a = [] \<and> a_body a = None
               then Some ''needs a request body this catalog cannot describe''
             else verdict_reason n (verdict_of (po_guardrails p) (policy_context p) k a n
               (can (po_can_i p) a))))"

section \<open>A form's body\<close>

record civil =
  cv_year :: nat
  cv_month :: nat
  cv_day :: nat
  cv_hour :: nat
  cv_minute :: nat
  cv_second :: nat

text \<open>
  \<open>calendar\<close> is \<open>OffsetDateTime::from_unix_timestamp\<close>, \<open>read_json\<close> is \<open>serde_json::from_str\<close> with
  its error text, \<open>show_json\<close> is \<open>Value::to_string\<close>.
\<close>

record form_env =
  calendar :: "nat \<Rightarrow> civil option"
  read_json :: "string \<Rightarrow> string + json"
  show_json :: "json \<Rightarrow> string"

definition i64_max :: nat where
  "i64_max = 2 ^ 63 - 1"

definition label_of :: "field \<Rightarrow> string" where
  "label_of f = (if f_label f = [] then f_name f else f_label f)"

definition pad0 :: "nat \<Rightarrow> nat \<Rightarrow> string" where
  "pad0 w n = replicate (w - length (show_nat n)) CHR ''0'' @ show_nat n"

definition unix_epoch :: civil where
  "unix_epoch = \<lparr>cv_year = 1970, cv_month = 1, cv_day = 1, cv_hour = 0, cv_minute = 0, cv_second = 0\<rparr>"

definition rfc3339 :: "form_env \<Rightarrow> nat \<Rightarrow> string" where
  "rfc3339 fe secs =
     (let dt = (case calendar fe secs of Some d \<Rightarrow> d | None \<Rightarrow> unix_epoch)
      in pad0 4 (cv_year dt) @ ''-'' @ pad0 2 (cv_month dt) @ ''-'' @ pad0 2 (cv_day dt) @ ''T'' @
         pad0 2 (cv_hour dt) @ '':'' @ pad0 2 (cv_minute dt) @ '':'' @ pad0 2 (cv_second dt) @ ''Z'')"

text \<open>The number of days of \<open>$now+<n>d\<close>.\<close>

definition now_days :: "string \<Rightarrow> nat option" where
  "now_days v =
     Option.bind (strip_prefix (dollar ''now+'') v) (\<lambda>d. Option.bind (strip_suffix ''d'' d) (parse_uint u64_max))"

definition expand :: "form_env \<Rightarrow> string \<Rightarrow> entity \<Rightarrow> nat \<Rightarrow> string + string" where
  "expand fe v e now =
     (if \<not> prefix (dollar []) v then Inr v
      else if v = ext_id_subst then Inr (e_ext_id e)
      else case now_days v of
          None \<Rightarrow> Inl (''unknown substitution '' @ v)
        | Some days \<Rightarrow>
            (if days * 86400 \<le> u64_max \<and> now + days * 86400 \<le> i64_max
             then Inr (rfc3339 fe (now + days * 86400))
             else Inl (''substitution '' @ v @ '' is out of range'')))"

definition is_id_path :: "string \<Rightarrow> bool" where
  "is_id_path name \<longleftrightarrow> last (split_on CHR ''.'' name) \<in> {''extId'', ''uuid''}"

definition field_json :: "form_env \<Rightarrow> field \<Rightarrow> string \<Rightarrow> string + json" where
  "field_json fe f raw =
     (case f_type f of
        FBool \<Rightarrow> Inr (JBool (raw = ''true'' \<or> raw = ''yes''))
      | FInteger \<Rightarrow> (case parse_i64 raw of
            Some i \<Rightarrow> Inr (JNum (NInt i)) | None \<Rightarrow> Inl (label_of f @ '' must be a whole number''))
      | FJson _ \<Rightarrow> (case read_json fe raw of
            Inl err \<Rightarrow> Inl (label_of f @ '': '' @ err) | Inr v \<Rightarrow> Inr v)
      | FReference _ \<Rightarrow>
          (if is_id_path (f_name f) then Inr (JStr raw)
           else case read_json fe raw of
               Inr (JObj m) \<Rightarrow> Inr (JObj m)
             | _ \<Rightarrow> Inr (JObj [(''extId'', JStr raw)]))
      | _ \<Rightarrow> Inr (JStr raw))"

text \<open>What the form has for a field: what was entered, else its seed, else nothing.\<close>

definition field_raw :: "form_env \<Rightarrow> (string \<Rightarrow> string option) \<Rightarrow> entity \<Rightarrow> nat \<Rightarrow> field
    \<Rightarrow> string + string option" where
  "field_raw fe entered e now f =
     (case entered (f_name f) of
        Some (c # cs) \<Rightarrow> Inr (Some (c # cs))
      | _ \<Rightarrow> (case f_value f of
            Some v \<Rightarrow> (case expand fe v e now of Inl m \<Rightarrow> Inl m | Inr s \<Rightarrow> Inr (Some s))
          | None \<Rightarrow> (if f_required f then Inl (label_of f @ '' is required'') else Inr None)))"

fun build_fields :: "form_env \<Rightarrow> (string \<Rightarrow> string option) \<Rightarrow> entity \<Rightarrow> nat \<Rightarrow> field list \<Rightarrow> json
    \<Rightarrow> string + json" where
  "build_fields fe entered e now [] body = Inr body"
| "build_fields fe entered e now (f # fs) body =
     (case field_raw fe entered e now f of
        Inl m \<Rightarrow> Inl m
      | Inr None \<Rightarrow> build_fields fe entered e now fs body
      | Inr (Some raw) \<Rightarrow>
          (case field_json fe f raw of
             Inl m \<Rightarrow> Inl m
           | Inr v \<Rightarrow> (case write_at body (f_name f) v of
                 Inl m \<Rightarrow> Inl m
               | Inr body' \<Rightarrow> build_fields fe entered e now fs body')))"

definition build_body :: "form_env \<Rightarrow> field list \<Rightarrow> (string \<Rightarrow> string option) \<Rightarrow> entity \<Rightarrow> nat
    \<Rightarrow> string + json" where
  "build_body fe fds entered e now = build_fields fe entered e now fds (JObj [])"

definition as_text :: "form_env \<Rightarrow> json \<Rightarrow> string option" where
  "as_text fe v = (case v of JNull \<Rightarrow> None | JStr s \<Rightarrow> Some s | _ \<Rightarrow> Some (show_json fe v))"

definition current_values :: "form_env \<Rightarrow> field list \<Rightarrow> entity \<Rightarrow> string \<Rightarrow> string option" where
  "current_values fe fds e =
     map_of (rev (List.map_filter (\<lambda>f. Option.bind (read_at (e_raw e) (f_name f)) (\<lambda>v.
       map_option (\<lambda>t. (f_name f, t)) (as_text fe v))) fds))"

section \<open>What a body carries\<close>

definition parts :: "field \<Rightarrow> field \<Rightarrow> bool" where
  "parts f g \<longleftrightarrow> diverge (split_on CHR ''.'' (f_name f)) (split_on CHR ''.'' (f_name g))"

lemma parts_sym: "parts f g = parts g f"
  by (simp add: parts_def diverge_sym)

lemma write_at_reads: "write_at body name v = Inr w \<Longrightarrow> read_at w name = Some v"
  by (auto simp: write_at_def read_at_def intro: read_written split: if_splits)

lemma write_at_elsewhere:
  "write_at body (f_name f) v = Inr w \<Longrightarrow> parts f g \<Longrightarrow> read_at body (f_name g) = Some x \<Longrightarrow>
    read_at w (f_name g) = Some x"
  by (auto simp: write_at_def read_at_def parts_def intro: read_elsewhere split: if_splits)

lemma build_fields_keeps:
  "build_fields fe entered e now fs body = Inr w \<Longrightarrow> \<forall>f \<in> set fs. parts f g \<Longrightarrow>
    read_at body (f_name g) = Some x \<Longrightarrow> read_at w (f_name g) = Some x"
proof (induction fs arbitrary: body)
  case Nil
  then show ?case by simp
next
  case (Cons f fs)
  then show ?case
    by (auto dest: write_at_elsewhere split: sum.splits option.splits)
qed

lemma build_fields_carries:
  "build_fields fe entered e now fs body = Inr w \<Longrightarrow> pairwise parts (set fs) \<Longrightarrow> distinct fs \<Longrightarrow>
    f \<in> set fs \<Longrightarrow> field_raw fe entered e now f = Inr (Some raw) \<Longrightarrow>
    \<exists>v. field_json fe f raw = Inr v \<and> read_at w (f_name f) = Some v"
proof (induction fs arbitrary: body)
  case Nil
  then show ?case by simp
next
  case (Cons g fs)
  have pw: "pairwise parts (set fs)" using Cons.prems(2) by (simp add: pairwise_insert)
  show ?case
  proof (cases "f = g")
    case True
    then obtain v body' where v: "field_json fe f raw = Inr v" "write_at body (f_name f) v = Inr body'"
      "build_fields fe entered e now fs body' = Inr w"
      using Cons.prems(1,5) by (auto split: sum.splits)
    have "\<forall>h \<in> set fs. parts h f"
      using Cons.prems(2,3) True by (auto simp: pairwise_insert parts_sym)
    then have "read_at w (f_name f) = Some v"
      using build_fields_keeps [OF v(3)] write_at_reads [OF v(2)] by blast
    then show ?thesis using v by blast
  next
    case False
    then have "f \<in> set fs" using Cons.prems(4) by simp
    moreover obtain body' where "build_fields fe entered e now fs body' = Inr w"
      using Cons.prems(1) by (auto split: sum.splits option.splits)
    ultimately show ?thesis using Cons.IH pw Cons.prems(3,5) by simp
  qed
qed

lemma build_fields_required:
  "build_fields fe entered e now fs body = Inr w \<Longrightarrow> f \<in> set fs \<Longrightarrow>
    \<exists>r. field_raw fe entered e now f = Inr r \<and> (r \<noteq> None \<or> \<not> f_required f)"
proof (induction fs arbitrary: body)
  case Nil
  then show ?case by simp
next
  case (Cons g fs)
  obtain r where r: "field_raw fe entered e now g = Inr r" using Cons.prems(1) by (auto split: sum.splits)
  then have "r \<noteq> None \<or> \<not> f_required g"
    by (auto simp: field_raw_def split: option.splits list.splits sum.splits if_splits)
  moreover obtain body' where "build_fields fe entered e now fs body' = Inr w"
    using Cons.prems(1) r by (auto split: sum.splits option.splits)
  ultimately show ?case using Cons.IH Cons.prems(2) r by (cases "f = g") auto
qed

section \<open>What a plan and a reason agree on\<close>

lemma row_parents_iff:
  "row_parents raw paths = Inr vs \<longleftrightarrow> map Some vs = map (row_parent raw) paths"
proof (induction paths arbitrary: vs)
  case Nil
  then show ?case by auto
next
  case (Cons p paths)
  show ?case
  proof (cases vs)
    case Nil
    then show ?thesis by (auto split: option.splits sum.splits)
  next
    case (Cons v ws)
    then show ?thesis using Cons.IH [of ws] by (auto split: option.splits sum.splits)
  qed
qed

lemma row_parents_length: "row_parents raw paths = Inr vs \<Longrightarrow> length vs = length paths"
  unfolding row_parents_iff by (metis length_map)

lemma row_parents_supplied:
  "(\<exists>vs. row_parents raw paths = Inr vs) \<longleftrightarrow>
     length (filter (\<lambda>p. row_parent raw p \<noteq> None) paths) = length paths"
proof -
  have "(\<exists>vs. row_parents raw paths = Inr vs) \<longleftrightarrow> (\<forall>p \<in> set paths. row_parent raw p \<noteq> None)"
    by (induction paths) (auto split: option.splits sum.splits)
  then show ?thesis by (simp add: length_filter_all)
qed

lemma plan_is_supplied:
  assumes "plan_of cat k e a table_parents body = Inr pl"
  shows "supplied k table_parents (Some e) = parents_needed a \<and> length (pl_parents pl) = parents_needed a"
proof -
  obtain vs where vs: "row_parents (e_raw e) (k_action_parents k) = Inr vs"
    "length table_parents + length vs = parents_needed a" "pl_parents pl = table_parents @ vs"
    using assms by (auto simp: plan_of_def Let_def split: sum.splits if_splits)
  then show ?thesis
    using row_parents_supplied [of "e_raw e" "k_action_parents k"] row_parents_length [OF vs(1)]
    by (auto simp: supplied_def)
qed

lemma supplied_is_planned:
  assumes "supplied k table_parents (Some e) = parents_needed a"
    and "length table_parents + length (k_action_parents k) = parents_needed a"
  shows "\<exists>pl. plan_of cat k e a table_parents body = Inr pl"
proof -
  have "length (filter (\<lambda>p. row_parent (e_raw e) p \<noteq> None) (k_action_parents k)) = length (k_action_parents k)"
    using assms by (simp add: supplied_def)
  then obtain vs where vs: "row_parents (e_raw e) (k_action_parents k) = Inr vs"
    using row_parents_supplied by blast
  then show ?thesis using assms(2) row_parents_length [OF vs] by (simp add: plan_of_def)
qed

lemma verdict_reason_None: "verdict_reason n v = None \<longleftrightarrow> goes_ahead v"
  by (cases v) (auto simp: verdict_reason_def goes_ahead_def split: option.splits)

lemma availability_reason_None: "availability_reason v = None \<longleftrightarrow> v = Served"
  by (cases v) auto

lemma empty_update_sends_nothing:
  assumes "a_name (pl_action p) = ''update''" and "pl_body p = None \<or> pl_body p = Some (JObj [])"
  shows "execute_plan env p c = (outcome_failed ''update needs a request body'', c)"
  using assms by (auto simp: execute_plan_def is_empty_object_def)

text \<open>Past the calendar's last year the expiry a form asks for becomes the epoch, not an error.\<close>

lemma expiry_past_the_calendar:
  assumes "now_days v = Some days" and "prefix (dollar []) v" and "v \<noteq> ext_id_subst"
    and "now + days * 86400 \<le> i64_max" and "calendar fe (now + days * 86400) = None"
  shows "expand fe v e now = Inr (rfc3339 (fe\<lparr>calendar := \<lambda>_. Some unix_epoch\<rparr>) 0)"
  using assms by (auto simp: expand_def rfc3339_def i64_max_def u64_max_def)

text \<open>The row the witnesses act on: a virtual machine under its cluster.\<close>

definition lab_entity :: entity where
  "lab_entity = \<lparr>e_kind = lab_kind, e_ext_id = ''7'', e_name = ''web'', e_etag = None,
     e_raw = JObj [(''extId'', JStr ''7'')]\<rparr>"

definition lab_form_env :: form_env where
  "lab_form_env = \<lparr>calendar = \<lambda>_. Some unix_epoch, read_json = \<lambda>_. Inl ''no'', show_json = \<lambda>_. []\<rparr>"

definition lab_field :: "string \<Rightarrow> field" where
  "lab_field name = \<lparr>f_name = name, f_label = [], f_type = FText, f_required = True, f_value = None,
     f_hidden = False\<rparr>"

definition lab_session :: "unit connected" where
  "lab_session = \<lparr>cn_client = lab_client\<lparr>c_adopted := {''vmm''}\<rparr>, cn_host = ''pc'', cn_port = 9440,
     cn_username = ''u'', cn_context = None, cn_cluster = None, cn_readonly = False, cn_insecure = False,
     cn_pc_version = None, cn_domain_manager = None, cn_cache = Adopted\<rparr>"

definition lab_policy :: "unit policy" where
  "lab_policy = \<lparr>po_session = lab_session, po_guardrails = guardrails_default, po_can_i = index_default\<rparr>"

lemma lab_needed: "parents_needed lab_delete = 0"
  by (simp add: parents_needed_def names_entity_def lab_delete_def)

lemma lab_served: "kind_availability (cn_client lab_session) lab_kind = Served"
  by (simp add: kind_availability_def namespace_availability_def version_availability_def lab_session_def
      lab_client_def connect_def lab_kind_def)

section \<open>Properties\<close>

text \<open>
  C27: a form is sent as it was filled in: when a body is built from fields whose paths part, every
  required field has a value, and reading the body at the path of any field with a value gives
  exactly that value in the field's type, whatever was written before or after it.
\<close>

theorem body_carries_the_form:
  assumes "build_body fe fds entered e now = Inr body" and "pairwise parts (set fds)" and "distinct fds"
    and "f \<in> set fds"
  shows "case field_raw fe entered e now f of
      Inl m \<Rightarrow> False
    | Inr None \<Rightarrow> \<not> f_required f
    | Inr (Some raw) \<Rightarrow> \<exists>v. field_json fe f raw = Inr v \<and> read_at body (f_name f) = Some v"
proof -
  have run: "build_fields fe entered e now fds (JObj []) = Inr body"
    using assms(1) by (simp add: build_body_def)
  obtain r where r: "field_raw fe entered e now f = Inr r" "r \<noteq> None \<or> \<not> f_required f"
    using build_fields_required [OF run assms(4)] by blast
  show ?thesis
  proof (cases r)
    case None
    then show ?thesis using r by simp
  next
    case (Some raw)
    then show ?thesis using r build_fields_carries [OF run assms(2-4)] by simp
  qed
qed

theorem body_carries_the_form_witness:
  "\<exists>body. build_body lab_form_env [lab_field ''a.b'', lab_field ''a.c''] (\<lambda>_. Some ''x'') lab_entity 0 = Inr body
     \<and> read_at body ''a.b'' = Some (JStr ''x'')"
proof -
  let ?body = "JObj [(''a'', JObj [(''b'', JStr ''x''), (''c'', JStr ''x'')])]"
  have b: "build_body lab_form_env [lab_field ''a.b'', lab_field ''a.c''] (\<lambda>_. Some ''x'') lab_entity 0
      = Inr ?body"
    by code_simp
  have p: "parts (lab_field ''a.b'') (lab_field ''a.c'')" by code_simp
  have n: "lab_field ''a.b'' \<noteq> lab_field ''a.c''" by (simp add: lab_field_def)
  have "pairwise parts (set [lab_field ''a.b'', lab_field ''a.c''])"
    using p parts_sym n by (auto simp: pairwise_insert)
  then have "case field_raw lab_form_env (\<lambda>_. Some ''x'') lab_entity 0 (lab_field ''a.b'') of
      Inl m \<Rightarrow> False | Inr None \<Rightarrow> \<not> f_required (lab_field ''a.b'')
    | Inr (Some raw) \<Rightarrow> \<exists>v. field_json lab_form_env (lab_field ''a.b'') raw = Inr v \<and>
        read_at ?body (f_name (lab_field ''a.b'')) = Some v"
    using body_carries_the_form [OF b] n by simp
  then show ?thesis using b by (auto simp: field_raw_def field_json_def lab_field_def)
qed



end
