(* ===== verification/Store.thy ===== *)
theory Store
  imports Failure
begin

text \<open>
  Tables of entities updated by generation-tagged messages (\<open>crates/core/src/store.rs\<close>): what a
  polling cycle reports, how a table stages and lands it, the restore of cached rows, and the
  names every row teaches. The clock is an argument. A store's counters and sample are replaced
  wholesale by their pollers, and are values the store only carries: type parameters.
\<close>

section \<open>Tables\<close>

datatype store_update =
    UStarted nat
  | UPage nat "entity list" "nat option"
  | UComplete nat
  | UEntity nat entity
  | UError nat failure

record staging =
  st_generation :: nat
  st_entities :: "entity list"
  st_total :: "nat option"

type_synonym rows = "(string \<times> entity) list"

record table =
  tb_rows :: rows
  tb_generation :: nat
  tb_total :: "nat option"
  tb_last_poll :: "instant option"
  tb_error :: "failure option"
  tb_not_served :: bool
  tb_loading :: bool
  tb_cycle_started :: "(nat \<times> instant) option"
  tb_restored_at :: "nat option"
  tb_whole :: "entity option"
  tb_staging :: "staging option"

definition fresh_table :: table where
  "fresh_table = \<lparr>tb_rows = [], tb_generation = 0, tb_total = None, tb_last_poll = None, tb_error = None,
     tb_not_served = False, tb_loading = True, tb_cycle_started = None, tb_restored_at = None,
     tb_whole = None, tb_staging = None\<rparr>"

definition index_rows :: "entity list \<Rightarrow> rows" where
  "index_rows es = im_of (map (\<lambda>e. (e_ext_id e, e)) (filter (\<lambda>e. e_ext_id e \<noteq> []) es))"

definition table_row :: "table \<Rightarrow> string \<Rightarrow> entity option" where
  "table_row t ext_id =
     (case tb_whole t of
        Some e \<Rightarrow> (if e_ext_id e = ext_id then Some e else map_of (tb_rows t) ext_id)
      | None \<Rightarrow> map_of (tb_rows t) ext_id)"

definition staged :: "table \<Rightarrow> nat" where
  "staged t = (case tb_staging t of Some s \<Rightarrow> length (st_entities s) | None \<Rightarrow> 0)"

definition staged_total :: "table \<Rightarrow> nat option" where
  "staged_total t = Option.bind (tb_staging t) st_total"

section \<open>Names\<close>

type_synonym names = "string \<Rightarrow> string option"

definition learn_rows :: "rows \<Rightarrow> names \<Rightarrow> names" where
  "learn_rows rows ns = fold (\<lambda>(_, e) m. m(e_ext_id e \<mapsto> e_name e)) rows ns"

definition learn_names :: "(string \<times> string) list \<Rightarrow> names \<Rightarrow> names" where
  "learn_names ps ns = fold (\<lambda>(i, n) m. m(i \<mapsto> n)) ps ns"

section \<open>Updates\<close>

text \<open>The clock of a walk is cleared by its own cycle's ending and by no other.\<close>

definition end_clock :: "nat \<Rightarrow> table \<Rightarrow> table" where
  "end_clock g t = (case tb_cycle_started t of
       Some (h, _) \<Rightarrow> (if h = g then t\<lparr>tb_cycle_started := None\<rparr> else t)
     | None \<Rightarrow> t)"

definition on_started :: "instant \<Rightarrow> nat \<Rightarrow> table \<Rightarrow> table" where
  "on_started now g t =
     (if g \<le> tb_generation t then t
      else case tb_cycle_started t of
          Some (h, _) \<Rightarrow> (if g \<le> h then t else t\<lparr>tb_cycle_started := Some (g, now)\<rparr>)
        | None \<Rightarrow> t\<lparr>tb_cycle_started := Some (g, now)\<rparr>)"

definition on_page :: "nat \<Rightarrow> entity list \<Rightarrow> nat option \<Rightarrow> table \<Rightarrow> table" where
  "on_page g es tot t =
     (if g \<le> tb_generation t then t
      else case tb_staging t of
          None \<Rightarrow> t\<lparr>tb_staging := Some \<lparr>st_generation = g, st_entities = es, st_total = tot\<rparr>\<rparr>
        | Some s \<Rightarrow>
            (if g < st_generation s then t
             else if st_generation s < g
               then t\<lparr>tb_staging := Some \<lparr>st_generation = g, st_entities = es, st_total = tot\<rparr>\<rparr>
             else t\<lparr>tb_staging := Some (s\<lparr>st_entities := st_entities s @ es, st_total := tot\<rparr>)\<rparr>))"

definition land :: "staging \<Rightarrow> nat \<Rightarrow> table \<times> names \<Rightarrow> table \<times> names" where
  "land s g tn = (case tn of (t, ns) \<Rightarrow>
     (let rows = index_rows (st_entities s)
      in (t\<lparr>tb_staging := None, tb_rows := rows, tb_total := st_total s, tb_restored_at := None,
            tb_generation := g\<rparr>, learn_rows rows ns)))"

definition on_complete :: "instant \<Rightarrow> nat \<Rightarrow> table \<times> names \<Rightarrow> table \<times> names" where
  "on_complete now g tn = (case tn of (t, ns) \<Rightarrow>
     (if g < tb_generation t then (t, ns)
      else let t1 = end_clock g t;
               (t2, ns2) = (case tb_staging t1 of
                   Some s \<Rightarrow> (if st_generation s = g then land s g (t1, ns) else (t1, ns))
                 | None \<Rightarrow> (t1, ns))
           in (t2\<lparr>tb_last_poll := Some now, tb_error := None, tb_not_served := False, tb_loading := False\<rparr>, ns2)))"

definition on_entity :: "nat \<Rightarrow> entity \<Rightarrow> table \<times> names \<Rightarrow> table \<times> names" where
  "on_entity g e tn = (case tn of (t, ns) \<Rightarrow>
     (if g < tb_generation t then (t, ns)
      else let grew = map_of (tb_rows t) (e_ext_id e) = None
           in (t\<lparr>tb_whole := Some e, tb_rows := im_insert (e_ext_id e) e (tb_rows t),
                 tb_total := (if grew then map_option (\<lambda>n. (n + 1) mod 2 ^ 64) (tb_total t) else tb_total t),
                 tb_loading := False\<rparr>, ns(e_ext_id e \<mapsto> e_name e))))"

definition on_error :: "nat \<Rightarrow> failure \<Rightarrow> table \<Rightarrow> table" where
  "on_error g f t =
     (if g < tb_generation t then t
      else let t1 = end_clock g t
           in t1\<lparr>tb_not_served := tb_not_served t1 \<or> failure_is_not_served f, tb_error := Some f,
                tb_staging := (case tb_staging t1 of
                    Some s \<Rightarrow> (if st_generation s \<le> g then None else Some s) | None \<Rightarrow> None),
                tb_loading := False\<rparr>)"

fun apply_update :: "instant \<Rightarrow> store_update \<Rightarrow> table \<times> names \<Rightarrow> table \<times> names" where
  "apply_update now (UStarted g) (t, ns) = (on_started now g t, ns)"
| "apply_update now (UPage g es tot) (t, ns) = (on_page g es tot t, ns)"
| "apply_update now (UComplete g) tn = on_complete now g tn"
| "apply_update now (UEntity g e) tn = on_entity g e tn"
| "apply_update now (UError g f) (t, ns) = (on_error g f t, ns)"

section \<open>The store\<close>

type_synonym key_tuple = "string \<times> string list \<times> string option \<times> string option"

record ('st, 'sa) store =
  so_tables :: "key_tuple \<Rightarrow> table option"
  so_names :: names
  so_stats :: 'st
  so_sample :: 'sa

definition store_table :: "('st, 'sa) store \<Rightarrow> table_key \<Rightarrow> table" where
  "store_table s key = (case so_tables s (key_id key) of Some t \<Rightarrow> t | None \<Rightarrow> fresh_table)"

definition store_apply :: "instant \<Rightarrow> table_key \<Rightarrow> store_update \<Rightarrow> ('st, 'sa) store \<Rightarrow> ('st, 'sa) store" where
  "store_apply now key u s =
     (let (t, ns) = apply_update now u (store_table s key, so_names s)
      in s\<lparr>so_tables := (so_tables s)(key_id key \<mapsto> t), so_names := ns\<rparr>)"

definition store_restore :: "table_key \<Rightarrow> entity list \<Rightarrow> nat option \<Rightarrow> nat \<Rightarrow> ('st, 'sa) store
    \<Rightarrow> nat \<times> ('st, 'sa) store" where
  "store_restore key es tot when s =
     (let rows = index_rows es
      in if rows = [] then (0, s)
         else let t = store_table s key
              in if 0 < tb_generation t \<or> tb_last_poll t \<noteq> None
                 then (0, s)
                 else (length rows, s\<lparr>so_tables := (so_tables s)(key_id key \<mapsto>
                     t\<lparr>tb_rows := rows, tb_total := tot, tb_restored_at := Some when, tb_error := None,
                       tb_loading := False\<rparr>), so_names := learn_rows rows (so_names s)\<rparr>))"

definition store_abandon :: "table_key \<Rightarrow> ('st, 'sa) store \<Rightarrow> ('st, 'sa) store" where
  "store_abandon key s = (case so_tables s (key_id key) of
       Some t \<Rightarrow> s\<lparr>so_tables := (so_tables s)(key_id key \<mapsto> t\<lparr>tb_cycle_started := None, tb_staging := None\<rparr>)\<rparr>
     | None \<Rightarrow> s)"

definition apply_names :: "(string \<times> string) list \<Rightarrow> ('st, 'sa) store \<Rightarrow> ('st, 'sa) store" where
  "apply_names ps s = s\<lparr>so_names := learn_names ps (so_names s)\<rparr>"

definition set_stats :: "'st \<Rightarrow> ('st, 'sa) store \<Rightarrow> ('st, 'sa) store" where
  "set_stats st s = s\<lparr>so_stats := st\<rparr>"

definition set_sample :: "'sa \<Rightarrow> ('st, 'sa) store \<Rightarrow> ('st, 'sa) store" where
  "set_sample sa s = s\<lparr>so_sample := sa\<rparr>"

section \<open>What a table keeps\<close>

definition table_ok :: "table \<Rightarrow> bool" where
  "table_ok t \<longleftrightarrow> distinct (map fst (tb_rows t)) \<and> (\<forall>(k, e) \<in> set (tb_rows t). k = e_ext_id e) \<and>
     (case tb_staging t of Some s \<Rightarrow> tb_generation t < st_generation s | None \<Rightarrow> True)"

definition rows_named :: "table \<Rightarrow> names \<Rightarrow> bool" where
  "rows_named t ns \<longleftrightarrow> (\<forall>(k, e) \<in> set (tb_rows t). ns k \<noteq> None)"

lemma fresh_table_ok: "table_ok fresh_table"
  by (simp add: table_ok_def fresh_table_def)

lemma index_rows_ok: "distinct (map fst (index_rows es)) \<and> (\<forall>(k, e) \<in> set (index_rows es). k = e_ext_id e)"
proof -
  have "\<forall>(k, e) \<in> set (fold (\<lambda>(k, v). im_insert k v) (map (\<lambda>e. (e_ext_id e, e)) xs) m). k = e_ext_id e"
    if "\<forall>(k, e) \<in> set m. k = e_ext_id e" for xs m
    using that
  proof (induction xs arbitrary: m)
    case Nil
    then show ?case by simp
  next
    case (Cons x xs)
    then have "\<forall>(k, e) \<in> set (im_insert (e_ext_id x) x m). k = e_ext_id e" by (auto dest: set_im_insert)
    then show ?case using Cons.IH by simp
  qed
  from this [of "[]" "filter (\<lambda>e. e_ext_id e \<noteq> []) es"]
  have "\<forall>(k, e) \<in> set (index_rows es). k = e_ext_id e" by (simp add: index_rows_def im_of_def)
  then show ?thesis by (simp add: index_rows_def distinct_im_of)
qed

lemma learn_rows_keeps: "ns i \<noteq> None \<Longrightarrow> learn_rows rows ns i \<noteq> None"
  by (induction rows arbitrary: ns) (auto simp: learn_rows_def)

lemma learn_rows_learns: "(k, e) \<in> set rows \<Longrightarrow> learn_rows rows ns (e_ext_id e) \<noteq> None"
proof (induction rows arbitrary: ns)
  case Nil
  then show ?case by simp
next
  case (Cons r rows)
  show ?case
  proof (cases "r = (k, e)")
    case True
    then show ?thesis using learn_rows_keeps [of "ns(e_ext_id e \<mapsto> e_name e)"] by (simp add: learn_rows_def)
  next
    case False
    then show ?thesis using Cons by (cases r) (auto simp: learn_rows_def)
  qed
qed

lemma index_rows_named: "(k, e) \<in> set (index_rows es) \<Longrightarrow> learn_rows (index_rows es) ns k \<noteq> None"
  using index_rows_ok [of es] learn_rows_learns [of k e "index_rows es" ns] by auto

lemma end_clock_frame [simp]:
  "tb_rows (end_clock g t) = tb_rows t" "tb_generation (end_clock g t) = tb_generation t"
  "tb_staging (end_clock g t) = tb_staging t" "tb_total (end_clock g t) = tb_total t"
  "tb_not_served (end_clock g t) = tb_not_served t" "tb_restored_at (end_clock g t) = tb_restored_at t"
  by (auto simp: end_clock_def split: option.split)

lemma table_ok_started: "table_ok t \<Longrightarrow> table_ok (on_started now g t)"
  by (auto simp: on_started_def table_ok_def split: option.splits)

lemma table_ok_page: "table_ok t \<Longrightarrow> table_ok (on_page g es tot t)"
  by (auto simp: on_page_def table_ok_def split: option.splits)

lemma table_ok_complete: "table_ok t \<Longrightarrow> table_ok (fst (on_complete now g (t, ns)))"
  using index_rows_ok by (auto simp: on_complete_def table_ok_def land_def Let_def split: option.splits)

lemma table_ok_entity: "table_ok t \<Longrightarrow> table_ok (fst (on_entity g e (t, ns)))"
  by (auto simp: on_entity_def table_ok_def Let_def distinct_im_insert dest: set_im_insert split: option.splits)

lemma table_ok_error: "table_ok t \<Longrightarrow> table_ok (on_error g f t)"
  by (auto simp: on_error_def table_ok_def Let_def split: option.splits)

lemma table_ok_update: "table_ok (fst tn) \<Longrightarrow> table_ok (fst (apply_update now u tn))"
  by (cases tn; cases u)
    (simp_all add: table_ok_started table_ok_page table_ok_complete table_ok_entity table_ok_error)

lemma generation_update: "table_ok (fst tn) \<Longrightarrow> tb_generation (fst tn) \<le> tb_generation (fst (apply_update now u tn))"
  by (cases tn; cases u)
    (auto simp: on_started_def on_page_def on_complete_def on_entity_def on_error_def land_def Let_def
      table_ok_def split: option.splits)

lemma rows_named_update:
  assumes "rows_named t ns" and "table_ok t"
  shows "case apply_update now u (t, ns) of (t', ns') \<Rightarrow> rows_named t' ns'"
proof (cases u)
  case (UComplete g)
  have "\<forall>(k, e) \<in> set (index_rows es). learn_rows (index_rows es) ns k \<noteq> None" for es
    using index_rows_named by blast
  then show ?thesis
    using assms(1) UComplete by (simp add: on_complete_def rows_named_def land_def Let_def split: option.split)
next
  case (UEntity g e)
  then show ?thesis
    using assms by (auto simp: on_entity_def rows_named_def Let_def dest!: set_im_insert)
qed (use assms in \<open>auto simp: on_started_def on_page_def on_error_def rows_named_def Let_def split: option.splits\<close>)

section \<open>Cycles\<close>

type_synonym timed = "instant \<times> store_update"

definition run_updates :: "timed list \<Rightarrow> table \<times> names \<Rightarrow> table \<times> names" where
  "run_updates us tn = fold (\<lambda>(now, u). apply_update now u) us tn"

text \<open>What may arrive beside the cycle \<open>g\<close> without touching what it stages.\<close>

fun harmless :: "nat \<Rightarrow> store_update \<Rightarrow> bool" where
  "harmless g (UStarted _) = True"
| "harmless g (UPage h _ _) = (h \<le> g)"
| "harmless g (UComplete h) = (h \<noteq> g)"
| "harmless g (UEntity _ _) = True"
| "harmless g (UError h _) = (h < g)"

fun page_rows :: "nat \<Rightarrow> store_update \<Rightarrow> entity list" where
  "page_rows g (UPage h es _) = (if h = g then es else [])"
| "page_rows g _ = []"

fun is_page :: "nat \<Rightarrow> store_update \<Rightarrow> bool" where
  "is_page g (UPage h _ _) = (h = g)"
| "is_page g _ = False"

definition cycle_rows :: "nat \<Rightarrow> timed list \<Rightarrow> entity list" where
  "cycle_rows g us = concat (map (page_rows g \<circ> snd) us)"

text \<open>The staging of \<open>g\<close> holds what its pages brought: none yet, or all of them so far.\<close>

definition staging_holds :: "nat \<Rightarrow> entity list option \<Rightarrow> table \<Rightarrow> bool" where
  "staging_holds g brought t \<longleftrightarrow> tb_generation t < g \<and>
     (case brought of
        None \<Rightarrow> (case tb_staging t of Some s \<Rightarrow> st_generation s < g | None \<Rightarrow> True)
      | Some es \<Rightarrow> (\<exists>s. tb_staging t = Some s \<and> st_generation s = g \<and> st_entities s = es))"

definition bring :: "nat \<Rightarrow> store_update \<Rightarrow> entity list option \<Rightarrow> entity list option" where
  "bring g u brought =
     (if is_page g u then Some ((case brought of None \<Rightarrow> [] | Some es \<Rightarrow> es) @ page_rows g u) else brought)"

lemma staging_step:
  assumes "staging_holds g brought t" and "harmless g u"
  shows "staging_holds g (bring g u brought) (fst (apply_update now u (t, ns)))"
proof (cases u)
  case (UStarted h)
  then show ?thesis using assms by (auto simp: staging_holds_def bring_def on_started_def split: option.splits)
next
  case (UPage h es tot)
  then show ?thesis using assms by (auto simp: staging_holds_def bring_def on_page_def split: option.splits)
next
  case (UComplete h)
  then show ?thesis using assms
    by (auto simp: staging_holds_def bring_def on_complete_def land_def Let_def split: option.splits)
next
  case (UEntity h e)
  then show ?thesis using assms by (auto simp: staging_holds_def bring_def on_entity_def Let_def split: option.splits)
next
  case (UError h f)
  then show ?thesis using assms by (auto simp: staging_holds_def bring_def on_error_def Let_def split: option.splits)
qed

lemma staging_run:
  "staging_holds g brought (fst tn) \<Longrightarrow> \<forall>(now, u) \<in> set us. harmless g u \<Longrightarrow>
    staging_holds g (fold (\<lambda>(now, u). bring g u) us brought) (fst (run_updates us tn))"
proof (induction us arbitrary: brought tn)
  case Nil
  then show ?case by (simp add: run_updates_def)
next
  case (Cons x us)
  obtain now u where x: "x = (now, u)" by force
  obtain t ns where tn: "tn = (t, ns)" by force
  have "staging_holds g (bring g u brought) (fst (apply_update now u tn))"
    using staging_step Cons.prems x tn by simp
  then show ?case using Cons.IH Cons.prems(2) x by (simp add: run_updates_def)
qed

lemma brought_fold:
  "fold (\<lambda>(now, u). bring g u) us brought =
     (if brought = None \<and> (\<forall>(now, u) \<in> set us. \<not> is_page g u) then None
      else Some ((case brought of None \<Rightarrow> [] | Some es \<Rightarrow> es) @ cycle_rows g us))"
proof (induction us arbitrary: brought)
  case Nil
  then show ?case by (cases brought) (auto simp: cycle_rows_def)
next
  case (Cons x us)
  obtain now u where x: "x = (now, u)" by force
  have "page_rows g u = []" if "\<not> is_page g u" using that by (cases u) auto
  then show ?case using Cons.IH [of "bring g u brought"] x
    by (cases brought) (auto simp: bring_def cycle_rows_def)
qed

lemma complete_lands:
  assumes "staging_holds g (Some es) t"
  shows "case on_complete now g (t, ns) of (t', ns') \<Rightarrow> tb_rows t' = index_rows es \<and> tb_generation t' = g \<and>
    tb_staging t' = None \<and> tb_error t' = None \<and> \<not> tb_not_served t' \<and> tb_restored_at t' = None \<and> \<not> tb_loading t'"
  using assms by (auto simp: staging_holds_def on_complete_def land_def Let_def)

lemma whole_cycle_lands:
  assumes "tb_generation t < g" and "\<forall>s. tb_staging t = Some s \<longrightarrow> st_generation s < g"
    and "\<forall>(n, u) \<in> set us. harmless g u" and "\<exists>(n, u) \<in> set us. is_page g u"
    and "run_updates (us @ [(now, UComplete g)]) (t, ns) = (t1, ns1)"
  shows "tb_rows t1 = index_rows (cycle_rows g us) \<and> tb_generation t1 = g \<and> tb_staging t1 = None \<and>
    tb_error t1 = None \<and> \<not> tb_not_served t1 \<and> tb_restored_at t1 = None \<and> \<not> tb_loading t1"
proof -
  have "staging_holds g None t"
    using assms(1,2) by (auto simp: staging_holds_def split: option.split)
  then have "staging_holds g (fold (\<lambda>(now, u). bring g u) us None) (fst (run_updates us (t, ns)))"
    using staging_run [of g None "(t, ns)" us] assms(3) by simp
  moreover have "fold (\<lambda>(now, u). bring g u) us None = Some (cycle_rows g us)"
    using assms(4) by (auto simp: brought_fold)
  ultimately have h: "staging_holds g (Some (cycle_rows g us)) (fst (run_updates us (t, ns)))" by simp
  obtain t2 ns2 where "run_updates us (t, ns) = (t2, ns2)" by force
  then show ?thesis
    using complete_lands [of g "cycle_rows g us" t2 now ns2] h assms(5) by (simp add: run_updates_def)
qed

section \<open>Every operation\<close>

datatype store_op =
    OpApply instant table_key store_update
  | OpRestore table_key "entity list" "nat option" nat
  | OpAbandon table_key
  | OpNames "(string \<times> string) list"

fun store_step :: "store_op \<Rightarrow> ('st, 'sa) store \<Rightarrow> ('st, 'sa) store" where
  "store_step (OpApply now key u) s = store_apply now key u s"
| "store_step (OpRestore key es tot when) s = snd (store_restore key es tot when s)"
| "store_step (OpAbandon key) s = store_abandon key s"
| "store_step (OpNames ps) s = apply_names ps s"

definition store_ok :: "('st, 'sa) store \<Rightarrow> bool" where
  "store_ok s \<longleftrightarrow> (\<forall>k t. so_tables s k = Some t \<longrightarrow> table_ok t \<and> rows_named t (so_names s))"

definition empty_store :: "'st \<Rightarrow> 'sa \<Rightarrow> ('st, 'sa) store" where
  "empty_store st sa = \<lparr>so_tables = \<lambda>_. None, so_names = \<lambda>_. None, so_stats = st, so_sample = sa\<rparr>"

lemma store_okD: "store_ok s \<Longrightarrow> so_tables s k = Some t \<Longrightarrow> table_ok t \<and> rows_named t (so_names s)"
  unfolding store_ok_def by blast

lemma store_okI: "(\<And>k t. so_tables s k = Some t \<Longrightarrow> table_ok t \<and> rows_named t (so_names s)) \<Longrightarrow> store_ok s"
  unfolding store_ok_def by blast

lemma empty_store_ok: "store_ok (empty_store st sa)"
  by (simp add: store_ok_def empty_store_def)

lemma rows_named_more: "rows_named t ns \<Longrightarrow> \<forall>i. ns i \<noteq> None \<longrightarrow> ms i \<noteq> None \<Longrightarrow> rows_named t ms"
  by (fastforce simp: rows_named_def)

lemma names_grow: "ns i \<noteq> None \<Longrightarrow> snd (apply_update now u (t, ns)) i \<noteq> None"
  using learn_rows_keeps [of ns i]
  by (cases u) (auto simp: on_complete_def on_entity_def land_def Let_def split: option.splits)

lemma learn_names_grow: "ns i \<noteq> None \<Longrightarrow> learn_names ps ns i \<noteq> None"
  by (induction ps arbitrary: ns) (auto simp: learn_names_def)

lemma store_table_ok: "store_ok s \<Longrightarrow> table_ok (store_table s key) \<and> rows_named (store_table s key) (so_names s)"
  using store_okD [of s "key_id key"]
  by (auto simp: store_table_def fresh_table_ok split: option.split) (simp add: rows_named_def fresh_table_def)

lemma store_put_ok:
  assumes "store_ok s" and "table_ok t" and "rows_named t ns" and "\<forall>i. so_names s i \<noteq> None \<longrightarrow> ns i \<noteq> None"
  shows "store_ok (s\<lparr>so_tables := (so_tables s)(key_id key \<mapsto> t), so_names := ns\<rparr>)"
proof (rule store_okI)
  fix k u
  assume "so_tables (s\<lparr>so_tables := (so_tables s)(key_id key \<mapsto> t), so_names := ns\<rparr>) k = Some u"
  then show "table_ok u \<and> rows_named u (so_names (s\<lparr>so_tables := (so_tables s)(key_id key \<mapsto> t), so_names := ns\<rparr>))"
    using assms store_okD [OF assms(1), of k u] rows_named_more [OF _ assms(4)]
    by (cases "k = key_id key") auto
qed

lemma store_apply_ok: "store_ok s \<Longrightarrow> store_ok (store_apply now key u s)"
proof -
  assume s: "store_ok s"
  obtain t ns where r: "apply_update now u (store_table s key, so_names s) = (t, ns)" by force
  have "table_ok t" using table_ok_update [of "(store_table s key, so_names s)" now u] store_table_ok [OF s] r by simp
  moreover have "rows_named t ns"
    using rows_named_update [of "store_table s key" "so_names s" now u] store_table_ok [OF s] r by simp
  moreover have "so_names s i \<noteq> None \<Longrightarrow> ns i \<noteq> None" for i
    using names_grow [of "so_names s" i now u "store_table s key"] r by simp
  ultimately show "store_ok (store_apply now key u s)"
    using store_put_ok [OF s] r by (simp add: store_apply_def)
qed

lemma store_restore_ok: "store_ok s \<Longrightarrow> store_ok (snd (store_restore key es tot when s))"
proof -
  assume s: "store_ok s"
  let ?rows = "index_rows es"
  let ?t = "store_table s key\<lparr>tb_rows := ?rows, tb_total := tot, tb_restored_at := Some when, tb_error := None,
    tb_loading := False\<rparr>"
  have "table_ok ?t" using index_rows_ok [of es] store_table_ok [OF s, of key]
    by (simp add: table_ok_def split: option.splits)
  moreover have "rows_named ?t (learn_rows ?rows (so_names s))"
    using index_rows_named by (auto simp: rows_named_def)
  moreover have "so_names s i \<noteq> None \<Longrightarrow> learn_rows ?rows (so_names s) i \<noteq> None" for i
    by (rule learn_rows_keeps)
  ultimately have "store_ok (s\<lparr>so_tables := (so_tables s)(key_id key \<mapsto> ?t),
      so_names := learn_rows ?rows (so_names s)\<rparr>)"
    using store_put_ok [OF s] by blast
  then show "store_ok (snd (store_restore key es tot when s))"
    using s by (simp add: store_restore_def Let_def)
qed

lemma store_step_ok: "store_ok s \<Longrightarrow> store_ok (store_step op s)"
proof (cases op)
  case (OpAbandon key)
  assume "store_ok s"
  then show ?thesis
    using OpAbandon store_okD [of s "key_id key"] store_put_ok [of s _ "so_names s" key]
    by (auto simp: store_abandon_def table_ok_def rows_named_def split: option.split)
next
  case (OpNames ps)
  assume "store_ok s"
  moreover have "rows_named t (so_names s) \<Longrightarrow> rows_named t (learn_names ps (so_names s))" for t
    by (erule rows_named_more) (use learn_names_grow in blast)
  ultimately show ?thesis
    using OpNames store_okD [of s] by (auto simp: apply_names_def intro!: store_okI)
qed (simp_all add: store_apply_ok store_restore_ok)

lemma store_step_generation:
  "store_ok s \<Longrightarrow> tb_generation (store_table s key) \<le> tb_generation (store_table (store_step op s) key)"
proof (cases op)
  case (OpApply now k u)
  assume s: "store_ok s"
  obtain t ns where r: "apply_update now u (store_table s k, so_names s) = (t, ns)" by force
  have "tb_generation (store_table s k) \<le> tb_generation t"
    using generation_update [of "(store_table s k, so_names s)" now u] store_table_ok [OF s, of k] r by simp
  then show ?thesis using OpApply r by (auto simp: store_apply_def store_table_def)
qed (auto simp: store_restore_def store_abandon_def apply_names_def store_table_def Let_def split: option.splits)

section \<open>Properties\<close>


definition lab_row :: "string \<Rightarrow> entity" where
  "lab_row i = \<lparr>e_kind = lab_kind, e_ext_id = i, e_name = i, e_etag = None, e_raw = JObj []\<rparr>"


text \<open>
  C30: a younger failure truncates a walk in flight: when an error of a younger cycle on the same
  table - a single-entity refresh, say - lands between two pages of a walk, the pages before it are
  thrown away, the walk's next page stages alone, and its completion shows only the tail as the
  whole table, with no error on it.
\<close>

theorem younger_failure_truncates_a_walk:
  assumes "tb_generation t < g" and "tb_staging t = None" and "g < h"
  shows "case run_updates [(n1, UPage g es tot), (n2, UError h f), (n3, UPage g es' tot'), (n4, UComplete g)] (t, ns)
    of (t', _) \<Rightarrow> tb_rows t' = index_rows es' \<and> tb_error t' = None"
  using assms by (simp add: run_updates_def on_page_def on_error_def on_complete_def land_def Let_def)

theorem younger_failure_truncates_a_walk_witness:
  "tb_rows (fst (run_updates [(0, UPage 1 [lab_row ''a''] (Some 2)), (1, UError 2 (failure_local ''gone'')),
      (2, UPage 1 [lab_row ''b''] (Some 2)), (3, UComplete 1)] (fresh_table, \<lambda>_. None))) = [(''b'', lab_row ''b'')]"
  using younger_failure_truncates_a_walk [where t = fresh_table and g = 1 and h = 2 and ?n1.0 = 0 and ?n2.0 = 1 and
      ?n3.0 = 2 and ?n4.0 = 3 and es = "[lab_row ''a'']" and es' = "[lab_row ''b'']" and tot = "Some 2" and
      tot' = "Some 2" and f = "failure_local ''gone''" and ns = "\<lambda>_. None"]
  by (simp add: case_prod_beta) (simp add: fresh_table_def index_rows_def im_of_def lab_row_def)

text \<open>
  C31: whatever messages, restores and abandoned walks reach a store, in any order: every table
  keeps one row per identity under its own identity, stages only for a cycle younger than the one
  it shows, has a name on file for each of its rows, and never goes back a generation.
\<close>

theorem store_stays_ok:
  assumes "store_ok s"
  shows "store_ok (fold store_step ops s) \<and>
    (\<forall>key. tb_generation (store_table s key) \<le> tb_generation (store_table (fold store_step ops s) key))"
  using assms
proof (induction ops arbitrary: s)
  case Nil
  then show ?case by simp
next
  case (Cons op ops)
  then show ?case
    using Cons.IH [OF store_step_ok [OF Cons.prems, of op]] store_step_generation [OF Cons.prems, of _ op]
    by (auto intro: le_trans)
qed

theorem store_stays_ok_witness:
  "store_ok (fold store_step [OpRestore (key_top lab_kind) [lab_row ''a''] None 0,
     OpApply 1 (key_top lab_kind) (UPage 1 [] None)] (empty_store () ()))"
  by (rule conjunct1, rule store_stays_ok, rule empty_store_ok)

end
