(* ===== verification/Status.thy ===== *)
theory Status
  imports Actions
begin

text \<open>
  Status words to colour roles (\<open>crates/core/src/status.rs\<close>, \<open>normalize_status\<close> and
  \<open>Kind::status_role\<close> of \<open>crates/catalog/src/lib.rs\<close>). The generated override tables are sorted,
  on which the source's binary search is a lookup.
\<close>

definition normalize :: "string \<Rightarrow> string" where
  "normalize word =
     (let trimmed = trim word;
          bare = (case strip_prefix (dollar []) trimmed of Some s \<Rightarrow> s | None \<Rightarrow> trimmed)
      in map (\<lambda>c. if c = CHR ''-'' \<or> c = CHR '' '' then CHR ''_'' else to_upper c) bare)"

definition status_role :: "kind \<Rightarrow> string \<Rightarrow> role option" where
  "status_role k word = map_of (k_status_roles k) word"

definition role_words :: "(role \<times> string list) list" where
  "role_words =
    [(Ok, [''ON'', ''RUNNING'', ''SUCCEEDED'', ''SUCCESS'', ''COMPLETE'', ''COMPLETED'', ''NORMAL'',
       ''UP'', ''ACTIVE'', ''AVAILABLE'', ''HEALTHY'', ''RESOLVED'', ''AUTO_RESOLVED'',
       ''ACKNOWLEDGED'', ''CONNECTED'', ''ENABLED'', ''READY'', ''IN_SYNC'',
       ''RECOVERY_COMPLETED'', ''TRUE'']),
     (Off, [''OFF'', ''POWERED_OFF'']),
     (Pending, [''PAUSED'', ''SUSPENDED'', ''QUEUED'', ''PENDING'', ''IN_PROGRESS'', ''MIGRATING'',
       ''CANCELING'', ''CANCELLING'', ''SUSPENDING'', ''RESUMING'', ''PAUSING'', ''POWERING_ON'',
       ''POWERING_OFF'', ''PROVISIONING'', ''UPDATING'', ''UPGRADING'', ''DOWNLOADING'',
       ''PREUPGRADE'', ''SCHEDULED'', ''RETRYING'', ''CONFIGURING'', ''MAINTENANCE'', ''NEW_NODE'',
       ''SETUP_PENDING'', ''SYNCING'', ''DELETING_IN_PROGRESS'', ''FAILOVER_IN_PROGRESS'',
       ''RECOVERY_STARTED'', ''RECOVERY_IN_PROGRESS'']),
     (Error, [''FAILED'', ''ABORTED'', ''ERROR'', ''CRITICAL'', ''HIGH'', ''DOWN'', ''DEGRADED'',
       ''UNHEALTHY'', ''UNREACHABLE'', ''DISCONNECTED'', ''OUT_OF_SYNC'', ''DELETE_FAILED'',
       ''FAILOVER_FAILED'', ''FALSE'']),
     (Warn, [''WARNING'', ''MEDIUM'', ''COMPLETED_WITH_ERRORS'', ''SUCCEEDED_WITH_VALIDATION_WARNING'']),
     (Info, [''INFO'', ''LOW'']),
     (Ending, [''CANCELED'', ''CANCELLED'', ''DELETING'', ''DELETED'', ''TERMINATING'', ''TO_BE_REMOVED'',
       ''OK_TO_BE_REMOVED'']),
     (Muted, [''UNKNOWN'', ''REDACTED'', ''UNDETERMINED'', ''NONE'', ''DEFAULT'', ''DISABLED'',
       ''INACTIVE'', ''SKIPPED'', [], ''_''])]"

definition role_of :: "string \<Rightarrow> role" where
  "role_of word = (case find (\<lambda>(_, ws). word \<in> set ws) role_words of Some (r, _) \<Rightarrow> r | None \<Rightarrow> Neutral)"

definition word_role :: "string \<Rightarrow> role" where
  "word_role word = role_of (normalize word)"

definition role_in :: "kind \<Rightarrow> string \<Rightarrow> role" where
  "role_in k word =
     (let w = normalize word in case status_role k w of Some r \<Rightarrow> r | None \<Rightarrow> role_of w)"

section \<open>The vocabulary\<close>

text \<open>No word of the vocabulary is under two roles, so the order of the arms does not matter.\<close>

lemma role_words_apart: "distinct (concat (map snd role_words))"
  by (simp add: role_words_def)

lemma role_of_word: "(r, ws) \<in> set role_words \<Longrightarrow> w \<in> set ws \<Longrightarrow> role_of w = r"
proof -
  assume rw: "(r, ws) \<in> set role_words" "w \<in> set ws"
  have apart: "distinct (concat (map snd xs)) \<Longrightarrow> (r, ws) \<in> set xs \<Longrightarrow>
      find (\<lambda>(_, us). w \<in> set us) xs = Some (r, ws)" for xs
    using rw(2) by (induction xs) (fastforce simp: disjoint_iff)+
  show "role_of w = r" using apart [OF role_words_apart rw(1)] by (simp add: role_of_def)
qed

end
