(* ===== verification/Journal.thy ===== *)
theory Journal
  imports Actions
begin

text \<open>
  What was attempted this session (\<open>crates/core/src/journal.rs\<close>): a ring of entries whose ids stay
  good after an entry has been evicted.
\<close>

type_synonym journal_id = "64 word"

datatype journal_outcome =
    Started
  | Succeeded
  | Failed string
  | DeniedAs string
  | Cancelled
  | UnknownAs string

fun outcome_label :: "journal_outcome \<Rightarrow> string" where
  "outcome_label Started = ''started''"
| "outcome_label Succeeded = ''succeeded''"
| "outcome_label (Failed m) = ''failed: '' @ m"
| "outcome_label (DeniedAs m) = m"
| "outcome_label Cancelled = ''cancelled''"
| "outcome_label (UnknownAs m) = ''unknown: '' @ m"

record attempt_made =
  at_context :: string
  at_kind :: kind
  at_ext_id :: string
  at_name :: string
  at_action :: string

record journal_entry =
  je_id :: journal_id
  je_at :: nat
  je_attempt :: attempt_made
  je_outcome :: journal_outcome
  je_task :: "string option"

record journal =
  jo_entries :: "journal_entry list"
  jo_next :: "64 word"

definition journal_capacity :: nat where
  "journal_capacity = 500"

definition journal_default :: journal where
  "journal_default = \<lparr>jo_entries = [], jo_next = 1\<rparr>"

definition record_attempt :: "attempt_made \<Rightarrow> nat \<Rightarrow> journal_outcome \<Rightarrow> journal \<Rightarrow> journal_id \<times> journal" where
  "record_attempt a when out j =
     (let i = jo_next j;
          kept = (if length (jo_entries j) = journal_capacity then tl (jo_entries j) else jo_entries j)
      in (i, \<lparr>jo_entries = kept @ [\<lparr>je_id = i, je_at = when, je_attempt = a, je_outcome = out, je_task = None\<rparr>],
              jo_next = i + 1\<rparr>))"

definition settled :: "journal_outcome \<Rightarrow> string option \<Rightarrow> journal_entry \<Rightarrow> journal_entry" where
  "settled out task e =
     e\<lparr>je_outcome := out, je_task := (case task of Some t \<Rightarrow> Some t | None \<Rightarrow> je_task e)\<rparr>"

fun settle_entries :: "journal_id \<Rightarrow> journal_outcome \<Rightarrow> string option \<Rightarrow> journal_entry list \<Rightarrow> journal_entry list" where
  "settle_entries i out task [] = []"
| "settle_entries i out task (e # es) =
     (if je_id e = i then settled out task e # es else e # settle_entries i out task es)"

definition settle_journal :: "journal_id \<Rightarrow> journal_outcome \<Rightarrow> string option \<Rightarrow> journal \<Rightarrow> journal" where
  "settle_journal i out task j = j\<lparr>jo_entries := settle_entries i out task (jo_entries j)\<rparr>"

definition context_of :: "journal_id \<Rightarrow> journal \<Rightarrow> string option" where
  "context_of i j = map_option (at_context \<circ> je_attempt) (find (\<lambda>e. je_id e = i) (jo_entries j))"

definition journal_is_empty :: "journal \<Rightarrow> bool" where
  "journal_is_empty j \<longleftrightarrow> jo_entries j = []"

section \<open>The ring as the tail of a history\<close>

text \<open>
  What the ring holds after a session that made the attempts \<open>h\<close>, oldest first: the last
  \<open>journal_capacity\<close> of them, under ids that count up to the next one.
\<close>

definition journal_ok :: "attempt_made list \<Rightarrow> journal \<Rightarrow> bool" where
  "journal_ok h j \<longleftrightarrow> jo_next j = of_nat (Suc (length h)) \<and>
     map je_attempt (jo_entries j) = drop (length h - journal_capacity) h \<and>
     map je_id (jo_entries j) = map of_nat [Suc (length h - journal_capacity)..<Suc (length h)]"

lemma journal_default_ok: "journal_ok [] journal_default"
  by (simp add: journal_ok_def journal_default_def)

lemma settle_entries_ids [simp]: "map je_id (settle_entries i out task es) = map je_id es"
  by (induction es) (auto simp: settled_def)

lemma settle_entries_attempts [simp]: "map je_attempt (settle_entries i out task es) = map je_attempt es"
  by (induction es) (auto simp: settled_def)

lemma settle_ok: "journal_ok h j \<Longrightarrow> journal_ok h (settle_journal i out task j)"
  by (simp add: journal_ok_def settle_journal_def del: upt_Suc)

lemma journal_ok_length: "journal_ok h j \<Longrightarrow> length (jo_entries j) = min (length h) journal_capacity"
  by (drule journal_ok_def [THEN iffD1], elim conjE, drule arg_cong [where f = length]) auto

lemma tl_map: "tl (map f xs) = map f (tl xs)"
  by (simp add: map_tl)

lemma record_ok: "journal_ok h j \<Longrightarrow> journal_ok (h @ [a]) (snd (record_attempt a when out j))"
proof -
  assume j: "journal_ok h j"
  let ?es = "jo_entries j" and ?n = "length h"
  note l = journal_ok_length [OF j]
  have ids: "map je_id ?es = map of_nat [Suc (?n - journal_capacity)..<Suc ?n]"
    and as: "map je_attempt ?es = drop (?n - journal_capacity) h" and nx: "jo_next j = of_nat (Suc ?n)"
    using j by (simp_all add: journal_ok_def)
  show ?thesis
  proof (cases "length ?es = journal_capacity")
    case True
    then have c: "journal_capacity \<le> ?n" using l by simp
    have "map je_id (tl ?es) = map of_nat [Suc (Suc ?n - journal_capacity)..<Suc ?n]"
      using c by (simp add: map_tl ids tl_map tl_upt Suc_diff_le del: upt_Suc)
    moreover have "map je_attempt (tl ?es) = drop (Suc ?n - journal_capacity) h"
      using c by (simp add: map_tl as Suc_diff_le drop_Suc tl_drop)
    ultimately show ?thesis
      using True c nx by (simp add: journal_ok_def record_attempt_def Let_def journal_capacity_def)
  next
    case False
    then have c: "?n < journal_capacity" using l by (simp add: min_def split: if_splits)
    then show ?thesis
      using False ids as nx by (simp add: journal_ok_def record_attempt_def Let_def)
  qed
qed

text \<open>A session as the journal sees it: attempts recorded and outcomes settled, in any order.\<close>

datatype journal_step =
    Recording attempt_made nat journal_outcome
  | Settling journal_id journal_outcome "string option"

fun journal_steps :: "journal_step list \<Rightarrow> journal \<Rightarrow> journal" where
  "journal_steps [] j = j"
| "journal_steps (Recording a when out # ss) j = journal_steps ss (snd (record_attempt a when out j))"
| "journal_steps (Settling i out task # ss) j = journal_steps ss (settle_journal i out task j)"

fun attempts_of :: "journal_step list \<Rightarrow> attempt_made list" where
  "attempts_of [] = []"
| "attempts_of (Recording a when out # ss) = a # attempts_of ss"
| "attempts_of (Settling i out task # ss) = attempts_of ss"

lemma journal_steps_ok: "journal_ok h j \<Longrightarrow> journal_ok (h @ attempts_of ss) (journal_steps ss j)"
proof (induction ss j arbitrary: h rule: journal_steps.induct)
  case (2 a t out ss j)
  from "2.IH" [OF record_ok [OF "2.prems"]] show ?case by simp
qed (simp_all add: settle_ok)

lemma find_by_id:
  "map je_id es = map f ks \<Longrightarrow> inj_on f (insert x (set ks)) \<Longrightarrow> distinct ks \<Longrightarrow>
     map_option je_attempt (find (\<lambda>e. je_id e = f x) es)
       = map_of (zip ks (map je_attempt es)) x"
proof (induction ks arbitrary: es)
  case (Cons k ks)
  then obtain e es' where es: "es = e # es'" "je_id e = f k" "map je_id es' = map f ks"
    by (cases es) auto
  have i: "inj_on f (insert x (set ks))" using Cons.prems(2) by (rule inj_on_subset) auto
  have "f k = f x \<longleftrightarrow> k = x" using inj_onD [OF Cons.prems(2), of k x] by auto
  with Cons.IH [OF es(3) i] Cons.prems(3) show ?case by (auto simp: es(1,2))
qed simp

lemma map_of_zip_upt:
  "map_of (zip [m..<m + length xs] xs) x = (if m \<le> x \<and> x < m + length xs then Some (xs ! (x - m)) else None)"
proof (induction xs arbitrary: m)
  case (Cons a xs)
  have "[m..<m + length (a # xs)] = m # [Suc m..<Suc m + length xs]" by (subst upt_conv_Cons) auto
  moreover have "Suc m \<le> x \<Longrightarrow> (a # xs) ! (x - m) = xs ! (x - Suc m)" by (simp add: nth_Cons' Suc_diff_Suc)
  ultimately show ?case using Cons.IH [of "Suc m"] by (auto simp del: upt_Suc)
qed simp

lemma ids_apart: "inj_on (of_nat :: nat \<Rightarrow> 64 word) {..<2 ^ 64}"
proof (rule inj_onI)
  fix a b :: nat
  assume "a \<in> {..<2 ^ 64}" "b \<in> {..<2 ^ 64}" "(of_nat a :: 64 word) = of_nat b"
  then show "a = b" by (simp add: word_of_nat_eq_iff take_bit_nat_eq_self)
qed

lemma journal_lookup:
  assumes "journal_ok h j" and "Suc (length h) < 2 ^ 64" and "x < 2 ^ 64"
  shows "map_option je_attempt (find (\<lambda>e. je_id e = of_nat x) (jo_entries j))
    = (if 0 < x \<and> x \<le> length h \<and> length h < x + journal_capacity then Some (h ! (x - 1)) else None)"
proof -
  let ?m = "length h - journal_capacity"
  have ids: "map je_id (jo_entries j) = map of_nat [Suc ?m..<Suc (length h)]"
    and as: "map je_attempt (jo_entries j) = drop ?m h"
    using assms(1) by (simp_all add: journal_ok_def)
  have "inj_on (of_nat :: nat \<Rightarrow> 64 word) (insert x (set [Suc ?m..<Suc (length h)]))"
    by (rule inj_on_subset [OF ids_apart]) (use assms(2,3) in \<open>auto simp del: upt_Suc power_Suc\<close>)
  then have "map_option je_attempt (find (\<lambda>e. je_id e = of_nat x) (jo_entries j))
      = map_of (zip [Suc ?m..<Suc (length h)] (drop ?m h)) x"
    using find_by_id [OF ids] as by (simp del: upt_Suc)
  also have "Suc (length h) = Suc ?m + length (drop ?m h)" by simp
  also note map_of_zip_upt
  finally show ?thesis by (auto simp: journal_capacity_def)
qed

text \<open>
  C32: An attempt's journal id stays its own. After a session of attempts and settlements, in any
  order and fewer than the 64-bit counter can number, the \<open>k\<close>-th attempt's id still leads to
  that attempt's context while it is among the last five hundred, and once it has been evicted
  it leads nowhere: never to another attempt. The reserved id zero leads nowhere either.
\<close>
theorem ids_survive_eviction:
  assumes "Suc (length (attempts_of ss)) < 2 ^ 64" and "x < 2 ^ 64"
  shows "context_of (of_nat x) (journal_steps ss journal_default)
    = (if 0 < x \<and> x \<le> length (attempts_of ss) \<and> length (attempts_of ss) < x + journal_capacity
       then Some (at_context (attempts_of ss ! (x - 1))) else None)"
  using journal_lookup [OF journal_steps_ok [OF journal_default_ok, of ss] _ assms(2)] assms(1)
  by (simp add: context_of_def flip: map_option.compositionality split: if_splits)

text \<open>A short session: two attempts, the second settled as denied and the reserved id settled.\<close>

definition short_session :: "kind \<Rightarrow> journal_step list" where
  "short_session k =
    [Recording \<lparr>at_context = ''lab'', at_kind = k, at_ext_id = ''u'', at_name = ''web'', at_action = ''power-on''\<rparr> 1 Started,
     Settling 0 Cancelled None,
     Recording \<lparr>at_context = ''prod'', at_kind = k, at_ext_id = ''v'', at_name = ''db'', at_action = ''delete''\<rparr> 2 Started,
     Settling 2 (DeniedAs ''denied: read-only'') None]"

lemma ids_survive_eviction_witness:
  "\<forall>k. context_of 2 (journal_steps (short_session k) journal_default) = Some ''prod''"
  using ids_survive_eviction [of "short_session k" 2 for k]
  by (simp add: short_session_def journal_capacity_def)

end
