(* ===== verification/Pollers.thy ===== *)
theory Pollers
  imports Requests Status Store
begin

text \<open>
  The session's pollers that are not subscriptions: the header's counters
  (\<open>crates/core/src/stats.rs\<close>), the Disaster Recovery page's sampler
  (\<open>crates/core/src/sampler.rs\<close>) and the names warm-up (\<open>crates/core/src/names.rs\<close>). Each is
  one cycle of requests and the turn of the loop around it; the pauses between requests and
  between turns are not modelled. What a cycle asks is an argument, \<open>ask\<close>: \<open>list_page\<close> of the
  client, or its \<open>get_path\<close>.
\<close>

section \<open>The counters\<close>

datatype counter =
    CtClusters | CtHosts | CtVms | CtVmsOn | CtAlertsCritical | CtAlertsWarning | CtTasksRunning

record counter_def =
  cd_counter :: counter
  cd_kind :: string
  cd_filter :: "string option"
  cd_cluster_on :: "string option"

definition quoted :: "string \<Rightarrow> string" where
  "quoted s = CHR 0x27 # s @ [CHR 0x27]"

definition counters :: "counter_def list" where
  "counters =
    [\<lparr>cd_counter = CtClusters, cd_kind = ''clustermgmt.config.Cluster'', cd_filter = None, cd_cluster_on = None\<rparr>,
     \<lparr>cd_counter = CtHosts, cd_kind = ''clustermgmt.config.Host'', cd_filter = None, cd_cluster_on = None\<rparr>,
     \<lparr>cd_counter = CtVms, cd_kind = ''vmm.ahv.config.Vm'', cd_filter = None,
       cd_cluster_on = Some ''cluster/extId''\<rparr>,
     \<lparr>cd_counter = CtVmsOn, cd_kind = ''vmm.ahv.config.Vm'',
       cd_filter = Some (''powerState eq Vmm.Ahv.Config.PowerState'' @ quoted ''ON''),
       cd_cluster_on = Some ''cluster/extId''\<rparr>,
     \<lparr>cd_counter = CtAlertsCritical, cd_kind = ''monitoring.serviceability.Alert'',
       cd_filter = Some (''severity eq Monitoring.Common.Severity'' @ quoted ''CRITICAL'' @ '' and isResolved eq false''),
       cd_cluster_on = Some ''clusterUUID''\<rparr>,
     \<lparr>cd_counter = CtAlertsWarning, cd_kind = ''monitoring.serviceability.Alert'',
       cd_filter = Some (''severity eq Monitoring.Common.Severity'' @ quoted ''WARNING'' @ '' and isResolved eq false''),
       cd_cluster_on = Some ''clusterUUID''\<rparr>,
     \<lparr>cd_counter = CtTasksRunning, cd_kind = ''prism.config.Task'',
       cd_filter = Some (''status eq Prism.Config.TaskStatus'' @ quoted ''RUNNING''), cd_cluster_on = None\<rparr>]"

record stats =
  sx_clusters :: "nat option"
  sx_hosts :: "nat option"
  sx_vms :: "nat option"
  sx_vms_on :: "nat option"
  sx_alerts_critical :: "nat option"
  sx_alerts_warning :: "nat option"
  sx_tasks_running :: "nat option"
  sx_stale :: bool

definition stats_default :: stats where
  "stats_default = \<lparr>sx_clusters = None, sx_hosts = None, sx_vms = None, sx_vms_on = None,
     sx_alerts_critical = None, sx_alerts_warning = None, sx_tasks_running = None, sx_stale = False\<rparr>"

definition vms_off :: "stats \<Rightarrow> nat option" where
  "vms_off s = (case (sx_vms s, sx_vms_on s) of (Some n, Some m) \<Rightarrow> Some (n - m) | _ \<Rightarrow> None)"

definition show_count :: "nat option \<Rightarrow> string" where
  "show_count n = (case n of Some k \<Rightarrow> show_nat k | None \<Rightarrow> ''-'')"

text \<open>\<open>slot\<close>: the field a counter writes, as a setter and as a getter.\<close>

fun set_slot :: "counter \<Rightarrow> nat option \<Rightarrow> stats \<Rightarrow> stats" where
  "set_slot CtClusters v s = s\<lparr>sx_clusters := v\<rparr>"
| "set_slot CtHosts v s = s\<lparr>sx_hosts := v\<rparr>"
| "set_slot CtVms v s = s\<lparr>sx_vms := v\<rparr>"
| "set_slot CtVmsOn v s = s\<lparr>sx_vms_on := v\<rparr>"
| "set_slot CtAlertsCritical v s = s\<lparr>sx_alerts_critical := v\<rparr>"
| "set_slot CtAlertsWarning v s = s\<lparr>sx_alerts_warning := v\<rparr>"
| "set_slot CtTasksRunning v s = s\<lparr>sx_tasks_running := v\<rparr>"

fun get_slot :: "counter \<Rightarrow> stats \<Rightarrow> nat option" where
  "get_slot CtClusters s = sx_clusters s"
| "get_slot CtHosts s = sx_hosts s"
| "get_slot CtVms s = sx_vms s"
| "get_slot CtVmsOn s = sx_vms_on s"
| "get_slot CtAlertsCritical s = sx_alerts_critical s"
| "get_slot CtAlertsWarning s = sx_alerts_warning s"
| "get_slot CtTasksRunning s = sx_tasks_running s"

lemma get_set_slot [simp]: "get_slot d (set_slot n v s) = (if d = n then v else get_slot d s)"
  by (cases n; cases d) auto

fun is_refusal :: "prism_error \<Rightarrow> bool" where
  "is_refusal EAuth = True"
| "is_refusal (EDenied m) = True"
| "is_refusal (EForbidden m) = True"
| "is_refusal (ENotFound m) = True"
| "is_refusal (EApi status m w) = (400 \<le> status \<and> status \<le> 499)"
| "is_refusal e = False"

text \<open>A quote inside an OData literal is doubled.\<close>

definition odata_literal :: "string \<Rightarrow> string" where
  "odata_literal s = concat (map (\<lambda>c. if c = CHR 0x27 then [CHR 0x27, CHR 0x27] else [c]) s)"

text \<open>
  The filter of a counter under a pinned cluster: \<open>Inl\<close> for a counter the pin blanks, otherwise
  its own filter and the scope, either of which may be absent.
\<close>

definition cluster_scope :: "string option \<Rightarrow> counter_def \<Rightarrow> unit + string option" where
  "cluster_scope cluster d =
     (case (cluster, cd_cluster_on d) of
        (None, _) \<Rightarrow> Inr None
      | (Some c, Some field) \<Rightarrow> Inr (Some (field @ '' eq '' @ quoted (odata_literal c)))
      | (Some _, None) \<Rightarrow> Inl ())"

definition counter_filter :: "counter_def \<Rightarrow> string option \<Rightarrow> string option" where
  "counter_filter d sc =
     (case (cd_filter d, sc) of
        (Some f, Some s) \<Rightarrow> Some (f @ '' and '' @ s)
      | (Some f, None) \<Rightarrow> Some f
      | (None, Some s) \<Rightarrow> Some s
      | (None, None) \<Rightarrow> None)"

text \<open>What a counter asks, if it asks at all.\<close>

definition counter_request :: "catalog \<Rightarrow> 'w client \<Rightarrow> string option \<Rightarrow> counter list \<Rightarrow> counter_def
    \<Rightarrow> (kind \<times> list_options) option" where
  "counter_request cat c cluster spurned d =
     (if cd_counter d \<in> set spurned then None
      else case kind_of_id (cat_kinds cat) (cd_kind d) of
          None \<Rightarrow> None
        | Some k \<Rightarrow>
            (if \<not> is_served c k then None
             else case cluster_scope cluster d of
                 Inl _ \<Rightarrow> None
               | Inr sc \<Rightarrow> (let f = counter_filter d sc
                   in if f \<noteq> None \<and> \<not> lp_filter (k_list_params k) then None
                      else Some (k, list_options_default\<lparr>lo_limit := 1, lo_filter := f\<rparr>))))"

record tallying =
  ta_stats :: stats
  ta_refused :: "counter list"
  ta_asked :: bool
  ta_answered :: bool

type_synonym 'w asking = "kind \<Rightarrow> nat \<Rightarrow> list_options \<Rightarrow> (page, 'w) io"

definition count_one :: "'w asking \<Rightarrow> catalog \<Rightarrow> string option \<Rightarrow> counter_def
    \<Rightarrow> tallying \<times> 'w client \<Rightarrow> tallying \<times> 'w client" where
  "count_one ask cat cluster d tc = (case tc of (t, c) \<Rightarrow>
     (case counter_request cat c cluster (ta_refused t) d of
        None \<Rightarrow> (t\<lparr>ta_stats := set_slot (cd_counter d) None (ta_stats t)\<rparr>, c)
      | Some (k, opts) \<Rightarrow>
          (case ask k 0 opts c of
             (Inr pg, c1) \<Rightarrow> (t\<lparr>ta_stats := set_slot (cd_counter d) (pg_total pg) (ta_stats t),
                 ta_asked := True, ta_answered := True\<rparr>, c1)
           | (Inl e, c1) \<Rightarrow>
               (if is_refusal e
                then (t\<lparr>ta_stats := set_slot (cd_counter d) None (ta_stats t),
                    ta_refused := ta_refused t @ [cd_counter d], ta_asked := True\<rparr>, c1)
                else (t\<lparr>ta_asked := True\<rparr>, c1)))))"

datatype cycle_outcome = Answered | AllFailed | NothingAsked

definition stats_cycle :: "'w asking \<Rightarrow> catalog \<Rightarrow> string option \<Rightarrow> stats \<Rightarrow> counter list \<Rightarrow> 'w client
    \<Rightarrow> (stats \<times> cycle_outcome) \<times> counter list \<times> 'w client" where
  "stats_cycle ask cat cluster previous spurned c =
     (let (t, c1) = fold (count_one ask cat cluster) counters
            (\<lparr>ta_stats = previous\<lparr>sx_stale := False\<rparr>, ta_refused = spurned, ta_asked = False, ta_answered = False\<rparr>, c);
          st = (if cluster \<noteq> None then (ta_stats t)\<lparr>sx_clusters := Some 1\<rparr> else ta_stats t);
          out = (if ta_answered t then Answered else if ta_asked t then AllFailed else NothingAsked)
      in ((st, out), ta_refused t, c1))"

fun fold_stats :: "stats \<Rightarrow> stats \<Rightarrow> cycle_outcome \<Rightarrow> stats" where
  "fold_stats previous st AllFailed = previous\<lparr>sx_stale := True\<rparr>"
| "fold_stats previous st out = st"

text \<open>
  One turn of the poller: the numbers it sends, and whether the loop goes on, which it does
  unless the message could not be sent or the credential was refused.
\<close>

definition stats_turn :: "'w asking \<Rightarrow> catalog \<Rightarrow> string option \<Rightarrow> bool \<Rightarrow> stats \<times> counter list \<Rightarrow> 'w client
    \<Rightarrow> (stats \<times> counter list) \<times> bool \<times> 'w client" where
  "stats_turn ask cat cluster received pr c = (case pr of (previous, spurned) \<Rightarrow>
     (case stats_cycle ask cat cluster previous spurned c of
        ((st, out), spurned1, c1) \<Rightarrow>
          ((fold_stats previous st out, spurned1), received \<and> \<not> auth_rejected (c_sess c1), c1)))"

section \<open>The sampler\<close>

definition sample_cap :: nat where
  "sample_cap = 50"

definition sample_probe :: string where
  "sample_probe = ''dataprotection.config.RecoveryPoint''"

record protection_sample =
  ps_policies :: "nat option"
  ps_plans :: "nat option"
  ps_recovery_points :: "nat option"
  ps_jobs :: "nat option"
  ps_sampled :: nat
  ps_in_sync :: nat
  ps_syncing :: nat
  ps_out_of_sync :: nat
  ps_available :: bool

definition sample_default :: protection_sample where
  "sample_default = \<lparr>ps_policies = None, ps_plans = None, ps_recovery_points = None, ps_jobs = None,
     ps_sampled = 0, ps_in_sync = 0, ps_syncing = 0, ps_out_of_sync = 0, ps_available = False\<rparr>"

definition count_kind :: "'w asking \<Rightarrow> catalog \<Rightarrow> string \<Rightarrow> 'w client \<Rightarrow> nat option \<times> 'w client" where
  "count_kind ask cat i c =
     (case kind_of_id (cat_kinds cat) i of
        None \<Rightarrow> (None, c)
      | Some k \<Rightarrow> (if \<not> is_served c k then (None, c)
          else case ask k 0 (list_options_default\<lparr>lo_limit := 1\<rparr>) c of
              (Inr pg, c1) \<Rightarrow> (pg_total pg, c1)
            | (Inl e, c1) \<Rightarrow> (None, c1)))"

definition vm_ids :: "'w asking \<Rightarrow> catalog \<Rightarrow> 'w client \<Rightarrow> string list \<times> 'w client" where
  "vm_ids ask cat c =
     (case kind_of_id (cat_kinds cat) ''vmm.ahv.config.Vm'' of
        None \<Rightarrow> ([], c)
      | Some k \<Rightarrow> (if \<not> is_served c k then ([], c)
          else case ask k 0 (list_options_default\<lparr>lo_limit := sample_cap\<rparr>) c of
              (Inr pg, c1) \<Rightarrow> (map e_ext_id (pg_entities pg), c1)
            | (Inl e, c1) \<Rightarrow> ([], c1)))"

definition sync_rank :: "json \<Rightarrow> nat" where
  "sync_rank state =
     (let w = normalize (case as_str state of Some s \<Rightarrow> s | None \<Rightarrow> [])
      in if w = ''IN_SYNC'' then 1 else if w = ''SYNCING'' then 2 else if w = ''OUT_OF_SYNC'' then 3 else 0)"

definition tally :: "json \<Rightarrow> protection_sample \<Rightarrow> protection_sample" where
  "tally v s =
     (let worst = fold (\<lambda>state w. max w (sync_rank state)) (path_get v ''replicationStates[].replicationStatus'') 0
      in if worst = 1 then s\<lparr>ps_in_sync := ps_in_sync s + 1\<rparr>
         else if worst = 2 then s\<lparr>ps_syncing := ps_syncing s + 1\<rparr>
         else if worst = 3 then s\<lparr>ps_out_of_sync := ps_out_of_sync s + 1\<rparr>
         else s)"

text \<open>The gets, one machine at a time, up to the first error that is not a 404.\<close>

fun sample_each :: "(string \<Rightarrow> (json, 'w) io) \<Rightarrow> string \<Rightarrow> string list \<Rightarrow> protection_sample \<times> 'w client
    \<Rightarrow> protection_sample \<times> 'w client" where
  "sample_each fetch version [] sc = sc"
| "sample_each fetch version (i # is) (s, c) =
     (case fetch (''/dataprotection/'' @ version @ ''/config/protected-resources/'' @ i) c of
        (Inr v, c1) \<Rightarrow> (let s1 = tally v (s\<lparr>ps_available := True\<rparr>)
            in sample_each fetch version is (s1\<lparr>ps_sampled := ps_sampled s1 + 1\<rparr>, c1))
      | (Inl (ENotFound m), c1) \<Rightarrow>
          sample_each fetch version is (s\<lparr>ps_available := True, ps_sampled := ps_sampled s + 1\<rparr>, c1)
      | (Inl e, c1) \<Rightarrow> (s, c1))"

definition sample_cycle :: "'w asking \<Rightarrow> (string \<Rightarrow> (json, 'w) io) \<Rightarrow> catalog \<Rightarrow> 'w client
    \<Rightarrow> protection_sample \<times> 'w client" where
  "sample_cycle ask fetch cat c =
     (let (policies, c1) = count_kind ask cat ''datapolicies.config.ProtectionPolicy'' c;
          (plans, c2) = count_kind ask cat ''datapolicies.config.RecoveryPlan'' c1;
          (points, c3) = count_kind ask cat ''dataprotection.config.RecoveryPoint'' c2;
          (jobs, c4) = count_kind ask cat ''dataprotection.config.RecoveryPlanJob'' c3;
          s = sample_default\<lparr>ps_policies := policies, ps_plans := plans, ps_recovery_points := points,
            ps_jobs := jobs\<rparr>
      in case kind_of_id (cat_kinds cat) sample_probe of
           None \<Rightarrow> (s, c4)
         | Some probe \<Rightarrow> (if \<not> is_served c4 probe then (s, c4)
             else case namespace_of (cat_namespaces cat) ''dataprotection'' of
                 None \<Rightarrow> (s, c4)
               | Some n \<Rightarrow> (let (is, c5) = vm_ids ask cat c4
                   in sample_each fetch (n_version n) is (s, c5))))"

text \<open>
  One turn of the sampler or of the warm-up below: what it sends, nothing while the session is
  idle, and whether the loop goes on. The sampler notices that nobody receives any more only
  when it sends; the warm-up asks the channel.
\<close>

definition sample_turn :: "'w asking \<Rightarrow> (string \<Rightarrow> (json, 'w) io) \<Rightarrow> catalog \<Rightarrow> bool \<Rightarrow> bool \<Rightarrow> 'w client
    \<Rightarrow> protection_sample option \<times> bool \<times> 'w client" where
  "sample_turn ask fetch cat idle received c =
     (if idle then (None, \<not> auth_rejected (c_sess c), c)
      else case sample_cycle ask fetch cat c of
          (s, c1) \<Rightarrow> (Some s, received \<and> \<not> auth_rejected (c_sess c1), c1))"

section \<open>The names warm-up\<close>

definition warm_limit :: nat where
  "warm_limit = 100"

definition names_of_page :: "page \<Rightarrow> (string \<times> string) list" where
  "names_of_page pg = map (\<lambda>e. (e_ext_id e, e_name e))
     (filter (\<lambda>e. e_ext_id e \<noteq> [] \<and> e_name e \<noteq> e_ext_id e) (pg_entities pg))"

fun warm_kinds :: "'w asking \<Rightarrow> kind list \<Rightarrow> 'w client \<Rightarrow> (string \<times> string) list \<times> 'w client" where
  "warm_kinds ask [] c = ([], c)"
| "warm_kinds ask (k # ks) c =
     (if \<not> is_served c k then warm_kinds ask ks c
      else case ask k 0 (list_options_default\<lparr>lo_limit := warm_limit\<rparr>) c of
          (Inr pg, c1) \<Rightarrow> (let (rest, c2) = warm_kinds ask ks c1 in (names_of_page pg @ rest, c2))
        | (Inl EAuth, c1) \<Rightarrow> ([], c1)
        | (Inl e, c1) \<Rightarrow> warm_kinds ask ks c1)"

definition names_cycle :: "'w asking \<Rightarrow> catalog \<Rightarrow> 'w client \<Rightarrow> (string \<times> string) list \<times> 'w client" where
  "names_cycle ask cat c = warm_kinds ask (filter k_warm (cat_kinds cat)) c"

definition names_turn :: "'w asking \<Rightarrow> catalog \<Rightarrow> bool \<Rightarrow> bool \<Rightarrow> 'w client
    \<Rightarrow> (string \<times> string) list option \<times> bool \<times> 'w client" where
  "names_turn ask cat idle received c =
     (let (ns, c1) = (if idle then (None, c) else apfst Some (names_cycle ask cat c))
      in (ns, received \<and> \<not> auth_rejected (c_sess c1), c1))"

section \<open>Refused counters\<close>

text \<open>
  A counter is refused at most once, the one a pinned cluster blanks is never asked, and each
  refused counter is blank or still to come in the pass.
\<close>

definition spurned_ok :: "string option \<Rightarrow> counter list \<Rightarrow> bool" where
  "spurned_ok cluster xs \<longleftrightarrow> distinct xs \<and> (cluster = None \<or> CtClusters \<notin> set xs)"

definition blank_after :: "counter_def list \<Rightarrow> tallying \<Rightarrow> bool" where
  "blank_after ds t \<longleftrightarrow>
     (\<forall>n \<in> set (ta_refused t). get_slot n (ta_stats t) = None \<or> n \<in> cd_counter ` set ds)"

lemma clusters_unscoped:
  assumes "d \<in> set counters" and "cd_counter d = CtClusters" and "cluster \<noteq> None"
  shows "counter_request cat c cluster xs d = None"
proof -
  have "cd_cluster_on d = None" using assms(1,2) by (auto simp: counters_def)
  then have "cluster_scope cluster d = Inl ()" using assms(3) by (auto simp: cluster_scope_def)
  then show ?thesis by (simp add: counter_request_def split: option.split)
qed

lemma counter_request_new: "counter_request cat c cluster xs d = Some r \<Longrightarrow> cd_counter d \<notin> set xs"
  by (simp add: counter_request_def split: if_splits)

lemma count_one_ok:
  assumes "d \<in> set counters" and "spurned_ok cluster (ta_refused t)" and "blank_after (d # ds) t"
    and "count_one ask cat cluster d (t, c) = (u, c1)"
  shows "spurned_ok cluster (ta_refused u) \<and> blank_after ds u"
proof (cases "counter_request cat c cluster (ta_refused t) d")
  case None
  then have "u = t\<lparr>ta_stats := set_slot (cd_counter d) None (ta_stats t)\<rparr>"
    using assms(4) by (simp add: count_one_def)
  then show ?thesis using assms(2,3) by (auto simp: blank_after_def)
next
  case (Some r)
  obtain k opts where r: "r = (k, opts)" by force
  have new: "cd_counter d \<notin> set (ta_refused t)" by (rule counter_request_new [OF Some])
  have "cluster = None \<or> cd_counter d \<noteq> CtClusters"
    using clusters_unscoped [OF assms(1), of cluster cat c "ta_refused t"] Some by (cases cluster) auto
  then have "spurned_ok cluster (ta_refused t @ [cd_counter d])"
    using assms(2) new by (auto simp: spurned_ok_def)
  moreover have "blank_after ds (t\<lparr>ta_stats := set_slot (cd_counter d) v (ta_stats t), ta_asked := True, ta_answered := True\<rparr>)"
    "blank_after ds (t\<lparr>ta_stats := set_slot (cd_counter d) None (ta_stats t), ta_refused := ta_refused t @ [cd_counter d], ta_asked := True\<rparr>)"
    "blank_after ds (t\<lparr>ta_asked := True\<rparr>)" for v
    using assms(3) new by (auto simp: blank_after_def)
  moreover obtain x c2 where x: "ask k 0 opts c = (x, c2)" by force
  ultimately show ?thesis using assms(2,4) Some r
    by (cases x) (auto simp: count_one_def split: if_splits)
qed

lemma counts_ok:
  "set ds \<subseteq> set counters \<Longrightarrow> spurned_ok cluster (ta_refused t) \<Longrightarrow> blank_after ds t \<Longrightarrow>
    fold (count_one ask cat cluster) ds (t, c) = (u, c1) \<Longrightarrow>
    spurned_ok cluster (ta_refused u) \<and> (\<forall>n \<in> set (ta_refused u). get_slot n (ta_stats u) = None)"
proof (induction ds arbitrary: t c)
  case Nil
  then show ?case by (simp add: blank_after_def)
next
  case (Cons d ds)
  obtain t1 c2 where x: "count_one ask cat cluster d (t, c) = (t1, c2)" by force
  have t1: "spurned_ok cluster (ta_refused t1) \<and> blank_after ds t1"
    by (rule count_one_ok [OF _ Cons.prems(2,3) x]) (use Cons.prems(1) in simp)
  show ?case
    by (rule Cons.IH [of t1 c2]) (use t1 Cons.prems x in simp_all)
qed

lemma every_counter: "n \<in> cd_counter ` set counters"
  by (cases n) (simp_all add: counters_def)

text \<open>
  The poller as a run of turns, until one of them stops it. What it shows: every refused counter
  blank, or every number dimmed.
\<close>

fun stats_run :: "'w asking \<Rightarrow> catalog \<Rightarrow> string option \<Rightarrow> bool list \<Rightarrow> stats \<times> counter list \<Rightarrow> 'w client
    \<Rightarrow> (stats \<times> counter list) \<times> 'w client" where
  "stats_run ask cat cluster [] pr c = (pr, c)"
| "stats_run ask cat cluster (received # rs) pr c =
     (case stats_turn ask cat cluster received pr c of
        (pr1, goes_on, c1) \<Rightarrow> (if goes_on then stats_run ask cat cluster rs pr1 c1 else (pr1, c1)))"

definition shown_ok :: "string option \<Rightarrow> stats \<times> counter list \<Rightarrow> bool" where
  "shown_ok cluster pr \<longleftrightarrow> spurned_ok cluster (snd pr) \<and>
     (sx_stale (fst pr) \<or> (\<forall>n \<in> set (snd pr). get_slot n (fst pr) = None))"

lemma get_slot_clusters: "n \<noteq> CtClusters \<Longrightarrow> get_slot n (s\<lparr>sx_clusters := v\<rparr>) = get_slot n s"
  by (cases n) auto

lemma fold_stats_cases: "fold_stats previous st out = (if out = AllFailed then previous\<lparr>sx_stale := True\<rparr> else st)"
  by (cases out) auto

lemma stats_turn_ok:
  assumes "spurned_ok cluster (snd pr)" and "stats_turn ask cat cluster received pr c = (pr1, goes_on, c1)"
  shows "shown_ok cluster pr1"
proof -
  let ?t = "\<lparr>ta_stats = (fst pr)\<lparr>sx_stale := False\<rparr>, ta_refused = snd pr, ta_asked = False, ta_answered = False\<rparr>"
  obtain t c2 where x: "fold (count_one ask cat cluster) counters (?t, c) = (t, c2)" by force
  have t: "spurned_ok cluster (ta_refused t)" "\<forall>n \<in> set (ta_refused t). get_slot n (ta_stats t) = None"
    using counts_ok [OF subset_refl _ _ x] assms(1) every_counter by (simp_all add: blank_after_def)
  have "get_slot n ((ta_stats t)\<lparr>sx_clusters := v\<rparr>) = None" if "n \<in> set (ta_refused t)" "cluster \<noteq> None" for n v
  proof -
    have "n \<noteq> CtClusters" using t(1) that by (auto simp: spurned_ok_def)
    then show ?thesis using t(2) that by (simp add: get_slot_clusters)
  qed
  then show ?thesis using assms(2) t x
    by (cases pr) (auto simp: stats_turn_def stats_cycle_def Let_def shown_ok_def fold_stats_cases)
qed

lemma stats_run_ok: "shown_ok cluster pr \<Longrightarrow> stats_run ask cat cluster rs pr c = (pr1, c1) \<Longrightarrow> shown_ok cluster pr1"
proof (induction rs arbitrary: pr c)
  case Nil
  then show ?case by simp
next
  case (Cons r rs)
  obtain pr2 b c2 where x: "stats_turn ask cat cluster r pr c = (pr2, b, c2)" by (metis surj_pair)
  have "shown_ok cluster pr2" by (rule stats_turn_ok [OF _ x]) (use Cons.prems(1) in \<open>simp add: shown_ok_def\<close>)
  then show ?case using Cons.IH [of pr2 c2] Cons.prems(2) x by (simp split: if_splits)
qed

section \<open>Tallies\<close>

lemma tally_frame: "ps_sampled (tally v s) = ps_sampled s \<and> ps_available (tally v s) = ps_available s"
  by (simp add: tally_def Let_def)

lemma tally_sum:
  "ps_in_sync (tally v s) + ps_syncing (tally v s) + ps_out_of_sync (tally v s)
     \<le> ps_in_sync s + ps_syncing s + ps_out_of_sync s + 1"
  by (simp add: tally_def Let_def)

definition sample_ok :: "protection_sample \<Rightarrow> bool" where
  "sample_ok s \<longleftrightarrow> ps_in_sync s + ps_syncing s + ps_out_of_sync s \<le> ps_sampled s \<and>
     (ps_available s \<or> ps_sampled s = 0)"

lemma sample_each_ok: "sample_ok s \<Longrightarrow> sample_each fetch version ids (s, c) = (s1, c1) \<Longrightarrow>
    sample_ok s1 \<and> ps_sampled s1 \<le> ps_sampled s + length ids"
proof (induction ids arbitrary: s c)
  case Nil
  then show ?case by auto
next
  case (Cons i ids)
  have "sample_ok ((tally v (s\<lparr>ps_available := True\<rparr>))\<lparr>ps_sampled := ps_sampled s + 1\<rparr>)" for v
    using Cons.prems(1) tally_sum [of v "s\<lparr>ps_available := True\<rparr>"] tally_frame [of v "s\<lparr>ps_available := True\<rparr>"]
    by (simp add: sample_ok_def)
  moreover have "sample_ok (s\<lparr>ps_available := True, ps_sampled := ps_sampled s + 1\<rparr>)"
    using Cons.prems(1) by (simp add: sample_ok_def)
  moreover obtain x c2 where "fetch (''/dataprotection/'' @ version @ ''/config/protected-resources/'' @ i) c = (x, c2)"
    by force
  ultimately show ?case using Cons.prems
    by (auto simp: tally_frame Let_def dest!: Cons.IH [rotated] split: sum.splits prism_error.splits)
qed

section \<open>Properties\<close>

text \<open>
  C34: the header's counters tire: in any number of turns, against any server, no counter is
  refused twice - so at most seven requests are ever refused - and a refused counter reads \<open>-\<close>
  unless the whole block is dimmed.
\<close>

theorem refused_counters_stay_refused:
  assumes "stats_run ask cat cluster rs (stats_default, []) c = ((st, spurned), d)"
  shows "length spurned \<le> 7 \<and> distinct spurned \<and> (sx_stale st \<or> (\<forall>n \<in> set spurned. get_slot n st = None))"
proof -
  have "shown_ok cluster (stats_default, [])" by (simp add: shown_ok_def spurned_ok_def)
  then have ok: "shown_ok cluster (st, spurned)" using stats_run_ok assms by blast
  have "set spurned \<subseteq> cd_counter ` set counters" using every_counter by blast
  then have "card (set spurned) \<le> 7"
    using card_mono [of "cd_counter ` set counters" "set spurned"] card_image_le [of "set counters" cd_counter]
      card_length [of counters] by (simp add: counters_def)
  then show ?thesis using ok by (simp add: shown_ok_def spurned_ok_def distinct_card)
qed

text \<open>Everything asked is refused with a 403.\<close>

definition forbidding :: "unit asking" where
  "forbidding k p opts c = (Inl (EForbidden ''no''), c)"

theorem refused_counters_stay_refused_witness:
  "\<exists>st spurned d. stats_run forbidding lab_catalog None [True, True] (stats_default, []) lab_client = ((st, spurned), d) \<and>
     distinct spurned \<and> length spurned \<le> 7"
proof -
  obtain st spurned d where
    r: "stats_run forbidding lab_catalog None [True, True] (stats_default, []) lab_client = ((st, spurned), d)"
    by (metis surj_pair)
  then show ?thesis using refused_counters_stay_refused [OF r] by blast
qed

text \<open>
  the sample's three tallies break down the machines sampled: a machine is counted once, at
  its worst target, whatever the answers say, and nothing is counted unless the endpoint answered.
\<close>

theorem tallies_break_down_the_sample:
  "ps_in_sync (fst (sample_cycle ask fetch cat c)) + ps_syncing (fst (sample_cycle ask fetch cat c))
     + ps_out_of_sync (fst (sample_cycle ask fetch cat c)) \<le> ps_sampled (fst (sample_cycle ask fetch cat c)) \<and>
   (ps_available (fst (sample_cycle ask fetch cat c)) \<or> ps_sampled (fst (sample_cycle ask fetch cat c)) = 0)"
proof -
  have fresh: "sample_ok (sample_default\<lparr>ps_policies := a, ps_plans := b, ps_recovery_points := x, ps_jobs := y\<rparr>)"
    for a b x y
    by (simp add: sample_ok_def sample_default_def)
  have "sample_ok (fst (sample_each fetch version ids
      (sample_default\<lparr>ps_policies := a, ps_plans := b, ps_recovery_points := x, ps_jobs := y\<rparr>, c1)))"
    for version ids a b x y c1
    using sample_each_ok [OF fresh surjective_pairing] by blast
  then have "sample_ok (fst (sample_cycle ask fetch cat c))"
    using fresh by (simp add: sample_cycle_def Let_def split: prod.split option.split)
  then show ?thesis by (simp add: sample_ok_def)
qed

end
