(* ===== verification/Silence.thy ===== *)
theory Silence
  imports Connected Pollers
begin

text \<open>
  The whole client after a refused credential: every operation the other crates call, as one
  type, run in any order.
\<close>

datatype client_op =
    DoListPage kind nat list_options
  | DoListAll kind list_options
  | DoGet kind "string list" string
  | DoGetPath string
  | DoAct kind "string list" string string "json option"
  | DoUpdate kind "string list" string json
  | DoDelete kind "string list" string
  | DoNegotiate
  | DoNegotiateNamespace string
  | DoResolveCluster string
  | DoIdentity
  | DoCounters "string option" stats "counter list"
  | DoSample
  | DoNames

fun run_op :: "'w env \<Rightarrow> catalog \<Rightarrow> client_op \<Rightarrow> 'w client \<Rightarrow> 'w client" where
  "run_op env cat (DoListPage k p opts) c = snd (list_page env cat k p opts c)"
| "run_op env cat (DoListAll k opts) c = snd (list_all env cat k opts c)"
| "run_op env cat (DoGet k parents i) c = snd (get_in env k parents i c)"
| "run_op env cat (DoGetPath p) c = snd (get_path env p c)"
| "run_op env cat (DoAct k parents i a body) c = snd (act env k parents i a body c)"
| "run_op env cat (DoUpdate k parents i changes) c = snd (update env k parents i changes c)"
| "run_op env cat (DoDelete k parents i) c = snd (delete_entity env k parents i c)"
| "run_op env cat DoNegotiate c = snd (negotiate env cat c)"
| "run_op env cat (DoNegotiateNamespace name) c = snd (negotiate_namespace env cat name c)"
| "run_op env cat (DoResolveCluster name) c = snd (resolve_cluster env cat name c)"
| "run_op env cat DoIdentity c = snd (pc_identity env cat c)"
| "run_op env cat (DoCounters cluster previous spurned) c =
     snd (snd (stats_cycle (list_page env cat) cat cluster previous spurned c))"
| "run_op env cat DoSample c = snd (sample_cycle (list_page env cat) (get_path env) cat c)"
| "run_op env cat DoNames c = snd (names_cycle (list_page env cat) cat c)"

section \<open>The pollers keep what the client keeps\<close>

context kept_sends
begin

lemma count_one_kept:
  "count_one (list_page env cat) cat cluster d (t, c) = (t1, c1) \<Longrightarrow> kept c \<Longrightarrow> kept c1"
  by (auto simp: count_one_def dest: page_kept split: option.splits prod.splits sum.splits if_splits)

lemma counts_kept:
  "fold (count_one (list_page env cat) cat cluster) ds (t, c) = (t1, c1) \<Longrightarrow> kept c \<Longrightarrow> kept c1"
proof (induction ds arbitrary: t c)
  case Nil
  then show ?case by simp
next
  case (Cons d ds)
  obtain t2 c2 where x: "count_one (list_page env cat) cat cluster d (t, c) = (t2, c2)" by force
  then show ?case using Cons.IH [of t2 c2] Cons.prems count_one_kept [OF x Cons.prems(2)] by simp
qed

lemma stats_cycle_kept:
  "kept c \<Longrightarrow> kept (snd (snd (stats_cycle (list_page env cat) cat cluster previous spurned c)))"
  by (auto simp: stats_cycle_def Let_def dest: counts_kept split: prod.splits)

lemma count_kind_kept: "count_kind (list_page env cat) cat i c = (n, d) \<Longrightarrow> kept c \<Longrightarrow> kept d"
  by (auto simp: count_kind_def dest: page_kept split: option.splits prod.splits sum.splits if_splits)

lemma vm_ids_kept: "vm_ids (list_page env cat) cat c = (ids, d) \<Longrightarrow> kept c \<Longrightarrow> kept d"
  by (auto simp: vm_ids_def dest: page_kept split: option.splits prod.splits sum.splits if_splits)

lemma sample_each_kept: "sample_each (get_path env) version ids (s, c) = (r, d) \<Longrightarrow> kept c \<Longrightarrow> kept d"
proof (induction ids arbitrary: s c)
  case Nil
  then show ?case by simp
next
  case (Cons i ids)
  obtain x c1 where x: "get_path env (''/dataprotection/'' @ version @ ''/config/protected-resources/'' @ i) c
      = (x, c1)" by force
  have "kept c1" by (rule get_path_kept [OF x Cons.prems(2)])
  then show ?case using Cons.prems(1) x
    by (auto simp: Let_def dest: Cons.IH split: sum.splits prism_error.splits)
qed

lemma sample_cycle_kept:
  "sample_cycle (list_page env cat) (get_path env) cat c = (s, d) \<Longrightarrow> kept c \<Longrightarrow> kept d"
  by (auto simp: sample_cycle_def Let_def dest!: count_kind_kept vm_ids_kept dest: sample_each_kept
      split: prod.splits option.splits if_splits)

lemma warm_kinds_kept: "warm_kinds (list_page env cat) ks c = (ns, d) \<Longrightarrow> kept c \<Longrightarrow> kept d"
proof (induction ks arbitrary: c ns)
  case Nil
  then show ?case by simp
next
  case (Cons k ks)
  obtain x c1 where x: "list_page env cat k 0 (list_options_default\<lparr>lo_limit := warm_limit\<rparr>) c = (x, c1)"
    by force
  have "kept c1" by (rule page_kept [OF x Cons.prems(2)])
  then show ?case using Cons.prems x
    by (auto simp: Let_def dest: Cons.IH split: sum.splits prism_error.splits prod.splits if_splits)
qed

lemma names_cycle_kept: "names_cycle (list_page env cat) cat c = (ns, d) \<Longrightarrow> kept c \<Longrightarrow> kept d"
  by (simp add: names_cycle_def warm_kinds_kept)

lemma run_op_kept: "kept c \<Longrightarrow> kept (run_op env cat p c)"
  by (cases p)
    (auto intro: page_kept [OF surjective_pairing] all_kept [OF surjective_pairing]
      get_kept [OF surjective_pairing] get_path_kept [OF surjective_pairing] act_kept [OF surjective_pairing]
      update_kept [OF surjective_pairing] negotiate_kept [OF surjective_pairing]
      negotiate_namespace_kept [OF surjective_pairing] resolve_cluster_kept [OF surjective_pairing]
      pc_identity_kept [OF surjective_pairing] sample_cycle_kept [OF surjective_pairing]
      names_cycle_kept [OF surjective_pairing] stats_cycle_kept simp: delete_entity_def)

lemma run_ops_kept: "kept c \<Longrightarrow> kept (fold (run_op env cat) ps c)"
  by (induction ps arbitrary: c) (auto intro: run_op_kept)

end

section \<open>After a refusal\<close>

text \<open>The valve is shut, and this is all that was ever put on the wire.\<close>

definition silent :: "wire list \<Rightarrow> 'w \<Rightarrow> 'w client \<Rightarrow> bool" where
  "silent sent world c \<longleftrightarrow> \<not> valve_open (s_valve (c_sess c)) \<and> c_sent c = sent \<and> c_world c = world"

interpretation silence: kept_sends env "silent sent world" for env :: "'w env" and sent world
proof
  fix c rq
  assume "silent sent world c"
  then show "silent sent world (snd (send env rq c))"
    using send_shut [of c env rq] by (simp add: silent_def)
qed (simp_all add: silent_def refuse_select_def)

text \<open>
  C33: A refused credential ends the traffic. Once one request has come back 401 on the
  credential, no operation of the client - lists, gets, actions, updates, deletes, negotiation
  and its repairs, the counters, the sampler, the warm-up - in any number and order, puts
  anything more on the wire.
\<close>

theorem no_traffic_after_a_refusal:
  assumes "send env rq c = (Inr (401, h, b), d)"
  shows "c_sent (fold (run_op env cat) ps d) = c_sent d \<and> c_world (fold (run_op env cat) ps d) = c_world d"
proof -
  have "silent (c_sent d) (c_world d) d"
    using assms send_401 [of env rq "[First, Renewing, Authenticate]" c h b d]
    by (simp add: silent_def send_eq)
  then have "silent (c_sent d) (c_world d) (fold (run_op env cat) ps d)" by (rule silence.run_ops_kept)
  then show ?thesis by (simp add: silent_def)
qed

theorem no_traffic_after_a_refusal_witness:
  "\<exists>d. fst (send (plain_env 401) lab_request lab_client) = Inr (401, \<lambda>_. None, []) \<and>
     d = snd (send (plain_env 401) lab_request lab_client) \<and>
     c_sent (fold (run_op (plain_env 401) lab_catalog) [DoNegotiate, DoCounters None stats_default [], DoSample] d) = c_sent d"
proof -
  obtain d where d: "send (plain_env 401) lab_request lab_client = (Inr (401, \<lambda>_. None, []), d)"
    using plain_send [of 401 lab_client lab_request] by auto
  then show ?thesis
    using no_traffic_after_a_refusal [OF d, of lab_catalog "[DoNegotiate, DoCounters None stats_default [], DoSample]"]
    by (intro exI [of _ d]) (simp add: d)
qed

end
