(* ===== verification/Messages.thy ===== *)
theory Messages
  imports Pollers Journal
begin

text \<open>
  Subscriptions and what they report (\<open>crates/core/src/scheduler.rs\<close>): a subscription and its
  constructors, the budget of a pane, and the messages with the table update each one carries.
\<close>

section \<open>Subscriptions\<close>

type_synonym sub_id = nat

record subscription =
  su_key :: table_key
  su_interval :: duration
  su_single :: "string option"
  su_page_size :: nat
  su_filter :: "string option"
  su_orderby :: "string option"
  su_max_rows :: "nat option"
  su_once :: bool
  su_pausable :: bool

definition min_interval :: duration where
  "min_interval = from_secs 1"

definition sub_list :: "table_key \<Rightarrow> duration \<Rightarrow> subscription" where
  "sub_list key interval = \<lparr>su_key = key, su_interval = interval, su_single = None, su_page_size = 100,
     su_filter = None, su_orderby = None, su_max_rows = k_max_rows (tk_kind key), su_once = False,
     su_pausable = True\<rparr>"

definition sub_single :: "table_key \<Rightarrow> duration \<Rightarrow> string \<Rightarrow> subscription" where
  "sub_single key interval ext_id = \<lparr>su_key = key, su_interval = interval, su_single = Some ext_id,
     su_page_size = 100, su_filter = None, su_orderby = None, su_max_rows = None, su_once = False,
     su_pausable = True\<rparr>"

definition sub_pane :: "table_key \<Rightarrow> duration \<Rightarrow> string option \<Rightarrow> string option \<Rightarrow> subscription" where
  "sub_pane key interval filt orderby = \<lparr>su_key = key, su_interval = interval, su_single = None,
     su_page_size = 100, su_filter = filt, su_orderby = orderby, su_max_rows = k_max_rows (tk_kind key),
     su_once = False, su_pausable = True\<rparr>"

definition pane_headroom :: nat where
  "pane_headroom = 10"

definition pane_min_rows :: nat where
  "pane_min_rows = 20"

definition pane_budget :: "nat \<Rightarrow> nat \<times> nat" where
  "pane_budget n =
     (let needed = max (sat_add_u32 (sat_u32 n) pane_headroom) pane_min_rows
      in (min needed page_limit_max, needed))"

definition sized :: "nat \<Rightarrow> subscription \<Rightarrow> subscription" where
  "sized n s = s\<lparr>su_page_size := fst (pane_budget n), su_max_rows := Some (snd (pane_budget n))\<rparr>"

definition watching :: "subscription \<Rightarrow> subscription" where
  "watching s = s\<lparr>su_pausable := False\<rparr>"

definition sub_once_entity :: "table_key \<Rightarrow> string \<Rightarrow> subscription" where
  "sub_once_entity key ext_id = \<lparr>su_key = key, su_interval = min_interval, su_single = Some ext_id,
     su_page_size = 100, su_filter = None, su_orderby = None, su_max_rows = None, su_once = True,
     su_pausable = False\<rparr>"

definition sub_once_list :: "table_key \<Rightarrow> subscription" where
  "sub_once_list key = \<lparr>su_key = key, su_interval = min_interval, su_single = None, su_page_size = 100,
     su_filter = None, su_orderby = None, su_max_rows = k_max_rows (tk_kind key), su_once = True,
     su_pausable = False\<rparr>"

definition idle_after :: duration where
  "idle_after = from_secs 300"

definition idle_state :: "instant \<Rightarrow> instant \<Rightarrow> bool" where
  "idle_state last_input now \<longleftrightarrow> idle_after \<le> now - last_input"

text \<open>
  A subscription over the kind's own list path speaks for the endpoint: its 404 says this Prism
  Central does not have it, its completion that it does.
\<close>

definition is_endpoint_list :: "subscription \<Rightarrow> bool" where
  "is_endpoint_list s \<longleftrightarrow> su_single s = None \<and> tk_parents (su_key s) = []"

definition is_missing_list :: "subscription \<Rightarrow> prism_error option \<Rightarrow> bool" where
  "is_missing_list s e \<longleftrightarrow> is_endpoint_list s \<and> (case e of Some (ENotFound _) \<Rightarrow> True | _ \<Rightarrow> False)"

definition poll_interval :: "duration \<Rightarrow> duration" where
  "poll_interval d = max d min_interval"

definition secs_of :: "duration \<Rightarrow> nat" where
  "secs_of d = (let s = as_secs (poll_interval d) in if s \<le> u32_max then s else u32_max)"

lemma pane_budget_bounds:
  "fst (pane_budget n) \<le> page_limit_max" "0 < fst (pane_budget n)" "n \<le> u32_max - 10 \<Longrightarrow> n + 10 \<le> snd (pane_budget n)"
  by (simp_all add: pane_budget_def Let_def page_limit_max_def pane_min_rows_def pane_headroom_def
      sat_add_u32_def sat_u32_def u32_max_def)

lemma secs_of_pos: "0 < secs_of d"
  by (simp add: secs_of_def Let_def poll_interval_def min_interval_def u32_max_def as_secs_def from_secs_def
      max_def div_greater_zero_iff)

section \<open>Messages\<close>

datatype msg =
    MStarted sub_id table_key nat
  | MPage sub_id table_key nat "entity list" "nat option"
  | MComplete sub_id table_key nat
  | MEntity sub_id table_key nat entity
  | MError sub_id table_key nat failure
  | MSample nat protection_sample
  | MStats nat stats
  | MNames nat "(string \<times> string) list"
  | MDone nat sub_id
  | MActed journal_id plan_ref "string + act_outcome"

fun msg_sub :: "msg \<Rightarrow> sub_id option" where
  "msg_sub (MStarted s _ _) = Some s"
| "msg_sub (MPage s _ _ _ _) = Some s"
| "msg_sub (MComplete s _ _) = Some s"
| "msg_sub (MEntity s _ _ _) = Some s"
| "msg_sub (MError s _ _ _) = Some s"
| "msg_sub (MDone _ s) = Some s"
| "msg_sub m = None"

fun into_update :: "msg \<Rightarrow> (table_key \<times> store_update) option" where
  "into_update (MStarted _ key g) = Some (key, UStarted g)"
| "into_update (MPage _ key g es tot) = Some (key, UPage g es tot)"
| "into_update (MComplete _ key g) = Some (key, UComplete g)"
| "into_update (MEntity _ key g e) = Some (key, UEntity g e)"
| "into_update (MError _ key g f) = Some (key, UError g f)"
| "into_update m = None"

end
