(* ===== verification/Probe.thy ===== *)
theory Probe
  imports Messages
begin

text \<open>
  The one-row probe (\<open>crates/core/src/scheduler/probe.rs\<close>): whether a table changed since its last
  walk. Parsing an RFC 3339 timestamp is a parameter, \<open>instant_of\<close>, into the integers.
\<close>

definition max_skips :: nat where
  "max_skips = 9"

datatype probe_state =
    Unarmed
  | Disarmed
  | Armed string string nat nat

record probe_answer =
  pa_sort_value :: "string option"
  pa_ext_id :: "string option"
  pa_total :: "nat option"

datatype probe_decision = Skip | Walk

record walk_seen =
  wk_pages :: nat
  wk_max_sort :: "string option"
  wk_saw_rows :: bool

definition probe_decide :: "probe_state \<Rightarrow> probe_answer \<Rightarrow> bool \<Rightarrow> probe_decision" where
  "probe_decide st ans dirty =
     (if dirty then Walk
      else case st of
          Armed sort_value ext_id tot skips \<Rightarrow>
            (if max_skips \<le> skips then Walk
             else case (pa_sort_value ans, pa_ext_id ans, pa_total ans) of
                 (Some seen, Some seen_id, Some now_total) \<Rightarrow>
                   (if seen = sort_value \<and> seen_id = ext_id \<and> now_total = tot then Skip else Walk)
               | _ \<Rightarrow> Walk)
        | _ \<Rightarrow> Walk)"

definition calibrate :: "(string \<Rightarrow> int option) \<Rightarrow> probe_state \<Rightarrow> probe_answer \<Rightarrow> walk_seen option \<Rightarrow> probe_state" where
  "calibrate instant_of st ans wk =
     (if st = Disarmed then Disarmed
      else if pa_ext_id ans = None \<and> pa_sort_value ans = None then st
      else case (pa_sort_value ans, pa_ext_id ans, pa_total ans) of
          (Some sort_value, Some ext_id, Some tot) \<Rightarrow>
            (let probed = instant_of sort_value
             in if st = Unarmed \<and> (probed = None \<or>
                  (case wk of Some w \<Rightarrow> wk_max_sort w = None \<and> wk_saw_rows w | None \<Rightarrow> False))
                then Disarmed
                else case Option.bind wk wk_max_sort of
                    None \<Rightarrow> Armed sort_value ext_id tot 0
                  | Some mx \<Rightarrow> (case (probed, instant_of mx) of
                        (Some p, Some newest) \<Rightarrow>
                          (if newest \<le> p then Armed sort_value ext_id tot 0 else Disarmed)
                      | _ \<Rightarrow> Disarmed))
        | _ \<Rightarrow> Disarmed)"

text \<open>The cell a subscription's entry and its task share.\<close>

record probe_cell =
  pc_state :: probe_state
  pc_dirty :: bool
  pc_pages :: nat

definition cell_default :: probe_cell where
  "cell_default = \<lparr>pc_state = Unarmed, pc_dirty = False, pc_pages = 0\<rparr>"

definition mark_dirty :: "probe_cell \<Rightarrow> probe_cell" where
  "mark_dirty cell = cell\<lparr>pc_dirty := True\<rparr>"

definition take_dirty :: "probe_cell \<Rightarrow> bool \<times> probe_cell" where
  "take_dirty cell = (pc_dirty cell, cell\<lparr>pc_dirty := False\<rparr>)"

definition set_pages :: "nat \<Rightarrow> probe_cell \<Rightarrow> probe_cell" where
  "set_pages n cell = cell\<lparr>pc_pages := n\<rparr>"

definition set_probe :: "probe_state \<Rightarrow> probe_cell \<Rightarrow> probe_cell" where
  "set_probe st cell = cell\<lparr>pc_state := st\<rparr>"

definition skipped :: "probe_cell \<Rightarrow> probe_cell" where
  "skipped cell = (case pc_state cell of
       Armed sort_value ext_id tot skips \<Rightarrow> cell\<lparr>pc_state := Armed sort_value ext_id tot (Suc skips)\<rparr>
     | _ \<Rightarrow> cell)"

section \<open>When a walk is skipped\<close>

lemma decide_skip:
  "probe_decide st ans dirty = Skip \<longleftrightarrow> \<not> dirty \<and>
     (\<exists>v i n k. st = Armed v i n k \<and> k < max_skips \<and>
        ans = \<lparr>pa_sort_value = Some v, pa_ext_id = Some i, pa_total = Some n\<rparr>)"
  by (cases ans) (auto simp: probe_decide_def split: probe_state.split option.split)

text \<open>Once armed, a probe stays armed or is disarmed for good, and what it keeps was answered.\<close>

lemma calibrate_armed:
  "calibrate io st ans wk = Armed v i n k \<Longrightarrow>
    st = Armed v i n k \<and> pa_ext_id ans = None \<and> pa_sort_value ans = None \<or>
    k = 0 \<and> ans = \<lparr>pa_sort_value = Some v, pa_ext_id = Some i, pa_total = Some n\<rparr>"
  by (cases ans) (auto simp: calibrate_def Let_def split: if_splits option.splits)

lemma calibrate_disarmed [simp]: "calibrate io Disarmed ans wk = Disarmed"
  by (simp add: calibrate_def)

text \<open>
  A probe is armed by the calibrating walk only on a readable answer, at least as new as every
  readable row of the walk.
\<close>

lemma calibrate_arms:
  assumes "calibrate io Unarmed ans (Some w) = Armed v i n k"
  shows "\<exists>p. io v = Some p \<and> (case wk_max_sort w of None \<Rightarrow> \<not> wk_saw_rows w
    | Some mx \<Rightarrow> \<exists>newest. io mx = Some newest \<and> newest \<le> p)"
  using assms by (auto simp: calibrate_def Let_def split: if_splits option.splits)

end
