(* ===== verification/Polling.thy ===== *)
theory Polling
  imports Probe Kept
begin

text \<open>
  One subscription's task (\<open>crates/core/src/scheduler/cycle.rs\<close>), over what it needs of a Prism
  Central (\<open>Source\<close> of \<open>crates/core/src/source.rs\<close>): the walk over pages, the cycle with its
  probe, the second attempt after a 404, and what a round leaves to wait for.

  What the rest of the program does meanwhile is an argument of each round, \<open>outside\<close>: which sends
  still find a receiver, and after which pages a stop by hand is seen.
\<close>

section \<open>A source of pages\<close>

record 'c source =
  src_list :: "kind \<Rightarrow> nat \<Rightarrow> list_options \<Rightarrow> 'c \<Rightarrow> (prism_error + page) \<times> 'c"
  src_get :: "kind \<Rightarrow> string list \<Rightarrow> string \<Rightarrow> 'c \<Rightarrow> (prism_error + entity) \<times> 'c"
  src_avoided :: "nat \<Rightarrow> 'c \<Rightarrow> 'c"
  src_avoidable :: "nat \<Rightarrow> 'c \<Rightarrow> 'c"
  src_mark_missing :: "kind \<Rightarrow> 'c \<Rightarrow> 'c"
  src_forget_missing :: "kind \<Rightarrow> 'c \<Rightarrow> 'c"

definition client_source :: "'w env \<Rightarrow> catalog \<Rightarrow> 'w client source" where
  "client_source env cat = \<lparr>src_list = list_page env cat, src_get = get_in env,
     src_avoided = \<lambda>n c. upd_metrics (record_avoided (c_now c) (of_nat n)) c,
     src_avoidable = \<lambda>n c. upd_metrics (record_avoidable (c_now c) (of_nat n)) c,
     src_mark_missing = mark_missing, src_forget_missing = forget_missing\<rparr>"

section \<open>The walk\<close>

definition max_walk_pages :: nat where
  "max_walk_pages = 200"

definition more_pages :: "bool \<Rightarrow> nat \<Rightarrow> nat \<Rightarrow> nat \<Rightarrow> nat option \<Rightarrow> nat \<Rightarrow> nat option \<Rightarrow> bool" where
  "more_pages paged got lmt fetched tot page rowcap \<longleftrightarrow>
     paged \<and> 0 < got \<and> page + 1 < max_walk_pages \<and>
     (case rowcap of None \<Rightarrow> True | Some b \<Rightarrow> fetched < b) \<and>
     (case tot of Some t \<Rightarrow> fetched < t | None \<Rightarrow> got = lmt)"

text \<open>The newest readable value of the probed field, over the rows in order.\<close>

definition newest_step :: "(string \<Rightarrow> int option) \<Rightarrow> string \<Rightarrow> entity \<Rightarrow> (int \<times> string) option \<Rightarrow> (int \<times> string) option" where
  "newest_step io field e cur =
     (case Option.bind (jget field (e_raw e)) as_str of
        None \<Rightarrow> cur
      | Some seen \<Rightarrow> (case io seen of
            None \<Rightarrow> cur
          | Some t \<Rightarrow> (case cur of None \<Rightarrow> Some (t, seen)
              | Some (mx, _) \<Rightarrow> (if mx < t then Some (t, seen) else cur))))"

definition newest_of :: "(string \<Rightarrow> int option) \<Rightarrow> string option \<Rightarrow> entity list \<Rightarrow> (int \<times> string) option
    \<Rightarrow> (int \<times> string) option" where
  "newest_of io probe_by es cur =
     (case probe_by of None \<Rightarrow> cur | Some field \<Rightarrow> fold (newest_step io field) es cur)"

record outside =
  ou_start :: bool
  ou_page :: "nat \<Rightarrow> bool"
  ou_stop :: "nat \<Rightarrow> bool"
  ou_end :: bool

definition walk_options :: "subscription \<Rightarrow> list_options" where
  "walk_options s = \<lparr>lo_limit = max 1 (min (su_page_size s) page_limit_max), lo_filter = su_filter s,
     lo_orderby = or_else (su_orderby s) (k_orderby (tk_kind (su_key s))),
     lo_select = k_select (tk_kind (su_key s)), lo_parents = tk_parents (su_key s)\<rparr>"

text \<open>
  The state of the walk: the next page, the rows fetched, whether there were any, and the newest
  value seen. \<open>seen_of\<close> is the \<open>Walk\<close> it amounts to after \<open>page\<close> pages.
\<close>

record walking =
  wg_page :: nat
  wg_fetched :: nat
  wg_rows :: bool
  wg_newest :: "(int \<times> string) option"

definition seen_of :: "walking \<Rightarrow> walk_seen" where
  "seen_of w = \<lparr>wk_pages = wg_page w, wk_max_sort = map_option snd (wg_newest w), wk_saw_rows = wg_rows w\<rparr>"

definition take_page :: "(string \<Rightarrow> int option) \<Rightarrow> string option \<Rightarrow> page \<Rightarrow> walking \<Rightarrow> walking" where
  "take_page io probe_by pg w =
     \<lparr>wg_page = Suc (wg_page w), wg_fetched = wg_fetched w + length (pg_entities pg),
      wg_rows = (wg_rows w \<or> pg_entities pg \<noteq> []), wg_newest = newest_of io probe_by (pg_entities pg) (wg_newest w)\<rparr>"

definition goes_on :: "subscription \<Rightarrow> outside \<Rightarrow> nat \<Rightarrow> page \<Rightarrow> walking \<Rightarrow> bool" where
  "goes_on s ou page pg w \<longleftrightarrow> ou_page ou page \<and> \<not> ou_stop ou page \<and>
     more_pages (lp_page (k_list_params (tk_kind (su_key s)))) (length (pg_entities pg))
       (lo_limit (walk_options s)) (wg_fetched w) (pg_total pg) page (su_max_rows s)"

lemma goes_on_page: "goes_on s ou page pg w \<Longrightarrow> Suc page < max_walk_pages"
  by (simp add: goes_on_def more_pages_def)

function walk_list :: "'c source \<Rightarrow> (string \<Rightarrow> int option) \<Rightarrow> sub_id \<Rightarrow> subscription \<Rightarrow> nat \<Rightarrow> string option
    \<Rightarrow> outside \<Rightarrow> walking \<Rightarrow> 'c \<Rightarrow> ((prism_error + walk_seen) \<times> msg list) \<times> 'c" where
  "walk_list src io i s g probe_by ou w c =
     (case src_list src (tk_kind (su_key s)) (wg_page w) (walk_options s) c of
        (Inl e, c1) \<Rightarrow> ((Inl e, []), c1)
      | (Inr pg, c1) \<Rightarrow>
          (let w1 = take_page io probe_by pg w;
               sent = (if ou_page ou (wg_page w)
                 then [MPage i (su_key s) g (pg_entities pg) (pg_total pg)] else [])
           in if goes_on s ou (wg_page w) pg w1
              then apfst (apsnd ((@) sent)) (walk_list src io i s g probe_by ou w1 c1)
              else ((Inr (seen_of w1), sent), c1)))"
  by pat_completeness auto
termination
  by (relation "measure (\<lambda>(src, io, i, s, g, probe_by, ou, w, c). max_walk_pages - wg_page w)")
    (auto simp: take_page_def dest: goes_on_page)

declare walk_list.simps [simp del]

definition walk_start :: walking where
  "walk_start = \<lparr>wg_page = 0, wg_fetched = 0, wg_rows = False, wg_newest = None\<rparr>"

definition list_walk :: "'c source \<Rightarrow> (string \<Rightarrow> int option) \<Rightarrow> sub_id \<Rightarrow> subscription \<Rightarrow> nat \<Rightarrow> string option
    \<Rightarrow> outside \<Rightarrow> 'c \<Rightarrow> ((prism_error + walk_seen) \<times> msg list) \<times> 'c" where
  "list_walk src io i s g probe_by ou = walk_list src io i s g probe_by ou walk_start"

section \<open>The cycle\<close>

definition probe_request :: "'c source \<Rightarrow> subscription \<Rightarrow> string \<Rightarrow> 'c \<Rightarrow> (prism_error + probe_answer) \<times> 'c" where
  "probe_request src s field c =
     (case src_list src (tk_kind (su_key s)) 0 \<lparr>lo_limit = 1, lo_filter = su_filter s,
         lo_orderby = Some (field @ '' desc''), lo_select = None, lo_parents = tk_parents (su_key s)\<rparr> c of
        (Inl e, c1) \<Rightarrow> (Inl e, c1)
      | (Inr pg, c1) \<Rightarrow> (Inr (case pg_entities pg of
            [] \<Rightarrow> \<lparr>pa_sort_value = None, pa_ext_id = None, pa_total = pg_total pg\<rparr>
          | e # _ \<Rightarrow> \<lparr>pa_sort_value = Option.bind (jget field (e_raw e)) as_str, pa_ext_id = Some (e_ext_id e),
              pa_total = pg_total pg\<rparr>), c1))"

type_synonym 'c cycled = "(prism_error option \<times> msg list) \<times> probe_cell \<times> 'c"

definition plain_walk :: "'c source \<Rightarrow> (string \<Rightarrow> int option) \<Rightarrow> sub_id \<Rightarrow> subscription \<Rightarrow> nat \<Rightarrow> outside
    \<Rightarrow> probe_cell \<Rightarrow> 'c \<Rightarrow> 'c cycled" where
  "plain_walk src io i s g ou cell c =
     (case list_walk src io i s g None ou c of
        ((Inl e, ms), c1) \<Rightarrow> ((Some e, ms), cell, c1)
      | ((Inr wk, ms), c1) \<Rightarrow> ((None, ms), set_pages (wk_pages wk) cell, c1))"

definition calibrating_walk :: "'c source \<Rightarrow> (string \<Rightarrow> int option) \<Rightarrow> sub_id \<Rightarrow> subscription \<Rightarrow> nat \<Rightarrow> outside
    \<Rightarrow> string \<Rightarrow> probe_cell \<Rightarrow> 'c \<Rightarrow> 'c cycled" where
  "calibrating_walk src io i s g ou field cell c =
     (case list_walk src io i s g (Some field) ou c of
        ((Inl e, ms), c1) \<Rightarrow> ((Some e, ms), cell, c1)
      | ((Inr wk, ms), c1) \<Rightarrow> (case probe_request src s field c1 of
            (Inl e, c2) \<Rightarrow> ((Some e, ms), cell, c2)
          | (Inr ans, c2) \<Rightarrow> ((None, ms),
              set_probe (calibrate io (pc_state cell) ans (Some wk)) (set_pages (wk_pages wk) cell),
              src_avoidable src (wk_pages wk + 1) c2)))"

definition probed_walk :: "'c source \<Rightarrow> (string \<Rightarrow> int option) \<Rightarrow> sub_id \<Rightarrow> subscription \<Rightarrow> nat \<Rightarrow> outside
    \<Rightarrow> string \<Rightarrow> bool \<Rightarrow> probe_cell \<Rightarrow> 'c \<Rightarrow> 'c cycled" where
  "probed_walk src io i s g ou field dirty cell c =
     (case probe_request src s field c of
        (Inl e, c1) \<Rightarrow> ((Some e, []), cell, c1)
      | (Inr ans, c1) \<Rightarrow>
          (if probe_decide (pc_state cell) ans dirty = Skip
           then ((None, []), skipped cell, src_avoidable src 1 (src_avoided src (pc_pages cell) c1))
           else case list_walk src io i s g None ou c1 of
               ((Inl e, ms), c2) \<Rightarrow> ((Some e, ms), cell, c2)
             | ((Inr wk, ms), c2) \<Rightarrow> ((None, ms),
                 set_probe (calibrate io (pc_state cell) ans None) (set_pages (wk_pages wk) cell),
                 src_avoidable src (wk_pages wk + 1) c2)))"

definition poll_cycle :: "'c source \<Rightarrow> (string \<Rightarrow> int option) \<Rightarrow> sub_id \<Rightarrow> subscription \<Rightarrow> nat \<Rightarrow> outside
    \<Rightarrow> bool \<Rightarrow> probe_cell \<Rightarrow> 'c \<Rightarrow> 'c cycled" where
  "poll_cycle src io i s g ou dirty cell c =
     (case k_probe_by (tk_kind (su_key s)) of
        None \<Rightarrow> plain_walk src io i s g ou cell c
      | Some field \<Rightarrow>
          (if pc_state cell = Disarmed \<or> pc_pages cell < 2 then plain_walk src io i s g ou cell c
           else if pc_state cell = Unarmed then calibrating_walk src io i s g ou field cell c
           else probed_walk src io i s g ou field dirty cell c))"

definition fetch_one :: "'c source \<Rightarrow> sub_id \<Rightarrow> subscription \<Rightarrow> nat \<Rightarrow> outside \<Rightarrow> string \<Rightarrow> 'c
    \<Rightarrow> (prism_error option \<times> msg list) \<times> 'c" where
  "fetch_one src i s g ou ext_id c =
     (case src_get src (tk_kind (su_key s)) (tk_parents (su_key s)) ext_id c of
        (Inl e, c1) \<Rightarrow> ((Some e, []), c1)
      | (Inr ent, c1) \<Rightarrow> ((None, if ou_page ou 0 then [MEntity i (su_key s) g ent] else []), c1))"

text \<open>One cycle's requests. \<open>None\<close>: nobody received the message that opens it.\<close>

definition attempt_cycle :: "'c source \<Rightarrow> (string \<Rightarrow> int option) \<Rightarrow> sub_id \<Rightarrow> subscription \<Rightarrow> nat \<Rightarrow> outside
    \<Rightarrow> bool \<Rightarrow> probe_cell \<Rightarrow> 'c \<Rightarrow> (prism_error option \<times> msg list) option \<times> probe_cell \<times> 'c" where
  "attempt_cycle src io i s g ou dirty cell c =
     (case su_single s of
        Some ext_id \<Rightarrow> (case fetch_one src i s g ou ext_id c of (r, c1) \<Rightarrow> (Some r, cell, c1))
      | None \<Rightarrow> (if \<not> ou_start ou then (None, cell, c)
          else case poll_cycle src io i s g ou dirty cell c of
              ((e, ms), cell1, c1) \<Rightarrow> (Some (e, MStarted i (su_key s) g # ms), cell1, c1)))"

section \<open>The round\<close>

definition max_backoff :: duration where
  "max_backoff = from_secs 60"

definition next_backoff :: "duration \<Rightarrow> duration \<Rightarrow> prism_error option \<Rightarrow> duration \<times> duration" where
  "next_backoff interval current e =
     (case e of
        None \<Rightarrow> (interval, interval)
      | Some er \<Rightarrow> ((case error_retry_after er of Some asked \<Rightarrow> max asked current | None \<Rightarrow> current),
          max interval (min (max max_backoff interval) (current * 2))))"

datatype round_end = Returns | Waits duration duration

text \<open>
  A round: an attempt, a second one after a list's 404, and the message that settles it. \<open>g1\<close>
  and \<open>g2\<close> are the generations the two attempts draw, \<open>secs\<close> the schedule in force at the end.
\<close>

definition settle_round :: "'c source \<Rightarrow> nat \<Rightarrow> sub_id \<Rightarrow> subscription \<Rightarrow> nat \<Rightarrow> bool \<Rightarrow> nat \<Rightarrow> duration
    \<Rightarrow> prism_error option \<Rightarrow> 'c \<Rightarrow> (msg list \<times> round_end) \<times> 'c" where
  "settle_round src epoch i s g received secs backoff err c =
     (let not_served = is_missing_list s err;
          c1 = (if not_served then src_mark_missing src (tk_kind (su_key s)) c
            else if err = None \<and> is_endpoint_list s then src_forget_missing src (tk_kind (su_key s)) c
            else c);
          failed = map_option (\<lambda>e. failure_of (tk_kind (su_key s)) e not_served) err;
          settled = (case failed of None \<Rightarrow> MComplete i (su_key s) g | Some f \<Rightarrow> MError i (su_key s) g f)
      in if \<not> received then (([], Returns), c1)
         else if su_once s then (([settled, MDone epoch i], Returns), c1)
         else if not_served \<or> (case failed of Some f \<Rightarrow> failure_is_terminal f | None \<Rightarrow> False)
         then (([settled], Returns), c1)
         else (([settled], case_prod Waits (next_backoff (poll_interval (from_secs (max 1 secs))) backoff err)), c1))"

definition poll_round :: "'c source \<Rightarrow> (string \<Rightarrow> int option) \<Rightarrow> nat \<Rightarrow> sub_id \<Rightarrow> subscription \<Rightarrow> nat \<Rightarrow> nat
    \<Rightarrow> outside \<Rightarrow> outside \<Rightarrow> nat \<Rightarrow> duration \<Rightarrow> probe_cell \<Rightarrow> 'c
    \<Rightarrow> (msg list \<times> round_end) \<times> probe_cell \<times> 'c" where
  "poll_round src io epoch i s g1 g2 ou1 ou2 secs backoff cell c =
     (let (dirty, cell0) = take_dirty cell
      in case attempt_cycle src io i s g1 ou1 dirty cell0 c of
           (None, cell1, c1) \<Rightarrow> (([], Returns), cell1, c1)
         | (Some (e1, ms1), cell1, c1) \<Rightarrow>
             (if is_missing_list s e1
              then case attempt_cycle src io i s g2 ou2 True cell1 c1 of
                  (None, cell2, c2) \<Rightarrow> ((ms1, Returns), cell2, c2)
                | (Some (e2, ms2), cell2, c2) \<Rightarrow>
                    (case settle_round src epoch i s g2 (ou_end ou2) secs backoff e2 c2 of
                       ((ms3, fin), c3) \<Rightarrow> ((ms1 @ ms2 @ ms3, fin), cell2, c3))
              else case settle_round src epoch i s g1 (ou_end ou1) secs backoff e1 c1 of
                  ((ms3, fin), c3) \<Rightarrow> ((ms1 @ ms3, fin), cell1, c3)))"

section \<open>The walk over a served list\<close>

text \<open>The table's list as the server keeps it: \<open>xs\<close>, with its total or without one.\<close>

definition list_served :: "'c source \<Rightarrow> subscription \<Rightarrow> entity list \<Rightarrow> bool \<Rightarrow> bool" where
  "list_served src s xs counted \<longleftrightarrow>
     (\<forall>p c. \<exists>d. src_list src (tk_kind (su_key s)) p (walk_options s) c
       = (Inr \<lparr>pg_entities = slice (lo_limit (walk_options s)) xs p,
               pg_total = (if counted then Some (length xs) else None)\<rparr>, d))"

definition undisturbed :: "outside \<Rightarrow> bool" where
  "undisturbed ou \<longleftrightarrow> ou_start ou \<and> ou_end ou \<and> (\<forall>p. ou_page ou p \<and> \<not> ou_stop ou p)"

fun msg_rows :: "msg \<Rightarrow> entity list" where
  "msg_rows (MPage _ _ _ es _) = es"
| "msg_rows _ = []"

text \<open>How far a walk has to go: the whole list, the row budget or the page cap.\<close>

definition walk_reach :: "subscription \<Rightarrow> entity list \<Rightarrow> nat" where
  "walk_reach s xs = min (length xs) (min (case su_max_rows s of None \<Rightarrow> length xs | Some b \<Rightarrow> b)
     (max_walk_pages * lo_limit (walk_options s)))"

lemma walk_limit_pos: "0 < lo_limit (walk_options s)"
  by (simp add: walk_options_def)

lemma length_slice: "length (slice l xs p) = min l (length xs - p * l)"
  by (simp add: slice_def)

lemma min_add_diff: "min a n + min l (n - a) = min (l + a) (n :: nat)"
  by (auto simp: min_def)

lemma walk_list_served:
  assumes served: "list_served src s xs counted" and free: "undisturbed ou"
    and paged: "lp_page (k_list_params (tk_kind (su_key s)))"
  shows "wg_page w < max_walk_pages \<Longrightarrow> wg_fetched w = min (wg_page w * lo_limit (walk_options s)) (length xs) \<Longrightarrow>
    walk_list src io i s g probe_by ou w c = ((r, ms), d) \<Longrightarrow>
    \<exists>q wk. r = Inr wk \<and> wg_page w < q \<and> ms \<noteq> [] \<and>
      (\<forall>m \<in> set ms. \<exists>es tot. m = MPage i (su_key s) g es tot) \<and>
      concat (map msg_rows ms) = drop (wg_page w * lo_limit (walk_options s)) (take (q * lo_limit (walk_options s)) xs) \<and>
      walk_reach s xs \<le> q * lo_limit (walk_options s)"
proof (induction "max_walk_pages - wg_page w" arbitrary: w c r ms d rule: less_induct)
  case less
  let ?l = "lo_limit (walk_options s)" and ?p = "wg_page w"
  let ?pg = "\<lparr>pg_entities = slice ?l xs ?p, pg_total = (if counted then Some (length xs) else None)\<rparr>"
  obtain c1 where c1: "src_list src (tk_kind (su_key s)) ?p (walk_options s) c = (Inr ?pg, c1)"
    using served unfolding list_served_def by blast
  define w1 where "w1 = take_page io probe_by ?pg w"
  have l: "0 < ?l" by (rule walk_limit_pos)
  have w1: "wg_page w1 = Suc ?p" "wg_fetched w1 = min (Suc ?p * ?l) (length xs)"
    using less.prems(2) by (simp_all add: w1_def take_page_def length_slice min_add_diff)
  have here: "slice ?l xs ?p = drop (?p * ?l) (take (Suc ?p * ?l) xs)"
    by (simp add: slice_def take_drop add.commute)
  show ?case
  proof (cases "goes_on s ou ?p ?pg w1")
    case True
    obtain r1 ms1 d1 where rest: "walk_list src io i s g probe_by ou w1 c1 = ((r1, ms1), d1)" by (metis surj_pair)
    have rm: "r = r1" "ms = MPage i (su_key s) g (pg_entities ?pg) (pg_total ?pg) # ms1"
      using less.prems(3) c1 True rest free
      by (simp_all add: walk_list.simps [of src io i s g probe_by ou w] Let_def w1_def undisturbed_def)
    have "Suc ?p < max_walk_pages" by (rule goes_on_page [OF True])
    then have "max_walk_pages - wg_page w1 < max_walk_pages - ?p" and "wg_page w1 < max_walk_pages"
      using w1 by simp_all
    from less.hyps [OF this(1) this(2) _ rest] w1 obtain q wk where q: "r1 = Inr wk" "Suc ?p < q"
      "\<forall>m \<in> set ms1. \<exists>es tot. m = MPage i (su_key s) g es tot"
      "concat (map msg_rows ms1) = drop (Suc ?p * ?l) (take (q * ?l) xs)" "walk_reach s xs \<le> q * ?l"
      by auto
    have "slice ?l xs ?p @ drop (Suc ?p * ?l) (take (q * ?l) xs) = drop (?p * ?l) (take (q * ?l) xs)"
    proof -
      have "Suc ?p * ?l \<le> q * ?l" using q(2) by (intro mult_le_mono1) simp
      then have "take (Suc ?p * ?l) xs = take (Suc ?p * ?l) (take (q * ?l) xs)" by (simp add: min_absorb1)
      then show ?thesis unfolding here
        by (metis append_take_drop_id drop_drop drop_take add.commute diff_add_inverse mult_Suc)
    qed
    then show ?thesis using q rm by (intro exI [of _ q]) auto
  next
    case False
    have rm: "r = Inr (seen_of w1)" "ms = [MPage i (su_key s) g (pg_entities ?pg) (pg_total ?pg)]"
      using less.prems(3) c1 False free
      by (simp_all add: walk_list.simps [of src io i s g probe_by ou w] Let_def w1_def undisturbed_def)
    have "max_walk_pages * ?l \<le> Suc ?p * ?l" if "\<not> Suc ?p < max_walk_pages"
      using that by (intro mult_le_mono1) simp
    then have "walk_reach s xs \<le> Suc ?p * ?l"
      using False free paged w1 less.prems(1) l
      by (auto simp: goes_on_def undisturbed_def more_pages_def walk_reach_def length_slice
          split: option.splits if_splits)
    then show ?thesis using rm here by (intro exI [of _ "Suc ?p"]) simp
  qed
qed

lemma list_walk_served:
  assumes "list_served src s xs counted" and "undisturbed ou" and "lp_page (k_list_params (tk_kind (su_key s)))"
    and "list_walk src io i s g probe_by ou c = ((r, ms), d)"
  shows "\<exists>m wk. r = Inr wk \<and> ms \<noteq> [] \<and> (\<forall>x \<in> set ms. \<exists>es tot. x = MPage i (su_key s) g es tot) \<and>
    concat (map msg_rows ms) = take m xs \<and> walk_reach s xs \<le> m"
  using walk_list_served [OF assms(1-3), of walk_start io i g probe_by c r ms d] assms(4)
  by (auto simp: list_walk_def walk_start_def max_walk_pages_def)

section \<open>The messages of a round in the store\<close>

definition updates_of :: "msg list \<Rightarrow> store_update list" where
  "updates_of ms = List.map_filter (map_option snd \<circ> into_update) ms"

lemma updates_of_simps [simp]:
  "updates_of [] = []"
  "updates_of (m # ms) = (case into_update m of None \<Rightarrow> updates_of ms | Some (k, u) \<Rightarrow> u # updates_of ms)"
  by (auto simp: updates_of_def List.map_filter_simps split: option.splits)

lemma updates_of_append [simp]: "updates_of (xs @ ys) = updates_of xs @ updates_of ys"
  by (simp add: updates_of_def map_filter_def)

lemma updates_of_pages:
  assumes "\<forall>x \<in> set ms. \<exists>es tot. x = MPage i key g es tot"
  shows "(\<forall>u \<in> set (updates_of ms). harmless g u \<and> is_page g u) \<and>
    concat (map (page_rows g) (updates_of ms)) = concat (map msg_rows ms) \<and> length (updates_of ms) = length ms"
  using assms by (induction ms) auto

lemma plain_round_served:
  assumes "list_served src s xs counted" and "undisturbed ou1" and "lp_page (k_list_params (tk_kind (su_key s)))"
    and "su_single s = None"
    and "k_probe_by (tk_kind (su_key s)) = None \<or> pc_state cell = Disarmed \<or> pc_pages cell < 2"
    and "poll_round src io epoch i s g1 g2 ou1 ou2 secs backoff cell c = ((ms, fin), cell1, c1)"
  shows "\<exists>ps m rest. ms = MStarted i (su_key s) g1 # ps @ MComplete i (su_key s) g1 # rest \<and> updates_of rest = [] \<and>
    ps \<noteq> [] \<and> (\<forall>x \<in> set ps. \<exists>es tot. x = MPage i (su_key s) g1 es tot) \<and>
    concat (map msg_rows ps) = take m xs \<and> walk_reach s xs \<le> m"
proof -
  obtain r ps d where w: "list_walk src io i s g1 None ou1 c = ((r, ps), d)" by (metis surj_pair)
  obtain m wk where m: "r = Inr wk" "ps \<noteq> []" "\<forall>x \<in> set ps. \<exists>es tot. x = MPage i (su_key s) g1 es tot"
    "concat (map msg_rows ps) = take m xs" "walk_reach s xs \<le> m"
    using list_walk_served [OF assms(1-3) w] by blast
  have cyc: "poll_cycle src io i s g1 ou1 b (snd (take_dirty cell)) c
      = ((None, ps), set_pages (wk_pages wk) (snd (take_dirty cell)), d)" for b
    using assms(5) w m(1) by (auto simp: poll_cycle_def plain_walk_def take_dirty_def split: option.split)
  obtain end_msgs fin1 d1 where e: "settle_round src epoch i s g1 (ou_end ou1) secs backoff None d = ((end_msgs, fin1), d1)"
    by (metis surj_pair)
  obtain rest where "end_msgs = MComplete i (su_key s) g1 # rest" "updates_of rest = []"
    using e assms(2) by (auto simp: settle_round_def Let_def is_missing_list_def undisturbed_def split: if_splits)
  moreover have "ms = MStarted i (su_key s) g1 # ps @ end_msgs"
    using assms(2,4,6) cyc e
    by (auto simp: poll_round_def Let_def attempt_cycle_def undisturbed_def is_missing_list_def
        split: prod.splits option.splits)
  ultimately show ?thesis using m by (intro exI [of _ ps] exI [of _ m] exI [of _ rest]) simp
qed

section \<open>Properties\<close>


text \<open>A source that keeps a list of rows and counts what is asked of it.\<close>

definition list_source :: "entity list \<Rightarrow> nat source" where
  "list_source xs = \<lparr>src_list = \<lambda>k p opts n. (Inr \<lparr>pg_entities = slice (lo_limit opts) xs p, pg_total = Some (length xs)\<rparr>, Suc n),
     src_get = \<lambda>k ps i n. (Inl (ENotFound i), Suc n), src_avoided = \<lambda>_ n. n, src_avoidable = \<lambda>_ n. n,
     src_mark_missing = \<lambda>_ n. n, src_forget_missing = \<lambda>_ n. n\<rparr>"

definition calm :: outside where
  "calm = \<lparr>ou_start = True, ou_page = \<lambda>_. True, ou_stop = \<lambda>_. False, ou_end = True\<rparr>"

definition lab_sub :: "string option \<Rightarrow> subscription" where
  "lab_sub probe_by = sub_list (key_top (lab_kind\<lparr>k_probe_by := probe_by, k_list_params :=
     \<lparr>lp_page = True, lp_limit = True, lp_filter = True, lp_orderby = True, lp_select = True, lp_required = False\<rparr>\<rparr>)) min_interval"

lemma list_source_served: "list_served (list_source xs) s xs True"
  by (simp add: list_served_def list_source_def)

lemma calm_undisturbed: "undisturbed calm"
  by (simp add: undisturbed_def calm_def)

definition lab_round :: "entity list \<Rightarrow> (msg list \<times> round_end) \<times> probe_cell \<times> nat" where
  "lab_round xs = poll_round (list_source xs) (\<lambda>_. None) 1 1 (lab_sub None) 1 2 calm calm 1 min_interval cell_default 0"


section \<open>Skipping\<close>

text \<open>Cycles one after another on one cell, each under what the rest of the program does to it.\<close>

fun cycles_run :: "'c source \<Rightarrow> (string \<Rightarrow> int option) \<Rightarrow> sub_id \<Rightarrow> subscription \<Rightarrow> (nat \<times> outside \<times> bool) list
    \<Rightarrow> probe_cell \<Rightarrow> 'c \<Rightarrow> (prism_error option \<times> msg list) list" where
  "cycles_run src io i s [] cell c = []"
| "cycles_run src io i s ((g, ou, dirty) # xs) cell c =
     (case poll_cycle src io i s g ou dirty cell c of
        (r, cell1, c1) \<Rightarrow> r # cycles_run src io i s xs cell1 c1)"

definition skip_count :: "probe_state \<Rightarrow> nat" where
  "skip_count st = (case st of Armed _ _ _ k \<Rightarrow> min k max_skips | _ \<Rightarrow> max_skips)"

lemma walk_list_heard:
  assumes "\<forall>p. ou_page ou p"
  shows "walk_list src io i s g probe_by ou w c = ((Inr wk, ms), d) \<Longrightarrow> ms \<noteq> []"
  using assms by (subst (asm) walk_list.simps)
    (auto simp: Let_def apfst_def apsnd_def map_prod_def split: prod.splits sum.splits if_splits)

lemma list_walk_heard: "\<forall>p. ou_page ou p \<Longrightarrow> list_walk src io i s g probe_by ou c = ((Inr wk, ms), d) \<Longrightarrow> ms \<noteq> []"
  unfolding list_walk_def by (rule walk_list_heard)

lemma cycle_without_pages:
  assumes "\<forall>p. ou_page ou p" and "poll_cycle src io i s g ou dirty cell c = ((e, []), cell1, c1)"
  shows "if e = None then \<not> dirty \<and> skip_count (pc_state cell) < max_skips \<and>
      skip_count (pc_state cell1) = Suc (skip_count (pc_state cell))
    else cell1 = cell"
  using assms
  by (auto simp: poll_cycle_def plain_walk_def calibrating_walk_def probed_walk_def decide_skip skip_count_def
      skipped_def dest: list_walk_heard split: option.splits if_splits prod.splits sum.splits)

lemma cycles_without_pages:
  "\<forall>(g, ou, dirty) \<in> set xs. \<forall>p. ou_page ou p \<Longrightarrow> \<forall>(e, ms) \<in> set (cycles_run src io i s xs cell c). ms = [] \<Longrightarrow>
    skip_count (pc_state cell) \<le> max_skips \<Longrightarrow>
    length (filter (\<lambda>(e, ms). e = None) (cycles_run src io i s xs cell c)) + skip_count (pc_state cell) \<le> max_skips"
proof (induction xs arbitrary: cell c)
  case Nil
  then show ?case by simp
next
  case (Cons x xs)
  obtain g ou dirty where x: "x = (g, ou, dirty)" by (metis surj_pair)
  obtain e ms cell1 c1 where r: "poll_cycle src io i s g ou dirty cell c = ((e, ms), cell1, c1)" by (metis surj_pair)
  have ms: "ms = []" and heard: "\<forall>p. ou_page ou p" using Cons.prems x r by auto
  note step = cycle_without_pages [OF heard r [unfolded ms]]
  have "skip_count (pc_state cell1) \<le> max_skips" using step Cons.prems(3) by (simp split: if_splits)
  then have "length (filter (\<lambda>(e, ms). e = None) (cycles_run src io i s xs cell1 c1)) + skip_count (pc_state cell1) \<le> max_skips"
    using Cons.IH Cons.prems x r by auto
  then show ?case using step x r by (cases e) simp_all
qed

lemma skip_count_bound: "skip_count st \<le> max_skips"
  by (cases st) (simp_all add: skip_count_def)

text \<open>A table of two rows stamped alike, and a cell armed on it.\<close>

definition stamped :: "string \<Rightarrow> entity" where
  "stamped i = (lab_row i)\<lparr>e_raw := JObj [(''t'', JStr ''2026'')]\<rparr>"

definition armed_cell :: probe_cell where
  "armed_cell = \<lparr>pc_state = Armed ''2026'' ''a'' 2 0, pc_dirty = False, pc_pages = 2\<rparr>"

lemma armed_skip:
  "poll_cycle (list_source [stamped ''a'', stamped ''b'']) (\<lambda>_. Some 0) i (lab_sub (Some ''t'')) g ou False
     \<lparr>pc_state = Armed ''2026'' ''a'' 2 k, pc_dirty = d, pc_pages = 2\<rparr> c
   = (if k < max_skips then ((None, []), \<lparr>pc_state = Armed ''2026'' ''a'' 2 (Suc k), pc_dirty = d, pc_pages = 2\<rparr>, Suc c)
      else probed_walk (list_source [stamped ''a'', stamped ''b'']) (\<lambda>_. Some 0) i (lab_sub (Some ''t'')) g ou ''t'' False
        \<lparr>pc_state = Armed ''2026'' ''a'' 2 k, pc_dirty = d, pc_pages = 2\<rparr> c)"
  by (simp add: poll_cycle_def lab_sub_def sub_list_def key_top_def probed_walk_def probe_request_def
      list_source_def slice_def stamped_def lab_row_def jget_def probe_decide_def skipped_def)

text \<open>
  C36: a table is walked at least every tenth cycle: whatever the probe answers, of the cycles
  since pages last came in - while somebody listens - at most nine end well without any, and none
  of those was asked for by hand.
\<close>

theorem at_most_nine_skips:
  assumes "\<forall>(g, ou, dirty) \<in> set xs. \<forall>p. ou_page ou p"
    and "\<forall>(e, ms) \<in> set (cycles_run src io i s xs cell c). ms = []"
  shows "length (filter (\<lambda>(e, ms). e = None) (cycles_run src io i s xs cell c)) \<le> 9"
  using cycles_without_pages [OF assms skip_count_bound] by (simp add: max_skips_def)

theorem at_most_nine_skips_witness:
  "length (filter (\<lambda>(e, ms). e = None) (cycles_run (list_source [stamped ''a'', stamped ''b'']) (\<lambda>_. Some 0) 1
      (lab_sub (Some ''t'')) [(1, calm, False), (2, calm, False)] armed_cell 0)) \<le> 9"
  by (rule at_most_nine_skips)
    (simp_all add: armed_cell_def armed_skip max_skips_def calm_def)

text \<open>
  a request by hand is a walk: a cycle that runs with the dirty mark set ends well only with
  pages, even on an armed probe that sees no change.
\<close>

theorem dirty_cycle_walks:
  assumes "\<forall>p. ou_page ou p" and "poll_cycle src io i s g ou True cell c = ((None, ms), cell1, c1)"
  shows "ms \<noteq> []"
  using cycle_without_pages [OF assms(1), of src io i s g True cell c None cell1 c1] assms(2) by auto

theorem dirty_cycle_walks_witness:
  "snd (fst (poll_cycle (list_source [stamped ''a'', stamped ''b'']) (\<lambda>_. Some 0) 1 (lab_sub (Some ''t'')) 1 calm True
      armed_cell 0)) \<noteq> []"
proof -
  let ?src = "list_source [stamped ''a'', stamped ''b'']" and ?s = "lab_sub (Some ''t'')"
  obtain r ms d where w: "list_walk ?src (\<lambda>_. Some 0) 1 ?s 1 None calm 1 = ((r, ms), d)" by (metis surj_pair)
  obtain wk where wk: "r = Inr wk"
    using list_walk_served [OF list_source_served calm_undisturbed _ w]
    by (auto simp: lab_sub_def sub_list_def key_top_def)
  have "\<exists>cell1 c1. poll_cycle ?src (\<lambda>_. Some 0) 1 ?s 1 calm True armed_cell 0 = ((None, ms), cell1, c1)"
    using w wk by (auto simp: poll_cycle_def lab_sub_def sub_list_def key_top_def armed_cell_def probed_walk_def
        probe_decide_def probe_request_def list_source_def split: list.split)
  then obtain cell1 c1 where p: "poll_cycle ?src (\<lambda>_. Some 0) 1 ?s 1 calm True armed_cell 0 = ((None, ms), cell1, c1)"
    by blast
  show ?thesis using dirty_cycle_walks [OF _ p] p by (simp add: calm_def)
qed

section \<open>Backing off\<close>

lemma backoff_step:
  assumes "0 < iv"
  shows "snd (next_backoff iv (min (max max_backoff iv) (iv * 2 ^ n)) (Some e)) = min (max max_backoff iv) (iv * 2 ^ Suc n)"
proof -
  have "iv \<le> iv * 2 ^ n" by simp
  then show ?thesis using assms by (auto simp: next_backoff_def min_def max_def)
qed

lemma backoff_power:
  "0 < iv \<Longrightarrow> fold (\<lambda>e b. snd (next_backoff iv b (Some e))) es iv = min (max max_backoff iv) (iv * 2 ^ length es)"
proof (induction es rule: rev_induct)
  case Nil
  then show ?case by (simp add: min_def max_def)
next
  case (snoc e es)
  then show ?case using backoff_step [of iv "length es" e] by simp
qed

text \<open>
  C37: failures space themselves out: after \<open>n\<close> failed cycles in a row at one interval, the
  back-off is the interval doubled \<open>n\<close> times, capped at a minute or at the interval when that is
  longer; the next failed cycle waits exactly that, or what the server asked for when that is
  longer, and a success waits the interval again.
\<close>

theorem backoff_doubles_to_the_cap:
  assumes "0 < iv"
  shows "next_backoff iv (fold (\<lambda>e b. snd (next_backoff iv b (Some e))) es iv) err =
    (let b = min (max max_backoff iv) (iv * 2 ^ length es)
     in case err of None \<Rightarrow> (iv, iv)
      | Some e \<Rightarrow> (max b (case error_retry_after e of Some asked \<Rightarrow> asked | None \<Rightarrow> 0),
          min (max max_backoff iv) (iv * 2 ^ Suc (length es))))"
  using backoff_power [OF assms, of es] backoff_step [OF assms, of "length es"]
  by (auto simp: Let_def next_backoff_def max.commute split: option.splits)

theorem backoff_doubles_to_the_cap_witness:
  "next_backoff (from_secs 5) (fold (\<lambda>e b. snd (next_backoff (from_secs 5) b (Some e))) [EAuth, EAuth] (from_secs 5))
     (Some (ERateLimited (from_secs 90))) = (from_secs 90, from_secs 40)"
  using backoff_doubles_to_the_cap [of "from_secs 5" "[EAuth, EAuth]" "Some (ERateLimited (from_secs 90))"]
  by (simp add: max_backoff_def from_secs_def)

section \<open>What a walk costs\<close>

lemma walk_list_pages:
  "wg_page w < max_walk_pages \<Longrightarrow> walk_list src io i s g probe_by ou w c = ((r, ms), d) \<Longrightarrow>
    length ms + wg_page w \<le> max_walk_pages \<and>
    (case r of Inr wk \<Rightarrow> wk_pages wk \<le> max_walk_pages | Inl e \<Rightarrow> True)"
proof (induction "max_walk_pages - wg_page w" arbitrary: w c r ms d rule: less_induct)
  case less
  obtain x c1 where x: "src_list src (tk_kind (su_key s)) (wg_page w) (walk_options s) c = (x, c1)" by force
  show ?case
  proof (cases "\<exists>pg. x = Inr pg \<and> goes_on s ou (wg_page w) pg (take_page io probe_by pg w)")
    case False
    then show ?thesis using less.prems x
      by (subst (asm) walk_list.simps)
        (auto simp: Let_def seen_of_def take_page_def split: sum.splits if_splits)
  next
    case True
    then obtain pg where pg: "x = Inr pg" "goes_on s ou (wg_page w) pg (take_page io probe_by pg w)" by blast
    have w1: "wg_page (take_page io probe_by pg w) = Suc (wg_page w)" by (simp add: take_page_def)
    obtain r1 ms1 d1 where rest: "walk_list src io i s g probe_by ou (take_page io probe_by pg w) c1 = ((r1, ms1), d1)"
      by (metis surj_pair)
    have rm: "r = r1 \<and> length ms \<le> Suc (length ms1)"
      using less.prems(2) x pg rest by (subst (asm) walk_list.simps) (auto simp: Let_def)
    have "length ms1 + Suc (wg_page w) \<le> max_walk_pages \<and>
        (case r1 of Inr wk \<Rightarrow> wk_pages wk \<le> max_walk_pages | Inl e \<Rightarrow> True)"
      using less.hyps [OF _ _ rest] w1 goes_on_page [OF pg(2)] less.prems(1) by simp
    then show ?thesis using rm by auto
  qed
qed

end
