(* ===== verification/Scheduler.thy ===== *)
theory Scheduler
  imports Polling
begin

text \<open>
  The scheduler (\<open>crates/core/src/scheduler.rs\<close>) and the wait between cycles (\<open>wait_for_cycle\<close> of
  \<open>crates/core/src/scheduler/cycle.rs\<close>): what an entry and its task share, every operation of the
  scheduler on its entries, and the steps a task takes by itself. Generations are drawn by each
  round (\<open>Polling\<close>); the order of a hash map's entries is not relied on, and is the order of
  subscribing here.
\<close>

section \<open>Entries\<close>

text \<open>
  \<open>ct_wake\<close> is the permit of the \<open>Notify\<close>: \<open>notify_one\<close> leaves at most one, and the task that
  waits takes it. An interval of zero is no schedule. A task in a cycle carries the dirty mark it
  took from the cell when the cycle began.
\<close>

record controls =
  ct_wake :: bool
  ct_cell :: probe_cell
  ct_stop :: bool
  ct_interval :: nat
  ct_armed :: bool

datatype phase = Cycling bool | Sleeping duration | Parked | Ended

record running =
  rn_phase :: phase
  rn_backoff :: duration
  rn_controls :: controls
  rn_sub :: subscription

record scheduler =
  sc_tasks :: "(sub_id \<times> running) list"
  sc_epoch :: nat
  sc_next :: sub_id
  sc_idle :: bool

definition new_scheduler :: "nat \<Rightarrow> sub_id \<Rightarrow> scheduler" where
  "new_scheduler epoch first = \<lparr>sc_tasks = [], sc_epoch = epoch, sc_next = first, sc_idle = False\<rparr>"

definition begin_cycle :: "running \<Rightarrow> running" where
  "begin_cycle r = (case take_dirty (ct_cell (rn_controls r)) of
     (dirty, cell) \<Rightarrow> r\<lparr>rn_phase := Cycling dirty, rn_controls := (rn_controls r)\<lparr>ct_cell := cell\<rparr>\<rparr>)"

definition spawned :: "controls \<Rightarrow> subscription \<Rightarrow> running" where
  "spawned ct s = begin_cycle \<lparr>rn_phase = Ended, rn_backoff = poll_interval (su_interval s), rn_controls = ct, rn_sub = s\<rparr>"

definition task_of :: "scheduler \<Rightarrow> sub_id \<Rightarrow> running option" where
  "task_of sc i = map_of (sc_tasks sc) i"

definition upd_controls :: "(controls \<Rightarrow> controls) \<Rightarrow> running \<Rightarrow> running" where
  "upd_controls f r = r\<lparr>rn_controls := f (rn_controls r)\<rparr>"

definition upd_tasks :: "(sub_id \<Rightarrow> running \<Rightarrow> bool) \<Rightarrow> (running \<Rightarrow> running) \<Rightarrow> scheduler \<Rightarrow> scheduler" where
  "upd_tasks P f sc = sc\<lparr>sc_tasks := map (\<lambda>(i, r). (i, if P i r then f r else r)) (sc_tasks sc)\<rparr>"

definition task_kind :: "running \<Rightarrow> string" where
  "task_kind r = k_id (tk_kind (su_key (rn_sub r)))"

section \<open>Operations\<close>

definition subscribe :: "subscription \<Rightarrow> scheduler \<Rightarrow> sub_id \<times> scheduler" where
  "subscribe s sc =
     (let ct = \<lparr>ct_wake = False, ct_cell = cell_default, ct_stop = False, ct_interval = secs_of (su_interval s),
            ct_armed = False\<rparr>
      in (sc_next sc, sc\<lparr>sc_tasks := sc_tasks sc @ [(sc_next sc, spawned ct s)], sc_next := Suc (sc_next sc)\<rparr>))"

definition unsubscribe :: "sub_id \<Rightarrow> scheduler \<Rightarrow> scheduler" where
  "unsubscribe i sc = sc\<lparr>sc_tasks := filter (\<lambda>(j, _). j \<noteq> i) (sc_tasks sc)\<rparr>"

definition reap :: "nat \<Rightarrow> sub_id \<Rightarrow> scheduler \<Rightarrow> scheduler" where
  "reap epoch i sc = (if epoch = sc_epoch sc then unsubscribe i sc else sc)"

definition refreshed :: "running \<Rightarrow> running" where
  "refreshed r =
     (let ct = (rn_controls r)\<lparr>ct_cell := mark_dirty (ct_cell (rn_controls r)), ct_armed := True, ct_stop := False\<rparr>
      in if su_once (rn_sub r) \<or> rn_phase r \<noteq> Ended then r\<lparr>rn_controls := ct\<lparr>ct_wake := True\<rparr>\<rparr>
         else spawned ct (rn_sub r))"

definition refresh :: "sub_id \<Rightarrow> scheduler \<Rightarrow> scheduler" where
  "refresh i = upd_tasks (\<lambda>j _. j = i) refreshed"

definition stop :: "sub_id \<Rightarrow> scheduler \<Rightarrow> bool \<times> scheduler" where
  "stop i sc =
     (case task_of sc i of
        Some r \<Rightarrow> (if rn_phase r \<noteq> Ended
          then (True, upd_tasks (\<lambda>j _. j = i) (upd_controls (\<lambda>ct. ct\<lparr>ct_stop := True\<rparr>)) sc) else (False, sc))
      | None \<Rightarrow> (False, sc))"

definition retimed :: "duration option \<Rightarrow> running \<Rightarrow> running" where
  "retimed every = upd_controls (\<lambda>ct.
     (let ct1 = ct\<lparr>ct_interval := (case every of None \<Rightarrow> 0 | Some d \<Rightarrow> secs_of d), ct_stop := False\<rparr>
      in case every of
           None \<Rightarrow> ct1\<lparr>ct_wake := True\<rparr>
         | Some _ \<Rightarrow> ct1\<lparr>ct_cell := mark_dirty (ct_cell ct1), ct_armed := True, ct_wake := True\<rparr>))"

definition set_interval :: "sub_id \<Rightarrow> duration option \<Rightarrow> scheduler \<Rightarrow> bool \<times> scheduler" where
  "set_interval i every sc = (task_of sc i \<noteq> None, upd_tasks (\<lambda>j _. j = i) (retimed every) sc)"

definition set_interval_kind :: "string \<Rightarrow> duration option \<Rightarrow> scheduler \<Rightarrow> nat \<times> scheduler" where
  "set_interval_kind k every sc =
     (let P = (\<lambda>_ r. task_kind r = k \<and> su_pausable (rn_sub r))
      in (length (filter (\<lambda>(i, r). P i r) (sc_tasks sc)), upd_tasks P (retimed every) sc))"

definition is_manual :: "sub_id \<Rightarrow> scheduler \<Rightarrow> bool" where
  "is_manual i sc = (case task_of sc i of Some r \<Rightarrow> ct_interval (rn_controls r) = 0 | None \<Rightarrow> False)"

definition refresh_kind :: "string \<Rightarrow> scheduler \<Rightarrow> scheduler" where
  "refresh_kind k = upd_tasks (\<lambda>_ r. task_kind r = k) refreshed"

definition set_idle :: "bool \<Rightarrow> scheduler \<Rightarrow> scheduler" where
  "set_idle b sc = sc\<lparr>sc_idle := b\<rparr>"

definition refresh_all :: "scheduler \<Rightarrow> scheduler" where
  "refresh_all = upd_tasks (\<lambda>_ r. ct_interval (rn_controls r) \<noteq> 0)
     (upd_controls (\<lambda>ct. ct\<lparr>ct_cell := mark_dirty (ct_cell ct), ct_armed := True, ct_wake := True\<rparr>))"

definition refresh_everything :: "scheduler \<Rightarrow> nat \<times> scheduler" where
  "refresh_everything sc = (length (sc_tasks sc), upd_tasks (\<lambda>_ _. True) refreshed sc)"

definition is_live :: "sub_id \<Rightarrow> scheduler \<Rightarrow> bool" where
  "is_live i sc \<longleftrightarrow> task_of sc i \<noteq> None"

definition live_count :: "scheduler \<Rightarrow> nat" where
  "live_count sc = length (sc_tasks sc)"

section \<open>The wait for a cycle\<close>

text \<open>The top of the loop: a wake is waited for, or the clock.\<close>

definition enter_wait :: "bool \<Rightarrow> duration \<Rightarrow> running \<Rightarrow> running" where
  "enter_wait idle w r =
     r\<lparr>rn_phase := (if ct_interval (rn_controls r) = 0 \<or> ct_stop (rn_controls r) \<or> (su_pausable (rn_sub r) \<and> idle)
       then Parked else Sleeping w)\<rparr>"

definition clock_fires :: "bool \<Rightarrow> running \<Rightarrow> running" where
  "clock_fires idle r =
     (case rn_phase r of
        Sleeping w \<Rightarrow> (if \<not> (su_pausable (rn_sub r) \<and> idle) then begin_cycle r else enter_wait idle w r)
      | _ \<Rightarrow> r)"

definition wakes :: "bool \<Rightarrow> running \<Rightarrow> running" where
  "wakes idle r =
     (if \<not> ct_wake (rn_controls r) then r
      else case rn_phase r of
          Cycling _ \<Rightarrow> r
        | Ended \<Rightarrow> r
        | _ \<Rightarrow> (let ct = (rn_controls r)\<lparr>ct_wake := False\<rparr>
            in if ct_armed ct then begin_cycle (r\<lparr>rn_controls := ct\<lparr>ct_armed := False\<rparr>\<rparr>)
               else enter_wait idle (poll_interval (from_secs (ct_interval ct))) (r\<lparr>rn_controls := ct\<rparr>)))"

text \<open>
  The end of a round: what it left of the probe, and what it waits for. The mark is not the
  round's to write.
\<close>

definition round_ends :: "bool \<Rightarrow> probe_cell \<Rightarrow> round_end \<Rightarrow> running \<Rightarrow> running" where
  "round_ends idle cell fin r =
     (case rn_phase r of
        Cycling _ \<Rightarrow>
          (let ct = rn_controls r;
               r1 = r\<lparr>rn_controls := ct\<lparr>ct_cell := cell\<lparr>pc_dirty := pc_dirty (ct_cell ct)\<rparr>\<rparr>\<rparr>
           in case fin of
                Returns \<Rightarrow> r1\<lparr>rn_phase := Ended\<rparr>
              | Waits w b \<Rightarrow> enter_wait idle w (r1\<lparr>rn_backoff := b\<rparr>))
      | _ \<Rightarrow> r)"

section \<open>A session's events\<close>

datatype sched_event =
    ESubscribe subscription
  | EUnsubscribe sub_id
  | EReap nat sub_id
  | ERefresh sub_id
  | EStop sub_id
  | ESetInterval sub_id "duration option"
  | ESetIntervalKind string "duration option"
  | ERefreshKind string
  | ESetIdle bool
  | ERefreshAll
  | ERefreshEverything
  | EClock sub_id
  | EWake sub_id
  | ERoundEnds sub_id probe_cell round_end

fun sched_step :: "sched_event \<Rightarrow> scheduler \<Rightarrow> scheduler" where
  "sched_step (ESubscribe s) sc = snd (subscribe s sc)"
| "sched_step (EUnsubscribe i) sc = unsubscribe i sc"
| "sched_step (EReap epoch i) sc = reap epoch i sc"
| "sched_step (ERefresh i) sc = refresh i sc"
| "sched_step (EStop i) sc = snd (stop i sc)"
| "sched_step (ESetInterval i every) sc = snd (set_interval i every sc)"
| "sched_step (ESetIntervalKind k every) sc = snd (set_interval_kind k every sc)"
| "sched_step (ERefreshKind k) sc = refresh_kind k sc"
| "sched_step (ESetIdle b) sc = set_idle b sc"
| "sched_step ERefreshAll sc = refresh_all sc"
| "sched_step ERefreshEverything sc = snd (refresh_everything sc)"
| "sched_step (EClock i) sc = upd_tasks (\<lambda>j _. j = i) (clock_fires (sc_idle sc)) sc"
| "sched_step (EWake i) sc = upd_tasks (\<lambda>j _. j = i) (wakes (sc_idle sc)) sc"
| "sched_step (ERoundEnds i cell fin) sc = upd_tasks (\<lambda>j _. j = i) (round_ends (sc_idle sc) cell fin) sc"

section \<open>One entry under an event\<close>

definition sub_ids :: "scheduler \<Rightarrow> sub_id list" where
  "sub_ids sc = map fst (sc_tasks sc)"

definition sched_ok :: "scheduler \<Rightarrow> bool" where
  "sched_ok sc \<longleftrightarrow> distinct (sub_ids sc) \<and> (\<forall>i \<in> set (sub_ids sc). i < sc_next sc)"

fun dropped :: "nat \<Rightarrow> sub_id \<Rightarrow> sched_event \<Rightarrow> bool" where
  "dropped epoch i (EUnsubscribe j) = (j = i)"
| "dropped epoch i (EReap e j) = (e = epoch \<and> j = i)"
| "dropped epoch i _ = False"

text \<open>What an event does to one entry, the session's idle flag given.\<close>

fun touched :: "bool \<Rightarrow> sub_id \<Rightarrow> sched_event \<Rightarrow> running \<Rightarrow> running" where
  "touched idle i (ERefresh j) r = (if j = i then refreshed r else r)"
| "touched idle i (EStop j) r = (if j = i \<and> rn_phase r \<noteq> Ended then upd_controls (\<lambda>ct. ct\<lparr>ct_stop := True\<rparr>) r else r)"
| "touched idle i (ESetInterval j every) r = (if j = i then retimed every r else r)"
| "touched idle i (ESetIntervalKind k every) r =
     (if task_kind r = k \<and> su_pausable (rn_sub r) then retimed every r else r)"
| "touched idle i (ERefreshKind k) r = (if task_kind r = k then refreshed r else r)"
| "touched idle i ERefreshAll r = (if ct_interval (rn_controls r) \<noteq> 0
     then upd_controls (\<lambda>ct. ct\<lparr>ct_cell := mark_dirty (ct_cell ct), ct_armed := True, ct_wake := True\<rparr>) r else r)"
| "touched idle i ERefreshEverything r = refreshed r"
| "touched idle i (EClock j) r = (if j = i then clock_fires idle r else r)"
| "touched idle i (EWake j) r = (if j = i then wakes idle r else r)"
| "touched idle i (ERoundEnds j cell fin) r = (if j = i then round_ends idle cell fin r else r)"
| "touched idle i _ r = r"

lemma task_of_upd [simp]:
  "task_of (upd_tasks P f sc) i = map_option (\<lambda>r. if P i r then f r else r) (task_of sc i)"
proof -
  have "map_of (map (\<lambda>(i, r). (i, if P i r then f r else r)) xs) i
      = map_option (\<lambda>r. if P i r then f r else r) (map_of xs i)" for xs
    by (induction xs) auto
  then show ?thesis by (simp add: task_of_def upd_tasks_def)
qed

lemma task_of_unsubscribe [simp]: "task_of (unsubscribe j sc) i = (if i = j then None else task_of sc i)"
proof -
  have "map_of (filter (\<lambda>(k, _). k \<noteq> j) xs) i = (if i = j then None else map_of xs i)"
    for xs :: "(sub_id \<times> running) list"
    by (induction xs) auto
  then show ?thesis by (simp add: task_of_def unsubscribe_def)
qed

lemma task_of_idle [simp]: "task_of (sc\<lparr>sc_idle := b\<rparr>) i = task_of sc i"
  by (simp add: task_of_def)

lemma task_of_subscribe:
  "sched_ok sc \<Longrightarrow> task_of sc i = Some r \<Longrightarrow> task_of (snd (subscribe s sc)) i = Some r"
  by (auto simp: task_of_def subscribe_def Let_def map_add_def sched_ok_def sub_ids_def dest: map_of_SomeD)

lemma task_after:
  assumes "sched_ok sc" and "task_of sc i = Some r"
  shows "task_of (sched_step e sc) i = (if dropped (sc_epoch sc) i e then None else Some (touched (sc_idle sc) i e r))"
  using assms
  by (cases e) (auto simp: task_of_subscribe reap_def refresh_def stop_def set_interval_def set_interval_kind_def
      refresh_kind_def set_idle_def refresh_all_def refresh_everything_def Let_def split: option.splits)

lemma upd_tasks_frame [simp]:
  "sub_ids (upd_tasks P f sc) = sub_ids sc" "sc_next (upd_tasks P f sc) = sc_next sc"
  "sc_idle (upd_tasks P f sc) = sc_idle sc" "sc_epoch (upd_tasks P f sc) = sc_epoch sc"
  by (simp_all add: sub_ids_def upd_tasks_def comp_def case_prod_beta)

lemma sched_ok_upd [simp]: "sched_ok (upd_tasks P f sc) \<longleftrightarrow> sched_ok sc"
  by (simp add: sched_ok_def)

lemma sched_ok_idle [simp]: "sched_ok (sc\<lparr>sc_idle := b\<rparr>) \<longleftrightarrow> sched_ok sc"
  by (simp add: sched_ok_def sub_ids_def)

lemma sched_ok_unsubscribe: "sched_ok sc \<Longrightarrow> sched_ok (unsubscribe i sc)"
  by (auto simp: sched_ok_def sub_ids_def unsubscribe_def distinct_map inj_on_def)

lemma sched_ok_subscribe: "sched_ok sc \<Longrightarrow> sched_ok (snd (subscribe s sc))"
  by (force simp: sched_ok_def sub_ids_def subscribe_def Let_def)

lemma sched_ok_step: "sched_ok sc \<Longrightarrow> sched_ok (sched_step e sc)"
  by (cases e) (auto simp: sched_ok_unsubscribe sched_ok_subscribe reap_def refresh_def stop_def set_interval_def
      set_interval_kind_def refresh_kind_def set_idle_def refresh_all_def refresh_everything_def Let_def
      split: option.split)

lemma sched_epoch [simp]: "sc_epoch (sched_step e sc) = sc_epoch sc"
  by (cases e) (auto simp: subscribe_def unsubscribe_def reap_def refresh_def stop_def set_interval_def
      set_interval_kind_def refresh_kind_def set_idle_def refresh_all_def refresh_everything_def Let_def
      split: option.split)

section \<open>Asking for a cycle\<close>

text \<open>The entry waits for a wake or for the clock.\<close>

definition waits :: "running \<Rightarrow> bool" where
  "waits r \<longleftrightarrow> rn_phase r = Parked \<or> (\<exists>w. rn_phase r = Sleeping w)"

text \<open>Asked for, and not begun yet: a wake is pending, it means a cycle, and the cycle is to walk.\<close>

definition pending :: "running \<Rightarrow> bool" where
  "pending r \<longleftrightarrow> ct_wake (rn_controls r) \<and> ct_armed (rn_controls r) \<and> pc_dirty (ct_cell (rn_controls r))"

fun forced_cycles :: "sub_id \<Rightarrow> sched_event list \<Rightarrow> scheduler \<Rightarrow> nat" where
  "forced_cycles i [] sc = 0"
| "forced_cycles i (e # es) sc =
     (case (task_of sc i, task_of (sched_step e sc) i) of
        (Some r, Some r1) \<Rightarrow> (if rn_phase r1 = Cycling True \<and> (\<forall>d. rn_phase r \<noteq> Cycling d) then 1 else 0)
      | _ \<Rightarrow> 0) + forced_cycles i es (sched_step e sc)"

lemma begin_cycle_phase [simp]: "rn_phase (begin_cycle r) = Cycling (pc_dirty (ct_cell (rn_controls r)))"
  by (simp add: begin_cycle_def take_dirty_def)

lemma enter_wait_controls [simp]: "rn_controls (enter_wait idle w r) = rn_controls r"
  by (simp add: enter_wait_def)

lemma refreshed_pending:
  "pending (refreshed r) \<or> (rn_phase r = Ended \<and> rn_phase (refreshed r) = Cycling True)"
  by (simp add: refreshed_def Let_def pending_def mark_dirty_def spawned_def)

lemma pending_touched:
  assumes "pending r"
  shows "pending (touched idle i e r) \<or>
    (\<forall>d. rn_phase r \<noteq> Cycling d) \<and> rn_phase (touched idle i e r) = Cycling True"
proof (cases e)
  case (ERefresh j)
  then show ?thesis using assms refreshed_pending [of r] by auto
next
  case (ERefreshKind k)
  then show ?thesis using assms refreshed_pending [of r] by auto
next
  case ERefreshEverything
  then show ?thesis using refreshed_pending [of r] by auto
next
  case (EWake j)
  then show ?thesis using assms by (auto simp: wakes_def pending_def Let_def split: phase.split)
next
  case (EClock j)
  then show ?thesis using assms by (auto simp: clock_fires_def pending_def split: phase.split)
next
  case (ERoundEnds j cell fin)
  then show ?thesis using assms
    by (auto simp: round_ends_def pending_def Let_def split: phase.split round_end.split)
qed (use assms in \<open>auto simp: pending_def upd_controls_def retimed_def mark_dirty_def Let_def split: option.split\<close>)

lemma wake_begins: "pending r \<Longrightarrow> waits r \<Longrightarrow> rn_phase (wakes idle r) = Cycling True \<and> (\<forall>d. rn_phase r \<noteq> Cycling d)"
  by (auto simp: waits_def wakes_def pending_def Let_def split: phase.split)

lemma pending_run:
  assumes "sched_ok sc" and "task_of sc i = Some r" and "pending r"
    and "\<forall>e \<in> set es. \<not> dropped (sc_epoch sc) i e"
  shows "0 < forced_cycles i (es @ [EWake i]) sc \<or> (\<exists>r1. task_of (fold sched_step es sc) i = Some r1 \<and> \<not> waits r1)"
  using assms
proof (induction es arbitrary: sc r)
  case Nil
  have "task_of (sched_step (EWake i) sc) i = Some (wakes (sc_idle sc) r)" using Nil.prems(2) by simp
  then show ?case using Nil.prems wake_begins [of r "sc_idle sc"] by auto
next
  case (Cons e es)
  have r1: "task_of (sched_step e sc) i = Some (touched (sc_idle sc) i e r)"
    using task_after [OF Cons.prems(1,2)] Cons.prems(4) by simp
  show ?case
  proof (cases "pending (touched (sc_idle sc) i e r)")
    case True
    then show ?thesis
      using Cons.IH [OF sched_ok_step [OF Cons.prems(1)] r1 True] Cons.prems(4) by auto
  next
    case False
    then show ?thesis using pending_touched [OF Cons.prems(3), of "sc_idle sc" i e] Cons.prems(2) r1 by simp
  qed
qed

section \<open>Silence\<close>

text \<open>What asks the entry's task for a cycle: somebody by hand, or a new schedule.\<close>

fun asks :: "sub_id \<Rightarrow> subscription \<Rightarrow> sched_event \<Rightarrow> bool" where
  "asks i s (ERefresh j) = (j = i)"
| "asks i s (ESetInterval j every) = (j = i \<and> every \<noteq> None)"
| "asks i s (ESetIntervalKind k every) = (k = k_id (tk_kind (su_key s)) \<and> su_pausable s \<and> every \<noteq> None)"
| "asks i s (ERefreshKind k) = (k = k_id (tk_kind (su_key s)))"
| "asks i s ERefreshEverything = True"
| "asks i s _ = False"

definition switched_off :: "subscription \<Rightarrow> running \<Rightarrow> bool" where
  "switched_off s r \<longleftrightarrow> rn_phase r = Parked \<and> ct_interval (rn_controls r) = 0 \<and> \<not> ct_armed (rn_controls r) \<and> rn_sub r = s"

lemma switched_off_touched:
  "switched_off s r \<Longrightarrow> \<not> asks i s e \<Longrightarrow> switched_off s (touched idle i e r)"
  by (cases e) (auto simp: switched_off_def upd_controls_def retimed_def clock_fires_def wakes_def round_ends_def
      enter_wait_def task_kind_def Let_def)

lemma switched_off_run:
  "sched_ok sc \<Longrightarrow> task_of sc i = Some r \<Longrightarrow> switched_off s r \<Longrightarrow>
    \<forall>e \<in> set es. \<not> asks i s e \<and> \<not> dropped (sc_epoch sc) i e \<Longrightarrow>
    \<exists>r1. task_of (fold sched_step es sc) i = Some r1 \<and> switched_off s r1"
proof (induction es arbitrary: sc r)
  case Nil
  then show ?case by simp
next
  case (Cons e es)
  have r1: "task_of (sched_step e sc) i = Some (touched (sc_idle sc) i e r)"
    using task_after [OF Cons.prems(1,2)] Cons.prems(4) by simp
  have "switched_off s (touched (sc_idle sc) i e r)" using switched_off_touched Cons.prems(3,4) by simp
  from Cons.IH [OF sched_ok_step [OF Cons.prems(1)] r1 this] Cons.prems(4) show ?case by simp
qed

section \<open>Properties\<close>


text \<open>
  C39: a subscription switched off stays silent: parked with no schedule, it begins no cycle in any
  sequence of events - the idle pause and its wake, stops, other subscriptions, spurious wakes -
  until somebody asks for one.
\<close>

theorem off_stays_off:
  assumes "sched_ok sc" and "task_of sc i = Some r" and "rn_phase r = Parked" and "is_manual i sc"
    and "\<not> ct_armed (rn_controls r)" and "\<forall>e \<in> set es. \<not> asks i (rn_sub r) e \<and> \<not> dropped (sc_epoch sc) i e"
  shows "\<exists>r1. task_of (fold sched_step es sc) i = Some r1 \<and> rn_phase r1 = Parked"
proof -
  have "switched_off (rn_sub r) r" using assms(2-5) by (simp add: switched_off_def is_manual_def)
  from switched_off_run [OF assms(1,2) this assms(6)] show ?thesis by (auto simp: switched_off_def)
qed

text \<open>A scheduler with one subscription in its first cycle, and the same one switched off.\<close>

definition lab_scheduler :: scheduler where
  "lab_scheduler = snd (subscribe (lab_sub None) (new_scheduler 1 1))"

definition off_scheduler :: scheduler where
  "off_scheduler = fold sched_step [ESetInterval 1 None, ERoundEnds 1 cell_default (Waits min_interval min_interval), EWake 1]
     lab_scheduler"

lemmas lab_scheduler_simps = lab_scheduler_def off_scheduler_def subscribe_def new_scheduler_def spawned_def begin_cycle_def
  take_dirty_def cell_default_def set_interval_def upd_tasks_def retimed_def upd_controls_def round_ends_def wakes_def
  enter_wait_def task_of_def sub_ids_def lab_sub_def sub_list_def


theorem off_stays_off_witness:
  "\<exists>r. task_of (fold sched_step [ESetIdle True, EStop 1, EWake 1, EClock 1, ESetIdle False, ERefreshAll] off_scheduler) 1
     = Some r \<and> rn_phase r = Parked"
proof -
  have ok: "sched_ok off_scheduler" "sc_epoch off_scheduler = 1" "is_manual 1 off_scheduler"
    by (simp_all add: sched_ok_def is_manual_def lab_scheduler_simps Let_def)
  obtain r where r: "task_of off_scheduler 1 = Some r" "rn_phase r = Parked" "\<not> ct_armed (rn_controls r)"
    by (simp add: lab_scheduler_simps Let_def)
  show ?thesis by (rule off_stays_off [OF ok(1) r(1,2) ok(3) r(3)]) simp
qed

section \<open>Stopping between two cycles\<close>

lemma stopped_list_walk:
  assumes "list_served src s xs counted" and "\<forall>p. ou_page ou p \<and> ou_stop ou p"
    and "list_walk src io i s g probe_by ou c = ((r, ms), d)"
  shows "\<exists>wk tot. r = Inr wk \<and> ms = [MPage i (su_key s) g (slice (lo_limit (walk_options s)) xs 0) tot]"
proof -
  let ?pg = "\<lparr>pg_entities = slice (lo_limit (walk_options s)) xs 0, pg_total = (if counted then Some (length xs) else None)\<rparr>"
  obtain c1 where c1: "src_list src (tk_kind (su_key s)) 0 (walk_options s) c = (Inr ?pg, c1)"
    using assms(1) unfolding list_served_def by blast
  have "\<not> goes_on s ou p pg w" for p pg w using assms(2) by (simp add: goes_on_def)
  then show ?thesis using assms(2,3) c1 unfolding list_walk_def
    by (subst (asm) walk_list.simps) (auto simp: walk_start_def Let_def)
qed

lemma stopped_round:
  assumes "list_served src s xs counted" and "ou_start ou" and "ou_end ou" and "\<forall>p. ou_page ou p \<and> ou_stop ou p"
    and "su_single s = None"
    and "k_probe_by (tk_kind (su_key s)) = None \<or> pc_state cell = Disarmed \<or> pc_pages cell < 2"
    and "poll_round src io epoch i s g1 g2 ou ou2 secs backoff cell c = ((ms, fin), cell1, c1)"
  shows "\<exists>tot. updates_of ms = [UStarted g1, UPage g1 (slice (lo_limit (walk_options s)) xs 0) tot, UComplete g1]"
proof -
  obtain r ps d where w: "list_walk src io i s g1 None ou c = ((r, ps), d)" by (metis surj_pair)
  obtain wk tot where m: "r = Inr wk" "ps = [MPage i (su_key s) g1 (slice (lo_limit (walk_options s)) xs 0) tot]"
    using stopped_list_walk [OF assms(1,4) w] by blast
  have cyc: "poll_cycle src io i s g1 ou b (snd (take_dirty cell)) c
      = ((None, ps), set_pages (wk_pages wk) (snd (take_dirty cell)), d)" for b
    using assms(6) w m(1) by (auto simp: poll_cycle_def plain_walk_def take_dirty_def split: option.split)
  obtain end_msgs fin1 d1 where e: "settle_round src epoch i s g1 (ou_end ou) secs backoff None d = ((end_msgs, fin1), d1)"
    by (metis surj_pair)
  obtain rest where "end_msgs = MComplete i (su_key s) g1 # rest" "updates_of rest = []"
    using e assms(3) by (auto simp: settle_round_def Let_def is_missing_list_def split: if_splits)
  moreover have "ms = MStarted i (su_key s) g1 # ps @ end_msgs"
    using assms(2,5,7) cyc e
    by (auto simp: poll_round_def Let_def attempt_cycle_def is_missing_list_def split: prod.splits option.splits)
  ultimately show ?thesis using m(2) by simp
qed

lemma first_slice: "slice l xs 0 = take l xs"
  by (simp add: slice_def)

text \<open>
  C40: a stop between two cycles truncates the table: when a subscription is stopped by hand while
  its task sleeps, nothing wakes the task and the clock does not look at the stop, so a cycle
  begins all the same; the walk then ends after its first page, and its completion shows that
  page as the whole table, whatever the table showed before.
\<close>

theorem stop_between_cycles_truncates:
  assumes "sched_ok sc" and "task_of sc i = Some r" and "rn_phase r = Sleeping w" and "\<not> (su_pausable (rn_sub r) \<and> sc_idle sc)"
    and "list_served src (rn_sub r) xs counted" and "su_single (rn_sub r) = None"
    and "k_probe_by (tk_kind (su_key (rn_sub r))) = None \<or> pc_state cell = Disarmed \<or> pc_pages cell < 2"
    and "ou_start ou" and "ou_end ou" and "\<forall>p. ou_page ou p \<and> ou_stop ou p"
    and "poll_round src io epoch i (rn_sub r) g1 g2 ou ou2 secs backoff cell c = ((ms, fin), cell1, c1)"
    and "tb_generation t < g1" and "\<forall>sg. tb_staging t = Some sg \<longrightarrow> st_generation sg < g1"
    and "map snd us = updates_of ms" and "run_updates us (t, ns) = (t1, ns1)"
  shows "fst (stop i sc) \<and>
    (\<exists>r1 dirty. task_of (fold sched_step [EStop i, EClock i] sc) i = Some r1 \<and> rn_phase r1 = Cycling dirty \<and>
       ct_stop (rn_controls r1)) \<and>
    tb_rows t1 = index_rows (take (lo_limit (walk_options (rn_sub r))) xs)"
proof (intro conjI)
  show "fst (stop i sc)" using assms(2,3) by (simp add: stop_def)
  have s1: "task_of (sched_step (EStop i) sc) i = Some (upd_controls (\<lambda>ct. ct\<lparr>ct_stop := True\<rparr>) r)"
    using task_after [OF assms(1,2), of "EStop i"] assms(3) by simp
  have idle: "sc_idle (sched_step (EStop i) sc) = sc_idle sc" by (simp add: stop_def split: option.split)
  have "task_of (sched_step (EClock i) (sched_step (EStop i) sc)) i
      = Some (clock_fires (sc_idle sc) (upd_controls (\<lambda>ct. ct\<lparr>ct_stop := True\<rparr>) r))"
    using task_after [OF sched_ok_step [OF assms(1)] s1, of "EClock i"] unfolding idle by simp
  moreover have "clock_fires (sc_idle sc) (upd_controls (\<lambda>ct. ct\<lparr>ct_stop := True\<rparr>) r)
      = begin_cycle (upd_controls (\<lambda>ct. ct\<lparr>ct_stop := True\<rparr>) r)"
    using assms(3,4) by (simp add: clock_fires_def upd_controls_def)
  moreover have "ct_stop (rn_controls (begin_cycle (upd_controls (\<lambda>ct. ct\<lparr>ct_stop := True\<rparr>) r)))"
    by (simp add: begin_cycle_def take_dirty_def upd_controls_def)
  ultimately show "\<exists>r1 dirty. task_of (fold sched_step [EStop i, EClock i] sc) i = Some r1 \<and> rn_phase r1 = Cycling dirty \<and>
      ct_stop (rn_controls r1)"
    by (simp del: sched_step.simps)
  obtain tot where u: "updates_of ms
      = [UStarted g1, UPage g1 (take (lo_limit (walk_options (rn_sub r))) xs) tot] @ [UComplete g1]"
    using stopped_round [OF assms(5,8-10,6,7,11)] by (auto simp: first_slice)
  then obtain us1 now where us: "us = us1 @ [(now, UComplete g1)]"
    "map snd us1 = [UStarted g1, UPage g1 (take (lo_limit (walk_options (rn_sub r))) xs) tot]"
    using assms(14) by (auto simp: map_eq_append_conv simp del: append.simps)
  have "\<forall>u \<in> set (map snd us1). harmless g1 u" "\<exists>u \<in> set (map snd us1). is_page g1 u"
    unfolding us(2) by simp_all
  moreover have "cycle_rows g1 us1 = take (lo_limit (walk_options (rn_sub r))) xs"
    using us(2) by (simp add: cycle_rows_def flip: map_map)
  ultimately show "tb_rows t1 = index_rows (take (lo_limit (walk_options (rn_sub r))) xs)"
    using whole_cycle_lands [OF assms(12,13), of us1 now ns t1 ns1] assms(15) us(1) by fastforce
qed

text \<open>A list of three rows, a page of two, and the one subscription asleep.\<close>

definition lab_pages :: subscription where
  "lab_pages = (lab_sub None)\<lparr>su_page_size := 2\<rparr>"

definition asleep_scheduler :: scheduler where
  "asleep_scheduler = sched_step (ERoundEnds 1 cell_default (Waits min_interval min_interval))
     (snd (subscribe lab_pages (new_scheduler 1 1)))"

definition stopped :: outside where
  "stopped = calm\<lparr>ou_stop := \<lambda>_. True\<rparr>"

definition lab_rows :: "entity list" where
  "lab_rows = [lab_row ''a'', lab_row ''b'', lab_row ''c'']"

theorem stop_between_cycles_truncates_witness:
  "\<exists>ms. tb_rows (fst (run_updates (map (Pair 0) (updates_of ms)) (fresh_table, \<lambda>_. None)))
      = [(''a'', lab_row ''a''), (''b'', lab_row ''b'')] \<and> fst (stop 1 asleep_scheduler) \<and>
    ms = fst (fst (poll_round (list_source lab_rows) (\<lambda>_. None) 1 1 lab_pages 1 2 stopped stopped 1 min_interval cell_default 0))"
proof -
  obtain r w where r: "task_of asleep_scheduler 1 = Some r" "rn_phase r = Sleeping w" "rn_sub r = lab_pages"
    by (simp add: asleep_scheduler_def lab_pages_def lab_scheduler_simps Let_def secs_of_pos)
  have ok: "sched_ok asleep_scheduler" "\<not> sc_idle asleep_scheduler"
    by (simp_all add: sched_ok_def asleep_scheduler_def lab_pages_def lab_scheduler_simps Let_def)
  obtain ms fin cell1 c1 where p: "poll_round (list_source lab_rows) (\<lambda>_. None) 1 1 lab_pages 1 2 stopped stopped 1
      min_interval cell_default 0 = ((ms, fin), cell1, c1)" by (metis surj_pair)
  obtain t1 ns1 where u: "run_updates (map (Pair 0) (updates_of ms)) (fresh_table, \<lambda>_. None) = (t1, ns1)" by force
  have "fst (stop 1 asleep_scheduler) \<and>
      (\<exists>r1 dirty. task_of (fold sched_step [EStop 1, EClock 1] asleep_scheduler) 1 = Some r1 \<and>
         rn_phase r1 = Cycling dirty \<and> ct_stop (rn_controls r1)) \<and>
      tb_rows t1 = index_rows (take (lo_limit (walk_options (rn_sub r))) lab_rows)"
    by (rule stop_between_cycles_truncates [OF ok(1) r(1,2) _ list_source_served _ _ _ _ _ p [folded r(3)] _ _ _ u])
      (simp_all add: ok r(3) lab_pages_def lab_sub_def sub_list_def key_top_def stopped_def calm_def fresh_table_def comp_def)
  moreover have "lo_limit (walk_options lab_pages) = 2"
    by (simp add: walk_options_def lab_pages_def page_limit_max_def)
  ultimately show ?thesis using u p r(3)
    by (intro exI [of _ ms]) (simp add: lab_rows_def index_rows_def im_of_def lab_row_def)
qed

end
