(* ===== verification/Refresh.thy ===== *)
theory Refresh
  imports Messages
begin

text \<open>
  How often a kind's views poll (\<open>crates/core/src/refresh.rs\<close>), the schedule a config file can
  hold (\<open>Refresh\<close>, \<open>Interval\<close> and \<open>Word\<close> of \<open>crates/config/src/model.rs\<close>), where a value came from
  (\<open>Source\<close> of \<open>crates/core/src/contexts.rs\<close>), the one spelling of a length of time
  (\<open>span\<close> of \<open>crates/core/src/cell.rs\<close>) and the list of rungs (\<open>crates/tui/src/ladder.rs\<close>).
\<close>

section \<open>The spelling of a length of time\<close>

definition span :: "nat \<Rightarrow> string" where
  "span s = (if s < 60 then show_nat s @ ''s''
     else if s < 3600 then show_nat (s div 60) @ ''m''
     else if s < 86400 then show_nat (s div 3600) @ ''h''
     else if s < 31536000 then show_nat (s div 86400) @ ''d''
     else show_nat (s div 31536000) @ ''y'')"

section \<open>What a schedule says\<close>

datatype refresh_word = WAuto | WOff

text \<open>\<open>Secs\<close> holds a \<open>u32\<close>: see \<open>interval_u32\<close>.\<close>

datatype interval = Secs nat | IWord refresh_word

fun interval_u32 :: "interval \<Rightarrow> bool" where
  "interval_u32 (Secs n) \<longleftrightarrow> n \<le> u32_max"
| "interval_u32 (IWord w) \<longleftrightarrow> True"

record refresh_cfg =
  rf_default :: "interval option"
  rf_kinds :: "string \<rightharpoonup> interval"
  rf_namespaces :: "string \<rightharpoonup> interval"

definition refresh_cfg_default :: refresh_cfg where
  "refresh_cfg_default = \<lparr>rf_default = None, rf_kinds = Map.empty, rf_namespaces = Map.empty\<rparr>"

datatype setting_source =
    SDefault
  | SFile
  | SContext string
  | SFlag string
  | SNamespace string
  | SCatalog
  | SSession

fun source_label :: "setting_source \<Rightarrow> string" where
  "source_label SDefault = ''default''"
| "source_label SFile = ''config file''"
| "source_label (SContext name) = ''context '' @ name"
| "source_label (SFlag flag) = flag"
| "source_label (SNamespace ns) = ''namespace '' @ ns"
| "source_label SCatalog = ''catalog''"
| "source_label SSession = ''this session''"

definition ladder :: "interval list" where
  "ladder = [IWord WAuto, Secs 5, Secs 10, Secs 30, Secs 60, Secs 300, Secs 3600, Secs 21600, Secs 43200,
     IWord WOff]"

section \<open>The four levels\<close>

definition catalog_rhythm :: "kind \<Rightarrow> duration" where
  "catalog_rhythm k = max (from_secs (k_poll_secs k)) min_interval"

fun one_level :: "kind \<Rightarrow> interval \<Rightarrow> setting_source \<Rightarrow> duration option \<times> setting_source" where
  "one_level k (IWord WAuto) src = (Some (catalog_rhythm k), SCatalog)"
| "one_level k (IWord WOff) src = (None, src)"
| "one_level k (Secs n) src = (Some (max (from_secs n) min_interval), src)"

definition effective :: "kind \<Rightarrow> refresh_cfg \<Rightarrow> interval option \<Rightarrow> duration option \<times> setting_source" where
  "effective k cfg session = (case session of
       Some v \<Rightarrow> one_level k v SSession
     | None \<Rightarrow> (case rf_kinds cfg (k_id k) of
         Some v \<Rightarrow> one_level k v SFile
       | None \<Rightarrow> (case rf_namespaces cfg (k_namespace k) of
           Some v \<Rightarrow> one_level k v (SNamespace (k_namespace k))
         | None \<Rightarrow> (case rf_default cfg of
             Some v \<Rightarrow> one_level k v SFile
           | None \<Rightarrow> (Some (catalog_rhythm k), SCatalog)))))"

section \<open>Stepping\<close>

fun slower_rung :: "duration \<Rightarrow> interval \<Rightarrow> bool" where
  "slower_rung now (Secs n) \<longleftrightarrow> now < from_secs n"
| "slower_rung now (IWord w) \<longleftrightarrow> False"

definition step_rung :: "duration option \<Rightarrow> interval" where
  "step_rung current = (case current of
       None \<Rightarrow> IWord WAuto
     | Some now \<Rightarrow> (case find (slower_rung now) ladder of Some r \<Rightarrow> r | None \<Rightarrow> IWord WOff))"

fun position :: "('a \<Rightarrow> bool) \<Rightarrow> 'a list \<Rightarrow> nat option" where
  "position P [] = None"
| "position P (x # xs) = (if P x then Some 0 else map_option Suc (position P xs))"

definition rung_at :: "interval option \<Rightarrow> nat" where
  "rung_at current = (case current of None \<Rightarrow> 0
     | Some v \<Rightarrow> (case position (\<lambda>r. r = v) ladder of Some i \<Rightarrow> i | None \<Rightarrow> 0))"

definition step_from :: "interval option \<Rightarrow> interval" where
  "step_from current = ladder ! (Suc (rung_at current) mod length ladder)"

section \<open>Drawing and reading a rung\<close>

fun show_interval :: "interval \<Rightarrow> string" where
  "show_interval (IWord WAuto) = ''auto''"
| "show_interval (IWord WOff) = ''off''"
| "show_interval (Secs n) = span n"

definition not_an_interval :: "string \<Rightarrow> string" where
  "not_an_interval word = debug_str word @ '' is not auto, off, or a length of time like 30s, 5m or 12h''"

definition sat_mul_u32 :: "nat \<Rightarrow> nat \<Rightarrow> nat" where
  "sat_mul_u32 a b = min (a * b) u32_max"

definition split_unit :: "string \<Rightarrow> string \<times> nat" where
  "split_unit word = (case strip_suffix ''h'' word of
       Some d \<Rightarrow> (d, 3600)
     | None \<Rightarrow> (case strip_suffix ''m'' word of
         Some d \<Rightarrow> (d, 60)
       | None \<Rightarrow> ((case strip_suffix ''s'' word of Some d \<Rightarrow> d | None \<Rightarrow> word), 1)))"

definition parse_interval :: "string \<Rightarrow> string + interval" where
  "parse_interval typed =
     (let word = trim typed
      in if word = ''auto'' then Inr (IWord WAuto)
         else if word = ''off'' then Inr (IWord WOff)
         else case split_unit word of (digits, mult) \<Rightarrow>
           (case parse_uint u32_max digits of
              None \<Rightarrow> Inl (not_an_interval word)
            | Some n \<Rightarrow>
                (let secs = sat_mul_u32 n mult
                 in if secs < as_secs min_interval then Inl (show_nat (as_secs min_interval) @ ''s is the floor'')
                    else Inr (Secs secs))))"

text \<open>\<open>u64::div_ceil\<close>.\<close>

definition div_ceil :: "nat \<Rightarrow> nat \<Rightarrow> nat" where
  "div_ceil a b = (a + b - 1) div b"

definition watch_interval :: "rate_limit \<Rightarrow> duration" where
  "watch_interval r = from_secs (max (div_ceil (4 * max (rl_per_secs r) 1) (max (rl_count r) 1)) 1)"

section \<open>The list of rungs\<close>

text \<open>\<open>Key\<close> of \<open>crates/tui/src/key.rs\<close>.\<close>

datatype key =
    KChar char
  | KCtrl char
  | KEnter
  | KEsc
  | KBackspace
  | KTab
  | KBackTab
  | KUp
  | KDown
  | KPageUp
  | KPageDown
  | KHome
  | KEnd
  | KLeft
  | KRight

datatype schedule_level = LEverything | LNamespace string | LKind string

datatype ladder_action = LMoved | LChose interval | LCancelled | LIgnored

record ladder_list =
  ll_at :: schedule_level
  ll_label :: string
  ll_current :: "interval option"
  ll_selected :: nat

definition ladder_open :: "schedule_level \<Rightarrow> string \<Rightarrow> interval option \<Rightarrow> ladder_list" where
  "ladder_open at_level label current =
     \<lparr>ll_at = at_level, ll_label = label, ll_current = current, ll_selected = rung_at current\<rparr>"

definition ladder_key :: "key \<Rightarrow> ladder_list \<Rightarrow> ladder_action \<times> ladder_list" where
  "ladder_key k l =
     (let bottom = length ladder - 1
      in if k = KEsc then (LCancelled, l)
         else if k \<in> {KDown, KTab, KChar CHR ''j''} then (LMoved, l\<lparr>ll_selected := min (ll_selected l + 1) bottom\<rparr>)
         else if k \<in> {KUp, KBackTab, KChar CHR ''k''} then (LMoved, l\<lparr>ll_selected := ll_selected l - 1\<rparr>)
         else if k \<in> {KChar CHR ''g'', KHome} then (LMoved, l\<lparr>ll_selected := 0\<rparr>)
         else if k \<in> {KChar CHR ''G'', KEnd} then (LMoved, l\<lparr>ll_selected := bottom\<rparr>)
         else if k \<in> {KEnter, KChar CHR '' ''} then (LChose (ladder ! min (ll_selected l) bottom), l)
         else (LIgnored, l))"

definition ladder_rows :: "ladder_list \<Rightarrow> (string \<times> bool) list" where
  "ladder_rows l = map (\<lambda>r. (show_interval r, Some r = ll_current l)) ladder"

section \<open>Properties\<close>

lemma rung_at_less: "rung_at c < length ladder"
proof -
  have "position P xs = Some i \<Longrightarrow> i < length xs" for P :: "interval \<Rightarrow> bool" and xs i
    by (induction xs arbitrary: i) (auto split: if_splits)
  then show ?thesis
    by (auto simp: rung_at_def ladder_def split: option.splits)
qed

lemma rung_at_self: "v \<in> set ladder \<Longrightarrow> ladder ! rung_at (Some v) = v"
  by (auto simp: rung_at_def ladder_def)

lemma one_level_floor: "fst (one_level k v src) = Some d \<Longrightarrow> min_interval \<le> d"
  by (induction k v src rule: one_level.induct) (auto simp: catalog_rhythm_def)

lemma effective_floor: "fst (effective k cfg session) = Some d \<Longrightarrow> min_interval \<le> d"
  by (auto simp: effective_def catalog_rhythm_def dest: one_level_floor split: option.splits)

text \<open>Digits, and what follows them.\<close>

lemma show_nat_digits: "c \<in> set (show_nat n) \<Longrightarrow> digit_val c \<noteq> None"
proof (induction n rule: show_nat.induct)
  case (1 n)
  then show ?case
    by (subst (asm) show_nat.simps) (auto simp: digit_val_digit_char split: if_splits)
qed

lemma digit_graphic: "digit_val c \<noteq> None \<Longrightarrow> graphic c"
  by (auto simp: digit_val_def graphic_def Let_def split: if_splits)

lemma trim_span: "graphic u \<Longrightarrow> trim (show_nat n @ [u]) = show_nat n @ [u]"
  using show_nat_digits [of "hd (show_nat n)" n] digit_graphic [of "hd (show_nat n)"]
  by (intro trim_graphic) (auto simp: hd_append)

lemma show_nat_not_word:
  "show_nat n @ xs \<noteq> ''auto''" "show_nat n @ xs \<noteq> ''off''"
  using show_nat_digits [of "hd (show_nat n)" n]
  by (cases "show_nat n"; auto simp: digit_val_def)+

lemma strip_suffix_snoc: "strip_suffix [c] (xs @ [u]) = (if c = u then Some xs else None)"
  by (simp add: strip_suffix_def suffix_def)

lemma parse_uint_unit:
  assumes u: "digit_val u = None"
  shows "parse_uint hi (show_nat n @ [u]) = None"
proof -
  have "parse_digits 0 (show_nat n @ [u]) = None"
    using u by (simp add: parse_digits_append parse_digits_show_nat)
  then show ?thesis
    using show_nat_no_plus [of n] show_nat_nonempty [of n]
    by (cases "show_nat n") (auto simp: parse_uint_def Let_def simp del: parse_digits.simps)
qed

text \<open>What reading a drawn length of time gives: whole minutes and hours, and nothing past a day.\<close>

definition read_back :: "nat \<Rightarrow> nat" where
  "read_back n = (if n < 60 then n else if n < 3600 then n - n mod 60 else n - n mod 3600)"

lemma parse_unit:
  assumes "graphic u" and "n \<le> u32_max" and "split_unit (show_nat n @ [u]) = (show_nat n, m)"
  shows "parse_interval (show_nat n @ [u]) =
    (if sat_mul_u32 n m = 0 then Inl ''1s is the floor'' else Inr (Secs (sat_mul_u32 n m)))"
proof -
  have "show_nat 1 = ''1''" by code_simp
  then show ?thesis
    using assms by (simp add: parse_interval_def Let_def trim_span show_nat_not_word parse_show_nat
        min_interval_def)
qed

lemma split_units:
  "split_unit (xs @ ''s'') = (xs, 1)" "split_unit (xs @ ''m'') = (xs, 60)" "split_unit (xs @ ''h'') = (xs, 3600)"
  by (simp_all add: split_unit_def strip_suffix_snoc)

lemma whole_units:
  assumes "0 < u" and "u \<le> n" and "n < 86400"
  shows "sat_mul_u32 (n div u) u = n - n mod u" and "n div u \<le> u32_max" and "n - n mod u \<noteq> 0"
proof -
  have "n div u * u \<le> u32_max"
    using assms(3) div_times_less_eq_dividend [of n u] unfolding u32_max_def by linarith
  then show "sat_mul_u32 (n div u) u = n - n mod u"
    using minus_mod_eq_div_mult [of n u] by (simp add: sat_mul_u32_def)
  show "n div u \<le> u32_max"
    using assms(3) div_le_dividend [of n u] unfolding u32_max_def by linarith
  have "0 < n div u * u" using assms by (simp add: div_greater_zero_iff)
  then show "n - n mod u \<noteq> 0" by (simp add: minus_mod_eq_div_mult)
qed

lemma parse_span:
  assumes "n < 86400"
  shows "parse_interval (span n) = (if n = 0 then Inl ''1s is the floor'' else Inr (Secs (read_back n)))"
proof -
  have g: "graphic CHR ''s''" "graphic CHR ''m''" "graphic CHR ''h''" by (simp_all add: graphic_def)
  consider "n < 60" | "60 \<le> n" "n < 3600" | "3600 \<le> n" by linarith
  then show ?thesis
  proof cases
    case 1
    then show ?thesis
      using parse_unit [OF g(1), of n 1] split_units(1) by (simp add: span_def read_back_def u32_max_def sat_mul_u32_def)
  next
    case 2
    then show ?thesis
      using parse_unit [OF g(2), of "n div 60" 60] split_units(2) whole_units [of 60 n]
      by (simp add: span_def read_back_def)
  next
    case 3
    then show ?thesis
      using assms parse_unit [OF g(3), of "n div 3600" 3600] split_units(3) whole_units [of 3600 n]
      by (simp add: span_def read_back_def)
  qed
qed

lemma parse_long_span:
  assumes "86400 \<le> n"
  shows "parse_interval (span n) = Inl (not_an_interval (span n))"
proof -
  have u: "digit_val CHR ''d'' = None" "digit_val CHR ''y'' = None" "graphic CHR ''d''" "graphic CHR ''y''"
    by (simp_all add: digit_val_def graphic_def)
  have "parse_interval (show_nat k @ [c]) = Inl (not_an_interval (show_nat k @ [c]))"
    if "c = CHR ''d'' \<or> c = CHR ''y''" for k c
    using that u by (auto simp: parse_interval_def Let_def trim_span show_nat_not_word split_unit_def
        strip_suffix_snoc parse_uint_unit)
  then show ?thesis using assms by (auto simp: span_def)
qed

text \<open>C0: Any schedule drawn on a screen, typed back at the palette, reads as itself when it is a word, a number of
  seconds under a minute, of whole minutes under an hour or of whole hours under a day; in general it reads as the
  drawn value, which loses less than the unit it is drawn in; zero is refused for the floor, and a schedule of a day
  or more - which a config file can hold and \<open>24h\<close> can type - is drawn in days or years and refused.\<close>

theorem shown_schedules_read_back:
  "parse_interval (show_interval v) = (case v of
       IWord w \<Rightarrow> Inr (IWord w)
     | Secs n \<Rightarrow> if n = 0 then Inl ''1s is the floor''
         else if n < 60 then Inr (Secs n)
         else if n < 3600 then Inr (Secs (n - n mod 60))
         else if n < 86400 then Inr (Secs (n - n mod 3600))
         else Inl (not_an_interval (span n)))"
proof (cases v)
  case (Secs n)
  then show ?thesis
    using parse_span [of n] parse_long_span [of n] by (auto simp: read_back_def)
next
  case (IWord w)
  have "trim ''auto'' = ''auto''" "trim ''off'' = ''off''"
    by (rule trim_graphic; simp add: graphic_def)+
  then show ?thesis using IWord by (cases w) (auto simp: parse_interval_def)
qed


text \<open>The level a schedule is read from: the highest that says anything.\<close>

definition levels :: "kind \<Rightarrow> refresh_cfg \<Rightarrow> interval option \<Rightarrow> (interval \<times> setting_source) list" where
  "levels k cfg session =
     (case session of Some v \<Rightarrow> [(v, SSession)] | None \<Rightarrow> []) @
     (case rf_kinds cfg (k_id k) of Some v \<Rightarrow> [(v, SFile)] | None \<Rightarrow> []) @
     (case rf_namespaces cfg (k_namespace k) of Some v \<Rightarrow> [(v, SNamespace (k_namespace k))] | None \<Rightarrow> []) @
     (case rf_default cfg of Some v \<Rightarrow> [(v, SFile)] | None \<Rightarrow> []) @ [(IWord WAuto, SCatalog)]"

text \<open>C0: How often a kind polls is decided by the highest level that says anything - the session, the kind's own
  entry, its namespace's, the default, the catalog - and by that level alone: \<open>off\<close> there is no schedule whatever is
  below, \<open>auto\<close> is the catalog's rhythm and is attributed to the catalog, and a number is never under the floor.\<close>

theorem highest_level_decides:
  "effective k cfg session = (case levels k cfg session of
       (IWord WAuto, _) # _ \<Rightarrow> (Some (catalog_rhythm k), SCatalog)
     | (IWord WOff, src) # _ \<Rightarrow> (None, src)
     | (Secs n, src) # _ \<Rightarrow> (Some (max (from_secs n) min_interval), src))"
proof -
  have "one_level k v src = (case v of IWord WAuto \<Rightarrow> (Some (catalog_rhythm k), SCatalog) | IWord WOff \<Rightarrow> (None, src)
      | Secs n \<Rightarrow> (Some (max (from_secs n) min_interval), src))" for v src
    by (induction k v src rule: one_level.induct) auto
  then show ?thesis by (simp add: effective_def levels_def split: option.split)
qed

end
