(* ===== verification/Retime.thy ===== *)
theory Retime
  imports Refresh Scheduler
begin

text \<open>
  The schedule as the application holds it: the config file behind the \<open>Contexts\<close> seam
  (\<open>set_interval\<close> and \<open>refresh\<close> of \<open>src/contexts.rs\<close>), the session's overrides, and every writer
  of either (\<open>crates/tui/src/app/settings.rs\<close>): \<open>ctrl-t\<close>, \<open>:refresh\<close>, the settings screen's rows.
  Each writer retimes the pollers of the kinds it touched, on the session's scheduler and on the
  joined contexts'. The redraw of the settings screen is not state of this part.
\<close>

section \<open>The file\<close>

text \<open>\<open>None\<close>: the file cannot be read. \<open>df_saves\<close> answers a write.\<close>

record disk_file =
  df_refresh :: "refresh_cfg option"
  df_saves :: "string option"
  df_read_error :: string

definition store_interval :: "schedule_level \<Rightarrow> interval \<Rightarrow> disk_file \<Rightarrow> string option \<times> disk_file" where
  "store_interval level every d = (case df_refresh d of
       None \<Rightarrow> (Some (df_read_error d), d)
     | Some r \<Rightarrow>
         (let r' = (case level of
              LKind i \<Rightarrow> r\<lparr>rf_kinds := (rf_kinds r)(i \<mapsto> every)\<rparr>
            | LNamespace ns \<Rightarrow> r\<lparr>rf_namespaces := (rf_namespaces r)(ns \<mapsto> every)\<rparr>
            | LEverything \<Rightarrow> r\<lparr>rf_default := Some every\<rparr>)
          in case df_saves d of
               Some e \<Rightarrow> (Some e, d)
             | None \<Rightarrow> (None, d\<lparr>df_refresh := Some r'\<rparr>)))"

definition stored_refresh :: "disk_file \<Rightarrow> refresh_cfg" where
  "stored_refresh d = (case df_refresh d of Some r \<Rightarrow> r | None \<Rightarrow> refresh_cfg_default)"

section \<open>The application\<close>

text \<open>\<open>ar_schedulers\<close>: the session's, then the peers'; empty when there is no session.\<close>

record app_refresh =
  ar_disk :: disk_file
  ar_cfg :: refresh_cfg
  ar_session :: "string \<rightharpoonup> interval"
  ar_schedulers :: "scheduler list"
  ar_status :: "string option"

definition refresh_of :: "app_refresh \<Rightarrow> kind \<Rightarrow> duration option \<times> setting_source" where
  "refresh_of a k = effective k (ar_cfg a) (ar_session a (k_id k))"

definition retime_kind :: "kind \<Rightarrow> app_refresh \<Rightarrow> app_refresh" where
  "retime_kind k a =
     a\<lparr>ar_schedulers := map (\<lambda>sc. snd (set_interval_kind (k_id k) (fst (refresh_of a k)) sc)) (ar_schedulers a)\<rparr>"

text \<open>The middle dot of the flash is two bytes.\<close>

definition middle_dot :: string where
  "middle_dot = [CHR 0xC2, CHR 0xB7]"

definition flash :: "duration option \<Rightarrow> string" where
  "flash every = (case every of
       Some d \<Rightarrow> ''refresh: every '' @ span (as_secs d) @ '' '' @ middle_dot @ '' :refresh '' @ show_nat (as_secs d)
         @ '' to keep it''
     | None \<Rightarrow> ''refresh: off '' @ middle_dot @ '' ^r still refreshes once'')"

definition step_refresh :: "kind \<Rightarrow> app_refresh \<Rightarrow> app_refresh" where
  "step_refresh k a =
     (let a1 = a\<lparr>ar_session := (ar_session a)(k_id k \<mapsto> step_rung (fst (refresh_of a k)))\<rparr>
      in (retime_kind k a1)\<lparr>ar_status := Some (flash (fst (refresh_of a1 k)))\<rparr>)"

text \<open>Without an argument the palette opens instead, which changes nothing here.\<close>

definition refresh_command :: "kind \<Rightarrow> string list \<Rightarrow> app_refresh \<Rightarrow> app_refresh" where
  "refresh_command k args a = (case args of
       [] \<Rightarrow> a
     | w # _ \<Rightarrow> (case parse_interval w of
         Inl why \<Rightarrow> a\<lparr>ar_status := Some (''refresh: '' @ why)\<rparr>
       | Inr v \<Rightarrow>
           (let a1 = a\<lparr>ar_session := (ar_session a)(k_id k := None)\<rparr>
            in retime_kind k (case store_interval (LKind (k_id k)) v (ar_disk a1) of
                (None, d) \<Rightarrow> a1\<lparr>ar_disk := d, ar_cfg := stored_refresh d,
                   ar_status := Some (''refresh: '' @ show_interval v @ '' kept for '' @ k_display k)\<rparr>
              | (Some e, d) \<Rightarrow> a1\<lparr>ar_disk := d, ar_status := Some (''refresh not saved: '' @ e)\<rparr>))))"

fun level_covers :: "schedule_level \<Rightarrow> kind \<Rightarrow> bool" where
  "level_covers LEverything k \<longleftrightarrow> True"
| "level_covers (LNamespace ns) k \<longleftrightarrow> k_namespace k = ns"
| "level_covers (LKind i) k \<longleftrightarrow> k_id k = i"

definition set_schedule :: "kind list \<Rightarrow> schedule_level \<Rightarrow> interval \<Rightarrow> app_refresh \<Rightarrow> app_refresh" where
  "set_schedule kinds level v a =
     (let a1 = (case level of LKind i \<Rightarrow> a\<lparr>ar_session := (ar_session a)(i := None)\<rparr> | _ \<Rightarrow> a);
          a2 = (case store_interval level v (ar_disk a1) of
              (None, d) \<Rightarrow> a1\<lparr>ar_disk := d, ar_cfg := stored_refresh d,
                ar_status := Some (case level of
                    LNamespace ns \<Rightarrow> ns @ '': '' @ show_interval v
                  | _ \<Rightarrow> ''refresh: '' @ show_interval v)\<rparr>
            | (Some e, d) \<Rightarrow> a1\<lparr>ar_disk := d, ar_status := Some (''refresh not saved: '' @ e)\<rparr>)
      in fold retime_kind (filter (level_covers level) kinds) a2)"

text \<open>\<open>space\<close> on a row of the settings screen.\<close>

datatype cycled_row = RowNamespace string | RowKind kind | RowDefault

definition cycle_row :: "kind list \<Rightarrow> cycled_row \<Rightarrow> app_refresh \<Rightarrow> app_refresh" where
  "cycle_row kinds row a = (case row of
       RowNamespace ns \<Rightarrow> set_schedule kinds (LNamespace ns)
         (step_from (case rf_namespaces (ar_cfg a) ns of Some v \<Rightarrow> Some v | None \<Rightarrow> rf_default (ar_cfg a))) a
     | RowKind k \<Rightarrow> set_schedule kinds (LKind (k_id k)) (step_rung (fst (refresh_of a k))) a
     | RowDefault \<Rightarrow> set_schedule kinds LEverything (step_from (rf_default (ar_cfg a))) a)"

text \<open>
  \<open>push_view\<close> and \<open>subscribe_peers\<close> of \<open>crates/tui/src/app.rs\<close>: the subscription a table view
  opens, on one of the schedulers.
\<close>

definition view_subscription :: "table_key \<Rightarrow> subscription" where
  "view_subscription key = sub_list key (from_secs (max (k_poll_secs (tk_kind key)) 1))"

definition open_view :: "nat \<Rightarrow> table_key \<Rightarrow> app_refresh \<Rightarrow> app_refresh" where
  "open_view n key a = a\<lparr>ar_schedulers := (ar_schedulers a)[n := snd (subscribe (view_subscription key) (ar_schedulers a ! n))]\<rparr>"

section \<open>The pollers and the schedule\<close>

definition every_secs :: "duration option \<Rightarrow> nat" where
  "every_secs every = (case every of None \<Rightarrow> 0 | Some d \<Rightarrow> secs_of d)"

text \<open>Every pausable poller over a kind of the catalog polls as the schedule says.\<close>

definition task_in_step :: "kind list \<Rightarrow> app_refresh \<Rightarrow> running \<Rightarrow> bool" where
  "task_in_step kinds a r \<longleftrightarrow> (\<forall>k \<in> set kinds. su_pausable (rn_sub r) \<and> task_kind r = k_id k \<longrightarrow>
     ct_interval (rn_controls r) = every_secs (fst (refresh_of a k)))"

definition in_step :: "kind list \<Rightarrow> app_refresh \<Rightarrow> bool" where
  "in_step kinds a \<longleftrightarrow> (\<forall>sc \<in> set (ar_schedulers a). \<forall>(i, r) \<in> set (sc_tasks sc). task_in_step kinds a r)"

text \<open>The application's copy of the schedule is the file's.\<close>

definition copy_current :: "app_refresh \<Rightarrow> bool" where
  "copy_current a \<longleftrightarrow> df_refresh (ar_disk a) = Some (ar_cfg a)"

lemma retimed_frame [simp]:
  "rn_sub (retimed every r) = rn_sub r" "task_kind (retimed every r) = task_kind r"
  "ct_interval (rn_controls (retimed every r)) = every_secs every"
  by (auto simp: retimed_def upd_controls_def task_kind_def every_secs_def Let_def split: option.split)

lemma refresh_of_retime [simp]: "refresh_of (retime_kind k' a) k = refresh_of a k"
  by (simp add: refresh_of_def retime_kind_def)

lemma refresh_of_status [simp]: "refresh_of (a\<lparr>ar_status := s\<rparr>) k = refresh_of a k"
  by (simp add: refresh_of_def)

lemma retime_kind_frame [simp]:
  "ar_disk (retime_kind k a) = ar_disk a" "ar_cfg (retime_kind k a) = ar_cfg a"
  "ar_session (retime_kind k a) = ar_session a" "ar_status (retime_kind k a) = ar_status a"
  by (simp_all add: retime_kind_def)

text \<open>A poller whose kind is not retimed must already be in step with the schedule as it now is.\<close>

definition stale_only :: "kind list \<Rightarrow> (kind \<Rightarrow> bool) \<Rightarrow> app_refresh \<Rightarrow> bool" where
  "stale_only kinds Q a \<longleftrightarrow> (\<forall>sc \<in> set (ar_schedulers a). \<forall>(i, r) \<in> set (sc_tasks sc).
     \<forall>k \<in> set kinds. \<not> Q k \<longrightarrow> su_pausable (rn_sub r) \<and> task_kind r = k_id k \<longrightarrow>
       ct_interval (rn_controls r) = every_secs (fst (refresh_of a k)))"

lemma stale_only_none: "stale_only kinds (\<lambda>_. False) a \<longleftrightarrow> in_step kinds a"
  by (fastforce simp: stale_only_def in_step_def task_in_step_def)

lemma retime_kind_tasks:
  "sc \<in> set (ar_schedulers (retime_kind k a)) \<Longrightarrow> (i, r) \<in> set (sc_tasks sc) \<Longrightarrow>
    \<exists>sc0 \<in> set (ar_schedulers a). \<exists>r0. (i, r0) \<in> set (sc_tasks sc0) \<and>
      r = (if task_kind r0 = k_id k \<and> su_pausable (rn_sub r0) then retimed (fst (refresh_of a k)) r0 else r0)"
  by (fastforce simp: retime_kind_def set_interval_kind_def upd_tasks_def Let_def)

lemma retime_one:
  assumes stale: "stale_only kinds Q a" and ids: "inj_on k_id (set kinds)" and k: "k \<in> set kinds"
  shows "stale_only kinds (\<lambda>k'. Q k' \<and> k' \<noteq> k) (retime_kind k a)"
proof -
  have "ct_interval (rn_controls r) = every_secs (fst (refresh_of (retime_kind k a) k'))"
    if sc: "sc \<in> set (ar_schedulers (retime_kind k a))" and r: "(i, r) \<in> set (sc_tasks sc)"
      and k': "k' \<in> set kinds" "\<not> (Q k' \<and> k' \<noteq> k)" and t: "su_pausable (rn_sub r)" "task_kind r = k_id k'"
    for sc i r k'
  proof -
    obtain sc0 r0 where r0: "sc0 \<in> set (ar_schedulers a)" "(i, r0) \<in> set (sc_tasks sc0)"
      and e: "r = (if task_kind r0 = k_id k \<and> su_pausable (rn_sub r0) then retimed (fst (refresh_of a k)) r0 else r0)"
      using retime_kind_tasks [OF sc r] by blast
    have t0: "su_pausable (rn_sub r0)" "task_kind r0 = k_id k'" using t e by (auto split: if_splits)
    show ?thesis
    proof (cases "k' = k")
      case True
      then show ?thesis using e t0 by simp
    next
      case False
      then have "k_id k' \<noteq> k_id k" using ids k k'(1) by (auto dest: inj_onD)
      moreover have "\<not> Q k'" using False k'(2) by simp
      ultimately show ?thesis using stale r0 k'(1) e t0 by (fastforce simp: stale_only_def)
    qed
  qed
  then show ?thesis by (fastforce simp: stale_only_def)
qed

lemma retime_all:
  "stale_only kinds Q a \<Longrightarrow> inj_on k_id (set kinds) \<Longrightarrow> set ks \<subseteq> set kinds \<Longrightarrow>
    stale_only kinds (\<lambda>k. Q k \<and> k \<notin> set ks) (fold retime_kind ks a)"
proof (induction ks arbitrary: a Q)
  case (Cons k ks)
  have "stale_only kinds (\<lambda>k'. (Q k' \<and> k' \<noteq> k) \<and> k' \<notin> set ks) (fold retime_kind ks (retime_kind k a))"
    using Cons.prems by (intro Cons.IH retime_one) auto
  then show ?case by (simp add: conj_ac cong: conj_cong)
qed simp

section \<open>Every writer keeps the pollers in step\<close>

text \<open>What the writers do to the schedule of a kind the written level does not cover.\<close>

lemma store_interval_uncovered:
  assumes "store_interval level v d = (None, d')" and "df_refresh d = Some cfg" and "\<not> level_covers level k"
  shows "effective k (stored_refresh d') session = effective k cfg session"
proof -
  have "df_saves d = None"
    using assms(1,2) by (cases "df_saves d") (simp_all add: store_interval_def Let_def)
  then have "stored_refresh d' = (case level of
      LKind i \<Rightarrow> cfg\<lparr>rf_kinds := (rf_kinds cfg)(i \<mapsto> v)\<rparr>
    | LNamespace ns \<Rightarrow> cfg\<lparr>rf_namespaces := (rf_namespaces cfg)(ns \<mapsto> v)\<rparr>
    | LEverything \<Rightarrow> cfg\<lparr>rf_default := Some v\<rparr>)"
    using assms(1,2) by (cases level) (auto simp: store_interval_def stored_refresh_def Let_def)
  then show ?thesis using assms(3) by (cases level) (auto simp: effective_def split: option.split)
qed

lemma store_interval_saved:
  "store_interval level v d = (None, d') \<Longrightarrow> df_refresh d' = Some (stored_refresh d')"
  by (auto simp: store_interval_def stored_refresh_def Let_def split: option.splits)

lemma store_interval_failed: "store_interval level v d = (Some e, d') \<Longrightarrow> d' = d"
  by (auto simp: store_interval_def Let_def split: option.splits)

text \<open>A change that leaves the schedulers alone and the schedule of every kind outside \<open>Q\<close>.\<close>

lemma stale_only_change:
  assumes "in_step kinds a" and "ar_schedulers a' = ar_schedulers a"
    and "\<And>k. k \<in> set kinds \<Longrightarrow> \<not> Q k \<Longrightarrow> fst (refresh_of a' k) = fst (refresh_of a k)"
  shows "stale_only kinds Q a'"
  using assms unfolding stale_only_def in_step_def task_in_step_def by fastforce

lemma fold_retime_frame [simp]:
  "ar_disk (fold retime_kind ks a) = ar_disk a" "ar_cfg (fold retime_kind ks a) = ar_cfg a"
  by (induction ks arbitrary: a) auto

definition rewritten :: "schedule_level \<Rightarrow> interval \<Rightarrow> app_refresh \<Rightarrow> app_refresh \<Rightarrow> bool" where
  "rewritten level v a a' \<longleftrightarrow> ar_schedulers a' = ar_schedulers a \<and> copy_current a' \<and>
     (\<forall>k. \<not> level_covers level k \<longrightarrow> refresh_of a' k = refresh_of a k)"

lemma rewritten_after_store:
  assumes cur: "copy_current a" and a1: "ar_schedulers a1 = ar_schedulers a" "ar_cfg a1 = ar_cfg a" "ar_disk a1 = ar_disk a"
    and sess: "\<And>k. \<not> level_covers level k \<Longrightarrow> ar_session a1 (k_id k) = ar_session a (k_id k)"
    and st: "store_interval level v (ar_disk a1) = (saved, d)"
  shows "rewritten level v a (case saved of
      None \<Rightarrow> a1\<lparr>ar_disk := d, ar_cfg := stored_refresh d, ar_status := s1\<rparr>
    | Some e \<Rightarrow> a1\<lparr>ar_disk := d, ar_status := s2 e\<rparr>)"
proof (cases saved)
  case None
  then show ?thesis
    using assms store_interval_saved [of level v "ar_disk a1" d]
      store_interval_uncovered [of level v "ar_disk a1" d "ar_cfg a"]
    by (auto simp: rewritten_def copy_current_def refresh_of_def)
next
  case (Some e)
  then show ?thesis
    using assms store_interval_failed [of level v "ar_disk a1" e d]
    by (auto simp: rewritten_def copy_current_def refresh_of_def)
qed

lemma retimed_after_rewrite:
  assumes "in_step kinds a" and "rewritten level v a a'" and "inj_on k_id (set kinds)"
    and "set ks \<subseteq> set kinds" and "\<And>k. k \<in> set kinds \<Longrightarrow> level_covers level k \<Longrightarrow> k \<in> set ks"
  shows "in_step kinds (fold retime_kind ks a') \<and> copy_current (fold retime_kind ks a')"
proof -
  have u: "refresh_of a' k = refresh_of a k" if "k \<in> set kinds" "k \<notin> set ks" for k
    using assms(2) assms(5) [OF that(1)] that(2) unfolding rewritten_def by blast
  have "stale_only kinds (\<lambda>k. k \<in> set ks) a'"
    using assms(1,2) u by (intro stale_only_change [of kinds a]) (simp_all add: rewritten_def)
  from retime_all [OF this assms(3,4)] have "stale_only kinds (\<lambda>_. False) (fold retime_kind ks a')" by simp
  then show ?thesis using assms(2) by (simp add: stale_only_none rewritten_def copy_current_def)
qed

lemma set_schedule_in_step:
  assumes "in_step kinds a" and "copy_current a" and "inj_on k_id (set kinds)"
  shows "in_step kinds (set_schedule kinds level v a) \<and> copy_current (set_schedule kinds level v a)"
proof -
  let ?a1 = "case level of LKind i \<Rightarrow> a\<lparr>ar_session := (ar_session a)(i := None)\<rparr> | _ \<Rightarrow> a"
  obtain saved d where st: "store_interval level v (ar_disk ?a1) = (saved, d)" by force
  have "rewritten level v a (case saved of
      None \<Rightarrow> ?a1\<lparr>ar_disk := d, ar_cfg := stored_refresh d,
        ar_status := Some (case level of LNamespace ns \<Rightarrow> ns @ '': '' @ show_interval v
                  | _ \<Rightarrow> ''refresh: '' @ show_interval v)\<rparr>
    | Some e \<Rightarrow> ?a1\<lparr>ar_disk := d, ar_status := Some (''refresh not saved: '' @ e)\<rparr>)"
    by (rule rewritten_after_store [OF assms(2) _ _ _ _ st]) (auto split: schedule_level.split)
  from retimed_after_rewrite [OF assms(1) this assms(3), of "filter (level_covers level) kinds"]
  show ?thesis using st by (cases saved) (auto simp: set_schedule_def Let_def)
qed

lemma refresh_command_in_step:
  assumes "in_step kinds a" and "copy_current a" and "inj_on k_id (set kinds)" and k: "k \<in> set kinds"
  shows "in_step kinds (refresh_command k args a) \<and> copy_current (refresh_command k args a)"
proof (cases "\<exists>w ws v. args = w # ws \<and> parse_interval w = Inr v")
  case True
  then obtain w ws v where w: "args = w # ws" "parse_interval w = Inr v" by blast
  let ?a1 = "a\<lparr>ar_session := (ar_session a)(k_id k := None)\<rparr>"
  obtain saved d where st: "store_interval (LKind (k_id k)) v (ar_disk ?a1) = (saved, d)" by force
  have "rewritten (LKind (k_id k)) v a (case saved of
      None \<Rightarrow> ?a1\<lparr>ar_disk := d, ar_cfg := stored_refresh d,
        ar_status := Some (''refresh: '' @ show_interval v @ '' kept for '' @ k_display k)\<rparr>
    | Some e \<Rightarrow> ?a1\<lparr>ar_disk := d, ar_status := Some (''refresh not saved: '' @ e)\<rparr>)"
    by (rule rewritten_after_store [OF assms(2) _ _ _ _ st]) auto
  from retimed_after_rewrite [OF assms(1) this assms(3), of "[k]"]
  show ?thesis using st w k inj_onD [OF assms(3)] by (cases saved) (auto simp: refresh_command_def Let_def)
next
  case False
  then show ?thesis
    using assms(1,2)
    by (auto simp: refresh_command_def in_step_def task_in_step_def copy_current_def refresh_of_def
        split: list.split sum.split)
qed

lemma step_refresh_in_step:
  assumes "in_step kinds a" and "copy_current a" and "inj_on k_id (set kinds)" and k: "k \<in> set kinds"
  shows "in_step kinds (step_refresh k a) \<and> copy_current (step_refresh k a)"
proof -
  let ?a1 = "a\<lparr>ar_session := (ar_session a)(k_id k \<mapsto> step_rung (fst (refresh_of a k)))\<rparr>"
  have "rewritten (LKind (k_id k)) (IWord WAuto) a ?a1"
    using assms(2) by (auto simp: rewritten_def copy_current_def refresh_of_def)
  from retimed_after_rewrite [OF assms(1) this assms(3), of "[k]"]
  have "in_step kinds (retime_kind k ?a1) \<and> copy_current (retime_kind k ?a1)"
    using k inj_onD [OF assms(3)] by auto
  then show ?thesis
    by (auto simp: step_refresh_def Let_def in_step_def task_in_step_def copy_current_def refresh_of_def)
qed

datatype schedule_change =
    CtrlT kind
  | RefreshVerb kind "string list"
  | ChoseRung schedule_level interval
  | CycledRow cycled_row

fun apply_change :: "kind list \<Rightarrow> schedule_change \<Rightarrow> app_refresh \<Rightarrow> app_refresh" where
  "apply_change kinds (CtrlT k) = step_refresh k"
| "apply_change kinds (RefreshVerb k args) = refresh_command k args"
| "apply_change kinds (ChoseRung level v) = set_schedule kinds level v"
| "apply_change kinds (CycledRow row) = cycle_row kinds row"

fun over_kinds :: "kind list \<Rightarrow> schedule_change \<Rightarrow> bool" where
  "over_kinds kinds (CtrlT k) \<longleftrightarrow> k \<in> set kinds"
| "over_kinds kinds (RefreshVerb k args) \<longleftrightarrow> k \<in> set kinds"
| "over_kinds kinds _ \<longleftrightarrow> True"

lemma apply_change_in_step:
  assumes "in_step kinds a" and "copy_current a" and "inj_on k_id (set kinds)" and "over_kinds kinds c"
  shows "in_step kinds (apply_change kinds c a) \<and> copy_current (apply_change kinds c a)"
  using assms step_refresh_in_step refresh_command_in_step set_schedule_in_step
  by (cases c) (auto simp: cycle_row_def split: cycled_row.split)

text \<open>C0: Whatever sequence of \<open>ctrl-t\<close> presses, \<open>:refresh\<close> commands, rungs chosen and rows cycled a session makes,
  whether or not each write reaches the file, every pausable poller of the session and of its joined contexts polls
  at the interval the screens attribute to its kind, and the schedule in memory stays the file's.\<close>

theorem pollers_follow_the_schedule:
  assumes "in_step kinds a" and "copy_current a" and "inj_on k_id (set kinds)" and "\<forall>c \<in> set cs. over_kinds kinds c"
  shows "in_step kinds (fold (apply_change kinds) cs a) \<and> copy_current (fold (apply_change kinds) cs a)"
  using assms
proof (induction cs arbitrary: a)
  case (Cons c cs)
  then show ?case using apply_change_in_step [of kinds a c] by simp
qed simp

section \<open>Walking down the ladder\<close>

text \<open>The override each of \<open>n\<close> presses of \<open>ctrl-t\<close> leaves.\<close>

fun presses :: "nat \<Rightarrow> kind \<Rightarrow> app_refresh \<Rightarrow> interval option list" where
  "presses 0 k a = []"
| "presses (Suc n) k a = (let a' = step_refresh k a in ar_session a' (k_id k) # presses n k a')"

fun rungs_from :: "nat \<Rightarrow> kind \<Rightarrow> duration option \<Rightarrow> interval list" where
  "rungs_from 0 k every = []"
| "rungs_from (Suc n) k every =
     step_rung every # rungs_from n k (fst (one_level k (step_rung every) SSession))"

lemma step_refresh_session:
  "ar_session (step_refresh k a) (k_id k) = Some (step_rung (fst (refresh_of a k)))"
  "refresh_of (step_refresh k a) k = one_level k (step_rung (fst (refresh_of a k))) SSession"
  by (simp_all add: step_refresh_def Let_def) (simp add: refresh_of_def effective_def)

lemma presses_rungs: "presses n k a = map Some (rungs_from n k (fst (refresh_of a k)))"
  by (induction n arbitrary: a) (simp_all add: Let_def step_refresh_session)

definition slower_rungs :: "duration \<Rightarrow> interval list" where
  "slower_rungs c = filter (slower_rung c) ladder"

lemma rungs_from_rhythm:
  assumes "catalog_rhythm k = c"
  shows "rungs_from (length (slower_rungs c) + 2) k (Some c) = slower_rungs c @ [IWord WOff, IWord WAuto]"
proof -
  consider "c < from_secs 5" | "from_secs 5 \<le> c" "c < from_secs 10" | "from_secs 10 \<le> c" "c < from_secs 30"
    | "from_secs 30 \<le> c" "c < from_secs 60" | "from_secs 60 \<le> c" "c < from_secs 300"
    | "from_secs 300 \<le> c" "c < from_secs 3600" | "from_secs 3600 \<le> c" "c < from_secs 21600"
    | "from_secs 21600 \<le> c" "c < from_secs 43200" | "from_secs 43200 \<le> c" by linarith
  then show ?thesis
    by cases (simp_all add: assms slower_rungs_def ladder_def step_rung_def min_interval_def
        from_secs_def max_def)
qed

text \<open>C0: A kind on its curated rhythm (or \<open>auto\<close>): pressing \<open>ctrl-t\<close> again and again goes through exactly the rungs
  slower than that rhythm, each slower than the one before, then \<open>off\<close>, then back to \<open>auto\<close>.\<close>

theorem ctrl_t_walks_down_and_wraps:
  assumes "fst (refresh_of a k) = Some (catalog_rhythm k)"
  shows "presses (length (slower_rungs (catalog_rhythm k)) + 2) k a =
      map Some (slower_rungs (catalog_rhythm k) @ [IWord WOff, IWord WAuto]) \<and>
    sorted (map (\<lambda>r. case r of Secs n \<Rightarrow> n | IWord _ \<Rightarrow> 0) (slower_rungs (catalog_rhythm k)))"
proof -
  have "sorted (map f xs) \<Longrightarrow> sorted (map f (filter P xs))" for f :: "interval \<Rightarrow> nat" and P xs
    by (rule sorted_filter)
  moreover have "slower_rungs c = filter (slower_rung c) (butlast ladder)" for c
    by (simp add: slower_rungs_def ladder_def)
  moreover have "sorted (map (\<lambda>r. case r of Secs n \<Rightarrow> n | IWord _ \<Rightarrow> 0) (butlast ladder))"
    by (simp add: ladder_def)
  ultimately show ?thesis
    using assms rungs_from_rhythm [of k "catalog_rhythm k"] by (simp add: presses_rungs)
qed

section \<open>Views opened later\<close>

lemma opened_task:
  assumes "n < length (ar_schedulers a)"
  shows "\<exists>sc \<in> set (ar_schedulers (open_view n key a)). \<exists>(i, r) \<in> set (sc_tasks sc).
    su_pausable (rn_sub r) \<and> task_kind r = k_id (tk_kind key) \<and>
    ct_interval (rn_controls r) = secs_of (catalog_rhythm (tk_kind key))"
proof -
  let ?sc = "snd (subscribe (view_subscription key) (ar_schedulers a ! n))"
  have sc: "?sc \<in> set (ar_schedulers (open_view n key a))"
    using assms by (simp add: open_view_def set_update_memI)
  have every: "from_secs (max m (Suc 0)) = max (from_secs m) min_interval" for m
    by (auto simp: min_interval_def from_secs_def max_def)
  have "\<exists>(i, r) \<in> set (sc_tasks ?sc). su_pausable (rn_sub r) \<and> task_kind r = k_id (tk_kind key) \<and>
    ct_interval (rn_controls r) = secs_of (catalog_rhythm (tk_kind key))"
    by (auto simp: subscribe_def Let_def spawned_def begin_cycle_def task_kind_def view_subscription_def
        sub_list_def catalog_rhythm_def every split: prod.split)
  with sc show ?thesis by blast
qed

text \<open>C0: The schedule of the config file does not reach a view that is opened after it was read: a table whose kind the
  file turns off, or schedules at any rhythm but the catalog's, polls at the catalog's rhythm from the moment it is
  opened, while the screens attribute the file's value to it.\<close>

theorem opening_a_view_ignores_the_schedule:
  assumes "n < length (ar_schedulers a)" and "tk_kind key \<in> set kinds"
    and "every_secs (fst (refresh_of a (tk_kind key))) \<noteq> secs_of (catalog_rhythm (tk_kind key))"
  shows "\<not> in_step kinds (open_view n key a)"
proof
  assume s: "in_step kinds (open_view n key a)"
  have r: "refresh_of (open_view n key a) k = refresh_of a k" for k
    by (simp add: refresh_of_def open_view_def)
  obtain sc i t where "sc \<in> set (ar_schedulers (open_view n key a))" "(i, t) \<in> set (sc_tasks sc)"
    "su_pausable (rn_sub t)" "task_kind t = k_id (tk_kind key)"
    "ct_interval (rn_controls t) = secs_of (catalog_rhythm (tk_kind key))"
    using opened_task [OF assms(1), of key] by blast
  then show False using s assms(2,3) r by (fastforce simp: in_step_def task_in_step_def)
qed

section \<open>A session to run\<close>

definition plain_kind :: "string \<Rightarrow> string \<Rightarrow> nat \<Rightarrow> kind" where
  "plain_kind i ns secs = \<lparr>k_id = i, k_namespace = ns, k_version = ''v4.0'', k_since = ''v4.0'', k_display = i,
     k_aliases = [], k_poll_secs = secs, k_list_path = [], k_get_path = None,
     k_list_params = \<lparr>lp_page = True, lp_limit = True, lp_filter = True, lp_orderby = True, lp_select = True, lp_required = False\<rparr>,
     k_orderby = None, k_probe_by = None, k_max_rows = None, k_parent = None, k_actions = [], k_action_kind = None,
     k_action_parents = [], k_rate = rate_limit_default, k_select = None, k_ext_id_key = ''extId'', k_name_path = ''name'',
     k_warm = False, k_status_roles = []\<rparr>"

definition vm_kind :: kind where
  "vm_kind = plain_kind ''vm'' ''vmm'' 3"

definition audit_kind :: kind where
  "audit_kind = plain_kind ''audit'' ''monitoring'' 30"

definition quiet_audits :: refresh_cfg where
  "quiet_audits = \<lparr>rf_default = None, rf_kinds = [''audit'' \<mapsto> IWord WOff], rf_namespaces = Map.empty\<rparr>"

text \<open>One scheduler polling the VMs; audits are off in the file.\<close>

definition lab_app :: app_refresh where
  "lab_app = open_view 0 (key_top vm_kind)
     \<lparr>ar_disk = \<lparr>df_refresh = Some quiet_audits, df_saves = None, df_read_error = []\<rparr>, ar_cfg = quiet_audits,
      ar_session = Map.empty, ar_schedulers = [new_scheduler 1 0], ar_status = None\<rparr>"

lemma lab_app_ok:
  "in_step [vm_kind, audit_kind] lab_app" "copy_current lab_app" "inj_on k_id (set [vm_kind, audit_kind])"
  by (simp_all add: lab_app_def in_step_def task_in_step_def open_view_def subscribe_def new_scheduler_def Let_def
      spawned_def begin_cycle_def take_dirty_def view_subscription_def sub_list_def key_top_def task_kind_def vm_kind_def
      audit_kind_def plain_kind_def refresh_of_def effective_def quiet_audits_def catalog_rhythm_def every_secs_def
      secs_of_def poll_interval_def min_interval_def copy_current_def cell_default_def split: prod.split)

lemma pollers_follow_the_schedule_witness:
  "in_step [vm_kind, audit_kind] (fold (apply_change [vm_kind, audit_kind])
     [CtrlT vm_kind, RefreshVerb vm_kind [''5m''], ChoseRung LEverything (IWord WOff)] lab_app)"
  using pollers_follow_the_schedule [OF lab_app_ok,
      of "[CtrlT vm_kind, RefreshVerb vm_kind [''5m''], ChoseRung LEverything (IWord WOff)]"]
  by simp

lemma ctrl_t_walks_down_and_wraps_witness:
  "presses 10 vm_kind lab_app = map Some [Secs 5, Secs 10, Secs 30, Secs 60, Secs 300, Secs 3600, Secs 21600, Secs 43200,
     IWord WOff, IWord WAuto]"
proof -
  have r: "fst (refresh_of lab_app vm_kind) = Some (catalog_rhythm vm_kind)"
    by (simp add: lab_app_def open_view_def refresh_of_def effective_def quiet_audits_def vm_kind_def plain_kind_def)
  have c: "slower_rungs (catalog_rhythm vm_kind) = [Secs 5, Secs 10, Secs 30, Secs 60, Secs 300, Secs 3600, Secs 21600, Secs 43200]"
    by (simp add: slower_rungs_def ladder_def catalog_rhythm_def vm_kind_def plain_kind_def min_interval_def)
  have n: "length (slower_rungs (catalog_rhythm vm_kind)) + 2 = 10" unfolding c by simp
  show ?thesis using ctrl_t_walks_down_and_wraps [OF r] unfolding n unfolding c by (simp del: presses.simps)
qed

lemma opening_a_view_ignores_the_schedule_witness:
  "\<not> in_step [vm_kind, audit_kind] (open_view 0 (key_top audit_kind) lab_app)"
proof (rule opening_a_view_ignores_the_schedule)
  show "0 < length (ar_schedulers lab_app)" by (simp add: lab_app_def open_view_def)
  show "tk_kind (key_top audit_kind) \<in> set [vm_kind, audit_kind]" by (simp add: key_top_def)
  show "every_secs (fst (refresh_of lab_app (tk_kind (key_top audit_kind)))) \<noteq> secs_of (catalog_rhythm (tk_kind (key_top audit_kind)))"
    using secs_of_pos by (simp add: lab_app_def open_view_def refresh_of_def effective_def quiet_audits_def
        audit_kind_def plain_kind_def key_top_def every_secs_def)
qed

end
