(* ===== verification/Odata.thy ===== *)
theory Odata
  imports Pollers
begin

text \<open>
  The \<open>$filter\<close> language the program speaks, as the mock Prism Central reads it
  (\<open>crates/mockpc/src/filter.rs\<close>): the tokens, the recursive-descent parser and the evaluator over a
  row. Reading a number as \<open>f64\<close> and comparing two of them are parameters (\<open>floats\<close>): the model
  says nothing about rounding.

  The parser keeps the tokens that are left instead of an index. Its five functions call each other,
  so they take fuel; \<open>parse_filter\<close> gives four calls for each token and four more, and
  \<open>parse_returns\<close> shows that to be enough.
\<close>

section \<open>Tokens\<close>

datatype token = TWord string | TStr string | TOpen | TClose | TComma

definition quote :: char where
  "quote = CHR 0x27"

definition blank :: "char \<Rightarrow> bool" where
  "blank c \<longleftrightarrow> c = CHR '' '' \<or> c = CHR 0x09"

definition ends_word :: "char \<Rightarrow> bool" where
  "ends_word c \<longleftrightarrow> blank c \<or> c \<in> {CHR ''('', CHR '')'', CHR '','', quote}"

definition unterminated :: "nat \<Rightarrow> string" where
  "unterminated start = ''unterminated string at '' @ show_nat start"

text \<open>The rest of a string after its opening quote, and what follows its closing one.\<close>

fun quoted_rest :: "nat \<Rightarrow> string \<Rightarrow> string + (string \<times> string)" where
  "quoted_rest start [] = Inl (unterminated start)"
| "quoted_rest start [c] = (if c = quote then Inr ([], []) else Inl (unterminated start))"
| "quoted_rest start (c # c' # cs) =
     (if c = quote
      then (if c' = quote
            then (case quoted_rest start cs of Inl e \<Rightarrow> Inl e | Inr (s, rest) \<Rightarrow> Inr (quote # s, rest))
            else Inr ([], c' # cs))
      else (case quoted_rest start (c' # cs) of Inl e \<Rightarrow> Inl e | Inr (s, rest) \<Rightarrow> Inr (c # s, rest)))"

lemma quoted_rest_shorter: "quoted_rest start cs = Inr (s, rest) \<Longrightarrow> length rest < length cs"
  by (induction start cs arbitrary: s rest rule: quoted_rest.induct)
    (auto split: if_splits sum.splits)

fun and_tokens :: "token \<Rightarrow> string + token list \<Rightarrow> string + token list" where
  "and_tokens t (Inl e) = Inl e"
| "and_tokens t (Inr ts) = Inr (t # ts)"

text \<open>\<open>n\<close> is the length of the whole text, so that a suffix knows where it starts.\<close>

function scan :: "nat \<Rightarrow> string \<Rightarrow> string + token list" where
  "scan n [] = Inr []"
| "scan n (c # cs) =
     (if blank c then scan n cs
      else if c = CHR ''('' then and_tokens TOpen (scan n cs)
      else if c = CHR '')'' then and_tokens TClose (scan n cs)
      else if c = CHR '','' then and_tokens TComma (scan n cs)
      else if c = quote
      then (case quoted_rest (n - length (c # cs)) cs of
             Inl e \<Rightarrow> Inl e | Inr (s, rest) \<Rightarrow> and_tokens (TStr s) (scan n rest))
      else (let word = c # takeWhile (\<lambda>x. \<not> ends_word x) cs;
                rest = dropWhile (\<lambda>x. \<not> ends_word x) cs
            in case rest of
                 q # more_text \<Rightarrow>
                   (if q = quote
                    then (case quoted_rest (n - length rest) more_text of
                           Inl e \<Rightarrow> Inl e | Inr (s, after) \<Rightarrow> and_tokens (TStr s) (scan n after))
                    else and_tokens (TWord word) (scan n rest))
               | [] \<Rightarrow> and_tokens (TWord word) (Inr [])))"
  by pat_completeness auto
termination
proof (relation "measure (\<lambda>(n, s). length s)", goal_cases)
  case (7 n c cs word rest q more_text u s after)
  then have "length (q # more_text) \<le> length cs"
    using length_dropWhile_le [of "\<lambda>x. \<not> ends_word x" cs] by simp
  moreover have "length after < length more_text"
    using 7 quoted_rest_shorter [of _ more_text s after] by auto
  ultimately show ?case by simp
next
  case (8 n c cs word rest q more_text)
  then show ?case using length_dropWhile_le [of "\<lambda>x. \<not> ends_word x" cs] by (simp add: less_Suc_eq_le)
qed (auto dest: quoted_rest_shorter)

declare scan.simps(2) [simp del]

definition tokens :: "string \<Rightarrow> string + token list" where
  "tokens input = scan (length input) input"

section \<open>Filters\<close>

datatype op = OpEq | OpNe | OpGe | OpLe | OpGt | OpLt

datatype 'f literal = LText string | LBool bool | LNumber 'f

datatype 'f filter_expr =
    FAnd "'f filter_expr" "'f filter_expr"
  | FOr "'f filter_expr" "'f filter_expr"
  | FCompare "string list" op "'f literal"
  | FStartsWith "string list" string

datatype ord_result = RLess | REqual | RGreater

text \<open>\<open>str::parse::<f64>\<close>, \<open>Value::as_f64\<close> and \<open>f64::partial_cmp\<close>.\<close>

record 'f floats =
  fl_parse :: "string \<Rightarrow> 'f option"
  fl_of :: "jnum \<Rightarrow> 'f option"
  fl_cmp :: "'f \<Rightarrow> 'f \<Rightarrow> ord_result option"

fun debug_token :: "token \<Rightarrow> string" where
  "debug_token (TWord w) = ''Word('' @ debug_str w @ '')''"
| "debug_token (TStr s) = ''Str('' @ debug_str s @ '')''"
| "debug_token TOpen = ''Open''"
| "debug_token TClose = ''Close''"
| "debug_token TComma = ''Comma''"

fun debug_next :: "token list \<Rightarrow> string" where
  "debug_next [] = ''None''"
| "debug_next (t # _) = ''Some('' @ debug_token t @ '')''"

definition ident_char :: "char \<Rightarrow> bool" where
  "ident_char c \<longleftrightarrow> (let n = (of_char c :: nat) in
     48 \<le> n \<and> n \<le> 57 \<or> 65 \<le> n \<and> n \<le> 90 \<or> 97 \<le> n \<and> n \<le> 122) \<or> c = CHR ''_'' \<or> c = CHR 0x24"

definition ident :: "string \<Rightarrow> bool" where
  "ident s \<longleftrightarrow> s \<noteq> [] \<and> (\<forall>c \<in> set s. ident_char c)"

definition path_of :: "string \<Rightarrow> string + string list" where
  "path_of word = (let segments = split_on CHR ''/'' word
     in if \<forall>s \<in> set segments. ident s then Inr segments else Inl (word @ '' is not a property path''))"

definition op_of :: "string \<Rightarrow> string + op" where
  "op_of word = (let w = map to_lower word
     in if w = ''eq'' then Inr OpEq else if w = ''ne'' then Inr OpNe else if w = ''ge'' then Inr OpGe
        else if w = ''le'' then Inr OpLe else if w = ''gt'' then Inr OpGt else if w = ''lt'' then Inr OpLt
        else Inl (word @ '' is not an operator''))"

definition is_instant :: "string \<Rightarrow> bool" where
  "is_instant s \<longleftrightarrow> 20 \<le> length s \<and> s ! 4 = CHR ''-'' \<and> s ! 7 = CHR ''-'' \<and> s ! 10 = CHR ''T'' \<and> suffix ''Z'' s"

definition literal_of :: "'f floats \<Rightarrow> string \<Rightarrow> string + 'f literal" where
  "literal_of fl word =
     (if word = ''true'' then Inr (LBool True)
      else if word = ''false'' then Inr (LBool False)
      else case fl_parse fl word of
          Some x \<Rightarrow> Inr (LNumber x)
        | None \<Rightarrow> (if is_instant word then Inr (LText word) else Inl (''cannot read the value '' @ word)))"

section \<open>The parser\<close>

type_synonym ('f, 'a) reading = "(string + 'a \<times> token list) option"

definition word_is :: "string \<Rightarrow> token list \<Rightarrow> bool" where
  "word_is w ts = (case ts of TWord x # _ \<Rightarrow> eq_ignore_ascii_case x w | _ \<Rightarrow> False)"

fun then_read :: "(string + 'a \<times> token list) option \<Rightarrow> ('a \<Rightarrow> token list \<Rightarrow> (string + 'b \<times> token list) option)
    \<Rightarrow> (string + 'b \<times> token list) option" where
  "then_read None k = None"
| "then_read (Some (Inl e)) k = Some (Inl e)"
| "then_read (Some (Inr (x, ts))) k = k x ts"

definition expect :: "token \<Rightarrow> token list \<Rightarrow> string + token list" where
  "expect t ts = (case ts of
       t' # rest \<Rightarrow> (if t' = t then Inr rest
         else Inl (''expected '' @ debug_token t @ '', got '' @ debug_next ts))
     | [] \<Rightarrow> Inl (''expected '' @ debug_token t @ '', got None''))"

text \<open>The two primaries that hold no other expression.\<close>

definition read_starts_with :: "token list \<Rightarrow> string + 'f filter_expr \<times> token list" where
  "read_starts_with ts =
     (case expect TOpen ts of Inl e \<Rightarrow> Inl e
      | Inr ts1 \<Rightarrow> (case ts1 of
          TWord p # ts2 \<Rightarrow> (case path_of p of Inl e \<Rightarrow> Inl e
            | Inr path \<Rightarrow> (case expect TComma ts2 of Inl e \<Rightarrow> Inl e
                | Inr ts3 \<Rightarrow> (case ts3 of
                    TStr s # ts4 \<Rightarrow> (case expect TClose ts4 of Inl e \<Rightarrow> Inl e
                        | Inr ts5 \<Rightarrow> Inr (FStartsWith path s, ts5))
                  | _ \<Rightarrow> Inl (''startswith: expected a string, got '' @ debug_next ts3))))
        | _ \<Rightarrow> Inl (''startswith: expected a property, got '' @ debug_next ts1)))"

definition read_compare :: "'f floats \<Rightarrow> string \<Rightarrow> token list \<Rightarrow> string + 'f filter_expr \<times> token list" where
  "read_compare fl w ts =
     (case path_of w of Inl e \<Rightarrow> Inl e
      | Inr path \<Rightarrow> (case ts of
          TWord x # ts1 \<Rightarrow> (case op_of x of Inl e \<Rightarrow> Inl e
            | Inr oper \<Rightarrow> (case ts1 of
                TStr s # ts2 \<Rightarrow> Inr (FCompare path oper (LText s), ts2)
              | TWord v # ts2 \<Rightarrow> (case literal_of fl v of Inl e \<Rightarrow> Inl e
                  | Inr l \<Rightarrow> Inr (FCompare path oper l, ts2))
              | _ \<Rightarrow> Inl (''expected a value after '' @ w @ '', got '' @ debug_next ts1)))
        | _ \<Rightarrow> Inl (''expected an operator after '' @ w @ '', got '' @ debug_next ts)))"

fun read_or :: "'f floats \<Rightarrow> nat \<Rightarrow> token list \<Rightarrow> (string + 'f filter_expr \<times> token list) option"
  and or_loop :: "'f floats \<Rightarrow> nat \<Rightarrow> 'f filter_expr \<Rightarrow> token list \<Rightarrow> (string + 'f filter_expr \<times> token list) option"
  and read_and :: "'f floats \<Rightarrow> nat \<Rightarrow> token list \<Rightarrow> (string + 'f filter_expr \<times> token list) option"
  and and_loop :: "'f floats \<Rightarrow> nat \<Rightarrow> 'f filter_expr \<Rightarrow> token list \<Rightarrow> (string + 'f filter_expr \<times> token list) option"
  and read_primary :: "'f floats \<Rightarrow> nat \<Rightarrow> token list \<Rightarrow> (string + 'f filter_expr \<times> token list) option" where
  "read_or fl 0 ts = None"
| "read_or fl (Suc n) ts = then_read (read_and fl n ts) (or_loop fl n)"
| "or_loop fl 0 left ts = None"
| "or_loop fl (Suc n) left ts =
     (if word_is ''or'' ts
      then then_read (read_and fl n (tl ts)) (\<lambda>right. or_loop fl n (FOr left right))
      else Some (Inr (left, ts)))"
| "read_and fl 0 ts = None"
| "read_and fl (Suc n) ts = then_read (read_primary fl n ts) (and_loop fl n)"
| "and_loop fl 0 left ts = None"
| "and_loop fl (Suc n) left ts =
     (if word_is ''and'' ts
      then then_read (read_primary fl n (tl ts)) (\<lambda>right. and_loop fl n (FAnd left right))
      else Some (Inr (left, ts)))"
| "read_primary fl 0 ts = None"
| "read_primary fl (Suc n) ts = (case ts of
       TOpen # ts1 \<Rightarrow> then_read (read_or fl n ts1) (\<lambda>inner ts2.
         (case expect TClose ts2 of Inl e \<Rightarrow> Some (Inl e) | Inr ts3 \<Rightarrow> Some (Inr (inner, ts3))))
     | TWord w # ts1 \<Rightarrow> (if eq_ignore_ascii_case w ''startswith'' then Some (read_starts_with ts1)
         else Some (read_compare fl w ts1))
     | _ \<Rightarrow> Some (Inl (''expected a property or '' @ [quote, CHR ''('', quote] @ '', got '' @ debug_next ts)))"

definition parse_filter :: "'f floats \<Rightarrow> string \<Rightarrow> (string + 'f filter_expr) option" where
  "parse_filter fl input =
     (case tokens input of Inl e \<Rightarrow> Some (Inl e)
      | Inr ts \<Rightarrow> (case read_or fl (4 * length ts + 4) ts of
          None \<Rightarrow> None
        | Some (Inl e) \<Rightarrow> Some (Inl e)
        | Some (Inr (f, [])) \<Rightarrow> Some (Inr f)
        | Some (Inr (f, t # _)) \<Rightarrow> Some (Inl (''unexpected '' @ debug_token t @ '' after the expression''))))"

section \<open>Evaluation\<close>

fun lookup_path :: "json \<Rightarrow> string list \<Rightarrow> json option" where
  "lookup_path v [] = Some v"
| "lookup_path v (seg # path) = (case jget seg v of None \<Rightarrow> None | Some w \<Rightarrow> lookup_path w path)"

definition lookup_value :: "json \<Rightarrow> string list \<Rightarrow> json option" where
  "lookup_value row path = (case lookup_path row path of Some JNull \<Rightarrow> None | r \<Rightarrow> r)"

text \<open>A width counts characters: the bytes that do not continue one.\<close>

definition char_count :: "string \<Rightarrow> nat" where
  "char_count s = length (filter (\<lambda>c. \<not> (128 \<le> (of_char c :: nat) \<and> (of_char c :: nat) < 192)) s)"

definition instant_key :: "string \<Rightarrow> string" where
  "instant_key s =
     (if \<not> is_instant s then s
      else (case (case split_once CHR ''.'' (butlast s) of Some p \<Rightarrow> p | None \<Rightarrow> (butlast s, [])) of
          (head, fraction) \<Rightarrow>
            head @ ''.'' @ fraction @ replicate (9 - char_count fraction) CHR ''0'' @ ''Z''))"

definition compare_text :: "string \<Rightarrow> string \<Rightarrow> ord_result" where
  "compare_text a b = (if a < b then RLess else if a = b then REqual else RGreater)"

fun op_holds :: "op \<Rightarrow> ord_result \<Rightarrow> bool" where
  "op_holds OpEq r = (r = REqual)"
| "op_holds OpNe r = (r \<noteq> REqual)"
| "op_holds OpGe r = (r \<noteq> RLess)"
| "op_holds OpLe r = (r \<noteq> RGreater)"
| "op_holds OpGt r = (r = RGreater)"
| "op_holds OpLt r = (r = RLess)"

fun as_num :: "json \<Rightarrow> jnum option" where
  "as_num (JNum n) = Some n"
| "as_num _ = None"

fun compare_value :: "'f floats \<Rightarrow> json option \<Rightarrow> op \<Rightarrow> 'f literal \<Rightarrow> bool" where
  "compare_value fl None oper l = (oper = OpNe)"
| "compare_value fl (Some (JBool v)) oper (LBool b) =
     (case oper of OpEq \<Rightarrow> v = b | OpNe \<Rightarrow> v \<noteq> b | _ \<Rightarrow> False)"
| "compare_value fl (Some v) oper (LBool b) = (oper = OpNe)"
| "compare_value fl (Some v) oper (LNumber x) =
     (case Option.bind (Option.bind (as_num v) (fl_of fl)) (\<lambda>y. fl_cmp fl y x) of
        Some r \<Rightarrow> op_holds oper r | None \<Rightarrow> oper = OpNe)"
| "compare_value fl (Some v) oper (LText t) =
     (case as_str v of
        Some s \<Rightarrow> op_holds oper (compare_text (instant_key s) (instant_key t)) | None \<Rightarrow> oper = OpNe)"

fun filter_matches :: "'f floats \<Rightarrow> 'f filter_expr \<Rightarrow> json \<Rightarrow> bool" where
  "filter_matches fl (FAnd a b) row = (filter_matches fl a row \<and> filter_matches fl b row)"
| "filter_matches fl (FOr a b) row = (filter_matches fl a row \<or> filter_matches fl b row)"
| "filter_matches fl (FStartsWith path p) row =
     (case lookup_value row path of Some (JStr s) \<Rightarrow> prefix p s | _ \<Rightarrow> False)"
| "filter_matches fl (FCompare path oper l) row = compare_value fl (lookup_value row path) oper l"

section \<open>The parser returns\<close>

lemma then_read_Some:
  "then_read r k = Some (Inr z) \<longleftrightarrow> (\<exists>x ts. r = Some (Inr (x, ts)) \<and> k x ts = Some (Inr z))"
  by (cases "(r, k)" rule: then_read.cases) auto

lemma then_read_None:
  "then_read r k = None \<longleftrightarrow> r = None \<or> (\<exists>x ts. r = Some (Inr (x, ts)) \<and> k x ts = None)"
  by (cases "(r, k)" rule: then_read.cases) auto

lemma expect_shorter: "expect t ts = Inr rest \<Longrightarrow> length rest < length ts"
  by (auto simp: expect_def split: list.splits if_splits)

lemma read_starts_with_shorter: "read_starts_with ts = Inr (f, rest) \<Longrightarrow> length rest < length ts"
  by (auto simp: read_starts_with_def dest!: expect_shorter split: list.splits sum.splits token.splits)

lemma read_compare_shorter: "read_compare fl w ts = Inr (f, rest) \<Longrightarrow> length rest < length ts"
  by (auto simp: read_compare_def split: list.splits sum.splits token.splits)

lemma word_is_Cons: "word_is w ts \<Longrightarrow> \<exists>x rest. ts = TWord x # rest"
  by (auto simp: word_is_def split: list.splits token.splits)

lemma word_is_shorter: "word_is w ts \<Longrightarrow> length ts = Suc (length (tl ts))"
  by (auto simp: word_is_def split: list.splits)

text \<open>What is left after a reading: less than there was, or no more than there was in a loop.\<close>

definition shrinks :: "'f floats \<Rightarrow> nat \<Rightarrow> bool" where
  "shrinks fl n \<longleftrightarrow>
     (\<forall>ts f rest. read_or fl n ts = Some (Inr (f, rest)) \<longrightarrow> length rest < length ts) \<and>
     (\<forall>left ts f rest. or_loop fl n left ts = Some (Inr (f, rest)) \<longrightarrow> length rest \<le> length ts) \<and>
     (\<forall>ts f rest. read_and fl n ts = Some (Inr (f, rest)) \<longrightarrow> length rest < length ts) \<and>
     (\<forall>left ts f rest. and_loop fl n left ts = Some (Inr (f, rest)) \<longrightarrow> length rest \<le> length ts) \<and>
     (\<forall>ts f rest. read_primary fl n ts = Some (Inr (f, rest)) \<longrightarrow> length rest < length ts)"

lemma loop_shrinks:
  assumes "shrinks fl n"
  shows "or_loop fl (Suc n) left ts = Some (Inr (f, rest)) \<Longrightarrow> length rest \<le> length ts"
    and "and_loop fl (Suc n) left ts = Some (Inr (f, rest)) \<Longrightarrow> length rest \<le> length ts"
proof -
  assume "or_loop fl (Suc n) left ts = Some (Inr (f, rest))"
  then show "length rest \<le> length ts"
  proof (cases "word_is ''or'' ts")
    case True
    with \<open>or_loop fl (Suc n) left ts = Some (Inr (f, rest))\<close> obtain x ts1 where
      "read_and fl n (tl ts) = Some (Inr (x, ts1))" "or_loop fl n (FOr left x) ts1 = Some (Inr (f, rest))"
      by (auto simp: then_read_Some)
    then have "length ts1 < length (tl ts)" "length rest \<le> length ts1"
      using assms unfolding shrinks_def by blast+
    then show ?thesis using word_is_shorter [OF True] by linarith
  qed simp
next
  assume a: "and_loop fl (Suc n) left ts = Some (Inr (f, rest))"
  show "length rest \<le> length ts"
  proof (cases "word_is ''and'' ts")
    case True
    with a obtain x ts1 where
      "read_primary fl n (tl ts) = Some (Inr (x, ts1))" "and_loop fl n (FAnd left x) ts1 = Some (Inr (f, rest))"
      by (auto simp: then_read_Some)
    then have "length ts1 < length (tl ts)" "length rest \<le> length ts1"
      using assms unfolding shrinks_def by blast+
    then show ?thesis using word_is_shorter [OF True] by linarith
  qed (use a in simp)
qed

lemma read_shrinks:
  assumes "shrinks fl n"
  shows "read_or fl (Suc n) ts = Some (Inr (f, rest)) \<Longrightarrow> length rest < length ts"
    and "read_and fl (Suc n) ts = Some (Inr (f, rest)) \<Longrightarrow> length rest < length ts"
proof -
  assume "read_or fl (Suc n) ts = Some (Inr (f, rest))"
  then obtain x ts1 where
    "read_and fl n ts = Some (Inr (x, ts1))" "or_loop fl n x ts1 = Some (Inr (f, rest))"
    by (auto simp: then_read_Some)
  then have "length ts1 < length ts" "length rest \<le> length ts1"
    using assms unfolding shrinks_def by blast+
  then show "length rest < length ts" by linarith
next
  assume "read_and fl (Suc n) ts = Some (Inr (f, rest))"
  then obtain x ts1 where
    "read_primary fl n ts = Some (Inr (x, ts1))" "and_loop fl n x ts1 = Some (Inr (f, rest))"
    by (auto simp: then_read_Some)
  then have "length ts1 < length ts" "length rest \<le> length ts1"
    using assms unfolding shrinks_def by blast+
  then show "length rest < length ts" by linarith
qed

lemma primary_shrinks:
  assumes s: "shrinks fl n" and p: "read_primary fl (Suc n) ts = Some (Inr (f, rest))"
  shows "length rest < length ts"
proof (cases ts)
  case (Cons t ts1)
  show ?thesis
  proof (cases t)
    case TOpen
    with p Cons obtain x ts2 where x: "read_or fl n ts1 = Some (Inr (x, ts2))"
      and e: "(case expect TClose ts2 of Inl e \<Rightarrow> Some (Inl e) | Inr ts3 \<Rightarrow> Some (Inr (x, ts3))) = Some (Inr (f, rest))"
      by (auto simp: then_read_Some)
    from e have "length rest < length ts2" by (auto dest: expect_shorter split: sum.splits)
    moreover have "length ts2 < length ts1" using s x unfolding shrinks_def by blast
    ultimately show ?thesis using Cons by simp
  next
    case (TWord w)
    then show ?thesis
      using p Cons read_starts_with_shorter [of ts1 f rest] read_compare_shorter [of fl w ts1 f rest]
      by (auto split: if_splits)
  qed (use p Cons in auto)
qed (use p in auto)

lemma all_shrink: "shrinks fl n"
proof (induction n)
  case 0
  then show ?case by (simp add: shrinks_def)
next
  case (Suc n)
  show ?case
    unfolding shrinks_def
    using loop_shrinks [OF Suc] read_shrinks [OF Suc] primary_shrinks [OF Suc] by blast
qed

lemma shrink:
  "read_and fl n ts = Some (Inr (f, rest)) \<Longrightarrow> length rest < length ts"
  "read_primary fl n ts = Some (Inr (f, rest)) \<Longrightarrow> length rest < length ts"
  using all_shrink [of fl n] unfolding shrinks_def by blast+

text \<open>Enough fuel for a reading of so many tokens.\<close>

definition returns :: "'f floats \<Rightarrow> nat \<Rightarrow> bool" where
  "returns fl n \<longleftrightarrow>
     (\<forall>ts. 4 * length ts + 3 \<le> n \<longrightarrow> read_or fl n ts \<noteq> None) \<and>
     (\<forall>left ts. 4 * length ts + 1 \<le> n \<longrightarrow> or_loop fl n left ts \<noteq> None) \<and>
     (\<forall>ts. 4 * length ts + 2 \<le> n \<longrightarrow> read_and fl n ts \<noteq> None) \<and>
     (\<forall>left ts. 4 * length ts + 1 \<le> n \<longrightarrow> and_loop fl n left ts \<noteq> None) \<and>
     (\<forall>ts. 4 * length ts + 1 \<le> n \<longrightarrow> read_primary fl n ts \<noteq> None)"

lemma read_return:
  assumes r: "returns fl n"
  shows "4 * length ts + 3 \<le> Suc n \<Longrightarrow> read_or fl (Suc n) ts \<noteq> None"
    and "4 * length ts + 2 \<le> Suc n \<Longrightarrow> read_and fl (Suc n) ts \<noteq> None"
proof -
  assume n: "4 * length ts + 3 \<le> Suc n"
  then have "read_and fl n ts \<noteq> None" using r unfolding returns_def by simp
  moreover have "or_loop fl n x ts1 \<noteq> None" if "read_and fl n ts = Some (Inr (x, ts1))" for x ts1
    using r n shrink(1) [OF that] unfolding returns_def by simp
  ultimately show "read_or fl (Suc n) ts \<noteq> None" unfolding read_or.simps then_read_None by blast
next
  assume n: "4 * length ts + 2 \<le> Suc n"
  then have "read_primary fl n ts \<noteq> None" using r unfolding returns_def by simp
  moreover have "and_loop fl n x ts1 \<noteq> None" if "read_primary fl n ts = Some (Inr (x, ts1))" for x ts1
    using r n shrink(2) [OF that] unfolding returns_def by simp
  ultimately show "read_and fl (Suc n) ts \<noteq> None" unfolding read_and.simps then_read_None by blast
qed

lemma loop_return:
  assumes r: "returns fl n" and n: "4 * length ts + 1 \<le> Suc n"
  shows "or_loop fl (Suc n) left ts \<noteq> None" and "and_loop fl (Suc n) left ts \<noteq> None"
proof -
  show "or_loop fl (Suc n) left ts \<noteq> None"
  proof (cases "word_is ''or'' ts")
    case True
    have n1: "4 * length (tl ts) + 2 \<le> n" using n word_is_shorter [OF True] by linarith
    then have "read_and fl n (tl ts) \<noteq> None" using r unfolding returns_def by blast
    moreover have "or_loop fl n (FOr left x) ts1 \<noteq> None" if "read_and fl n (tl ts) = Some (Inr (x, ts1))" for x ts1
    proof -
      have "4 * length ts1 + 1 \<le> n" using n1 shrink(1) [OF that] by linarith
      then show ?thesis using r unfolding returns_def by blast
    qed
    ultimately show ?thesis unfolding or_loop.simps if_P [OF True] then_read_None by blast
  qed simp
  show "and_loop fl (Suc n) left ts \<noteq> None"
  proof (cases "word_is ''and'' ts")
    case True
    have n1: "4 * length (tl ts) + 2 \<le> n" using n word_is_shorter [OF True] by linarith
    then have "4 * length (tl ts) + 1 \<le> n" by linarith
    then have "read_primary fl n (tl ts) \<noteq> None" using r unfolding returns_def by blast
    moreover have "and_loop fl n (FAnd left x) ts1 \<noteq> None" if "read_primary fl n (tl ts) = Some (Inr (x, ts1))" for x ts1
    proof -
      have "4 * length ts1 + 1 \<le> n" using n1 shrink(2) [OF that] by linarith
      then show ?thesis using r unfolding returns_def by blast
    qed
    ultimately show ?thesis unfolding and_loop.simps if_P [OF True] then_read_None by blast
  qed simp
qed

lemma primary_return:
  assumes r: "returns fl n" and n: "4 * length ts + 1 \<le> Suc n"
  shows "read_primary fl (Suc n) ts \<noteq> None"
proof (cases "\<exists>ts1. ts = TOpen # ts1")
  case True
  then obtain ts1 where ts: "ts = TOpen # ts1" by blast
  then have "read_or fl n ts1 \<noteq> None" using r n unfolding returns_def by simp
  then show ?thesis using ts by (auto simp: then_read_None split: sum.splits)
qed (auto split: list.splits token.splits)

lemma all_return: "returns fl n"
proof (induction n)
  case 0
  then show ?case by (simp add: returns_def)
next
  case (Suc n)
  show ?case
    unfolding returns_def
    using read_return [OF Suc] loop_return [OF Suc] primary_return [OF Suc] by blast
qed

text \<open>C0: Reading a filter always ends: whatever the text, the parser returns an expression or an error.\<close>

theorem parse_returns: "parse_filter fl input \<noteq> None"
proof -
  have "read_or fl (4 * length ts + 4) ts \<noteq> None" for ts
    using all_return [of fl "4 * length ts + 4"] unfolding returns_def by simp
  then show ?thesis
    by (auto simp: parse_filter_def simp del: read_or.simps split: sum.split option.split list.split)
      (metis option.distinct(1))
qed

section \<open>More fuel changes nothing\<close>

definition fuel_steady :: "'f floats \<Rightarrow> nat \<Rightarrow> bool" where
  "fuel_steady fl n \<longleftrightarrow>
     (\<forall>ts r. read_or fl n ts = Some r \<longrightarrow> read_or fl (Suc n) ts = Some r) \<and>
     (\<forall>left ts r. or_loop fl n left ts = Some r \<longrightarrow> or_loop fl (Suc n) left ts = Some r) \<and>
     (\<forall>ts r. read_and fl n ts = Some r \<longrightarrow> read_and fl (Suc n) ts = Some r) \<and>
     (\<forall>left ts r. and_loop fl n left ts = Some r \<longrightarrow> and_loop fl (Suc n) left ts = Some r) \<and>
     (\<forall>ts r. read_primary fl n ts = Some r \<longrightarrow> read_primary fl (Suc n) ts = Some r)"

lemma then_read_mono:
  assumes "\<And>z. r = Some z \<Longrightarrow> r' = Some z" and "\<And>x ts z. k x ts = Some z \<Longrightarrow> k' x ts = Some z"
    and "then_read r k = Some z"
  shows "then_read r' k' = Some z"
  using assms by (cases "(r, k)" rule: then_read.cases) auto

lemma more_fuel: "fuel_steady fl n"
proof (induction n)
  case 0
  then show ?case by (simp add: fuel_steady_def)
next
  case (Suc n)
  have ih: "read_or fl n ts = Some r \<Longrightarrow> read_or fl (Suc n) ts = Some r"
    "or_loop fl n left ts = Some r \<Longrightarrow> or_loop fl (Suc n) left ts = Some r"
    "read_and fl n ts = Some r \<Longrightarrow> read_and fl (Suc n) ts = Some r"
    "and_loop fl n left ts = Some r \<Longrightarrow> and_loop fl (Suc n) left ts = Some r"
    "read_primary fl n ts = Some r \<Longrightarrow> read_primary fl (Suc n) ts = Some r" for ts left r
    using Suc unfolding fuel_steady_def by blast+
  have 1: "read_or fl (Suc (Suc n)) ts = Some r" if "read_or fl (Suc n) ts = Some r" for ts r
    using that unfolding read_or.simps(2) by (rule then_read_mono [rotated 2]) (fact ih)+
  have 2: "or_loop fl (Suc (Suc n)) left ts = Some r" if "or_loop fl (Suc n) left ts = Some r" for left ts r
  proof (cases "word_is ''or'' ts")
    case True
    with that have "then_read (read_and fl n (tl ts)) (\<lambda>right. or_loop fl n (FOr left right)) = Some r" by simp
    then have "then_read (read_and fl (Suc n) (tl ts)) (\<lambda>right. or_loop fl (Suc n) (FOr left right)) = Some r"
      by (rule then_read_mono [rotated 2]) (fact ih)+
    then show ?thesis by (simp only: or_loop.simps if_True True)
  qed (use that in simp)
  have 3: "read_and fl (Suc (Suc n)) ts = Some r" if "read_and fl (Suc n) ts = Some r" for ts r
    using that unfolding read_and.simps(2) by (rule then_read_mono [rotated 2]) (fact ih)+
  have 4: "and_loop fl (Suc (Suc n)) left ts = Some r" if "and_loop fl (Suc n) left ts = Some r" for left ts r
  proof (cases "word_is ''and'' ts")
    case True
    with that have "then_read (read_primary fl n (tl ts)) (\<lambda>right. and_loop fl n (FAnd left right)) = Some r" by simp
    then have "then_read (read_primary fl (Suc n) (tl ts)) (\<lambda>right. and_loop fl (Suc n) (FAnd left right)) = Some r"
      by (rule then_read_mono [rotated 2]) (fact ih)+
    then show ?thesis by (simp only: and_loop.simps if_True True)
  qed (use that in simp)
  have 5: "read_primary fl (Suc (Suc n)) ts = Some r" if "read_primary fl (Suc n) ts = Some r" for ts r
  proof (cases "\<exists>ts1. ts = TOpen # ts1")
    case True
    then obtain ts1 where ts: "ts = TOpen # ts1" by blast
    let ?k = "\<lambda>inner ts2. case expect TClose ts2 of Inl e \<Rightarrow> Some (Inl e) | Inr ts3 \<Rightarrow> Some (Inr (inner, ts3))"
    from that ts have "then_read (read_or fl n ts1) ?k = Some r" by simp
    then have "then_read (read_or fl (Suc n) ts1) ?k = Some r"
      by (rule then_read_mono [rotated 2]) (erule ih(1), assumption)
    then show ?thesis by (simp only: read_primary.simps ts list.case token.case)
  qed (use that in \<open>auto split: list.splits token.splits\<close>)
  show ?case unfolding fuel_steady_def using 1 2 3 4 5 by blast
qed

lemma more_fuel_le:
  assumes "n \<le> m"
  shows "read_or fl n ts = Some r \<Longrightarrow> read_or fl m ts = Some r"
    and "or_loop fl n left ts = Some r \<Longrightarrow> or_loop fl m left ts = Some r"
    and "read_and fl n ts = Some r \<Longrightarrow> read_and fl m ts = Some r"
    and "and_loop fl n left ts = Some r \<Longrightarrow> and_loop fl m left ts = Some r"
    and "read_primary fl n ts = Some r \<Longrightarrow> read_primary fl m ts = Some r"
  using assms more_fuel [of fl] unfolding fuel_steady_def by (induction m rule: dec_induct; blast)+

section \<open>Spelling a filter\<close>

text \<open>
  A spelling for every filter: \<open>and\<close> binds tighter, both group to the left, and parentheses are
  put where the grouping needs them. \<open>num\<close> spells a number.
\<close>

fun op_word :: "op \<Rightarrow> string" where
  "op_word OpEq = ''eq''"
| "op_word OpNe = ''ne''"
| "op_word OpGe = ''ge''"
| "op_word OpLe = ''le''"
| "op_word OpGt = ''gt''"
| "op_word OpLt = ''lt''"

fun literal_token :: "('f \<Rightarrow> string) \<Rightarrow> 'f literal \<Rightarrow> token" where
  "literal_token num (LText s) = TStr s"
| "literal_token num (LBool b) = TWord (if b then ''true'' else ''false'')"
| "literal_token num (LNumber x) = TWord (num x)"

fun or_tokens :: "('f \<Rightarrow> string) \<Rightarrow> 'f filter_expr \<Rightarrow> token list"
  and and_tokens_of :: "('f \<Rightarrow> string) \<Rightarrow> 'f filter_expr \<Rightarrow> token list"
  and primary_tokens :: "('f \<Rightarrow> string) \<Rightarrow> 'f filter_expr \<Rightarrow> token list" where
  "or_tokens num (FOr a b) = or_tokens num a @ TWord ''or'' # and_tokens_of num b"
| "or_tokens num (FAnd a b) = and_tokens_of num a @ TWord ''and'' # primary_tokens num b"
| "or_tokens num (FCompare path oper l) = primary_tokens num (FCompare path oper l)"
| "or_tokens num (FStartsWith path p) = primary_tokens num (FStartsWith path p)"
| "and_tokens_of num (FAnd a b) = and_tokens_of num a @ TWord ''and'' # primary_tokens num b"
| "and_tokens_of num (FOr a b) = TOpen # (or_tokens num a @ TWord ''or'' # and_tokens_of num b) @ [TClose]"
| "and_tokens_of num (FCompare path oper l) = primary_tokens num (FCompare path oper l)"
| "and_tokens_of num (FStartsWith path p) = primary_tokens num (FStartsWith path p)"
| "primary_tokens num (FOr a b) = TOpen # (or_tokens num a @ TWord ''or'' # and_tokens_of num b) @ [TClose]"
| "primary_tokens num (FAnd a b) = TOpen # (and_tokens_of num a @ TWord ''and'' # primary_tokens num b) @ [TClose]"
| "primary_tokens num (FCompare path oper l) = [TWord (join ''/'' path), TWord (op_word oper), literal_token num l]"
| "primary_tokens num (FStartsWith path p) =
     [TWord ''startswith'', TOpen, TWord (join ''/'' path), TComma, TStr p, TClose]"

fun spell :: "token \<Rightarrow> string" where
  "spell (TWord w) = w"
| "spell (TStr s) = quoted (odata_literal s)"
| "spell TOpen = ''(''"
| "spell TClose = '')''"
| "spell TComma = '',''"

definition spell_filter :: "('f \<Rightarrow> string) \<Rightarrow> 'f filter_expr \<Rightarrow> string" where
  "spell_filter num f = concat (map (\<lambda>t. spell t @ '' '') (or_tokens num f))"

definition path_ok :: "string list \<Rightarrow> bool" where
  "path_ok path \<longleftrightarrow> path \<noteq> [] \<and> (\<forall>s \<in> set path. ident s)"

definition word_ok :: "string \<Rightarrow> bool" where
  "word_ok w \<longleftrightarrow> w \<noteq> [] \<and> (\<forall>c \<in> set w. \<not> ends_word c)"

fun literal_ok :: "'f floats \<Rightarrow> ('f \<Rightarrow> string) \<Rightarrow> 'f literal \<Rightarrow> bool" where
  "literal_ok fl num (LNumber x) \<longleftrightarrow> word_ok (num x) \<and> num x \<notin> {''true'', ''false''} \<and> fl_parse fl (num x) = Some x"
| "literal_ok fl num _ \<longleftrightarrow> True"

text \<open>No property is called \<open>startswith\<close>: the grammar keeps that word.\<close>

fun filter_ok :: "'f floats \<Rightarrow> ('f \<Rightarrow> string) \<Rightarrow> 'f filter_expr \<Rightarrow> bool" where
  "filter_ok fl num (FAnd a b) \<longleftrightarrow> filter_ok fl num a \<and> filter_ok fl num b"
| "filter_ok fl num (FOr a b) \<longleftrightarrow> filter_ok fl num a \<and> filter_ok fl num b"
| "filter_ok fl num (FCompare path oper l) \<longleftrightarrow> path_ok path \<and> literal_ok fl num l \<and>
     \<not> eq_ignore_ascii_case (join ''/'' path) ''startswith''"
| "filter_ok fl num (FStartsWith path p) \<longleftrightarrow> path_ok path"

subsection \<open>The tokens of a spelling\<close>

lemma quoted_rest_literal:
  "rest = [] \<or> hd rest \<noteq> quote \<Longrightarrow> quoted_rest start (odata_literal s @ quote # rest) = Inr (s, rest)"
proof (induction s)
  case Nil
  then show ?case by (cases rest) (auto simp: odata_literal_def)
next
  case (Cons c s)
  show ?case
  proof (cases "c = quote")
    case True
    then show ?thesis using Cons by (simp add: odata_literal_def quote_def)
  next
    case False
    obtain d ds where d: "odata_literal s @ quote # rest = d # ds" by (cases "odata_literal s") auto
    have "odata_literal (c # s) @ quote # rest = c # d # ds"
      using False d by (simp add: odata_literal_def quote_def)
    then show ?thesis using Cons False d by simp
  qed
qed

lemma ends_word_simps [simp]:
  "ends_word CHR '' ''" "ends_word CHR ''(''" "ends_word CHR '')''" "ends_word CHR '',''" "ends_word quote"
  by (simp_all add: ends_word_def blank_def)

lemma scan_blank [simp]: "scan n (CHR '' '' # cs) = scan n cs"
  by (subst scan.simps(2)) (simp add: blank_def)

lemma not_blank [simp]: "\<not> blank quote" "\<not> blank CHR ''(''" "\<not> blank CHR '')''" "\<not> blank CHR '',''"
  by (simp_all add: blank_def quote_def)

lemma scan_punctuation [simp]:
  "scan n (CHR ''('' # cs) = and_tokens TOpen (scan n cs)"
  "scan n (CHR '')'' # cs) = and_tokens TClose (scan n cs)"
  "scan n (CHR '','' # cs) = and_tokens TComma (scan n cs)"
  by (subst scan.simps(2), simp)+

lemma scan_string:
  assumes "rest = [] \<or> hd rest \<noteq> quote"
  shows "scan n (quoted (odata_literal s) @ rest) = and_tokens (TStr s) (scan n rest)"
proof -
  have "quoted (odata_literal s) @ rest = quote # odata_literal s @ quote # rest"
    by (simp add: quoted_def quote_def)
  moreover have "quote \<noteq> CHR ''(''" "quote \<noteq> CHR '')''" "quote \<noteq> CHR '',''" by (simp_all add: quote_def)
  ultimately show ?thesis by (simp add: scan.simps(2) [of n quote] quoted_rest_literal [OF assms])
qed

lemma word_split:
  assumes "\<forall>c \<in> set cs. \<not> ends_word c" and "rest = [] \<or> ends_word (hd rest)"
  shows "takeWhile (\<lambda>x. \<not> ends_word x) (cs @ rest) = cs" and "dropWhile (\<lambda>x. \<not> ends_word x) (cs @ rest) = rest"
  using assms by (cases rest; simp)+

lemma scan_word:
  assumes w: "word_ok w" and rest: "rest = [] \<or> ends_word (hd rest) \<and> hd rest \<noteq> quote"
  shows "scan n (w @ rest) = and_tokens (TWord w) (scan n rest)"
proof -
  obtain c cs where w': "w = c # cs" using w by (cases w) (auto simp: word_ok_def)
  then have c: "\<not> ends_word c" "\<forall>x \<in> set cs. \<not> ends_word x" using w by (auto simp: word_ok_def)
  then have "\<not> blank c" "c \<noteq> CHR ''(''" "c \<noteq> CHR '')''" "c \<noteq> CHR '',''" "c \<noteq> quote"
    by (auto simp: ends_word_def)
  moreover have all: "takeWhile (\<lambda>x. \<not> ends_word x) cs = cs" "dropWhile (\<lambda>x. \<not> ends_word x) cs = []"
    using c(2) by (simp_all add: takeWhile_eq_all_conv)
  moreover have "rest = [] \<or> ends_word (hd rest)" using rest by blast
  ultimately show ?thesis
    using w' rest word_split [OF c(2), of rest]
    by (cases rest) (simp_all add: scan.simps(2) [of n c] all)
qed

lemma scan_enum:
  assumes w: "word_ok w" and rest: "rest = [] \<or> hd rest \<noteq> quote"
  shows "scan n (w @ quoted (odata_literal s) @ rest) = and_tokens (TStr s) (scan n rest)"
proof -
  obtain c cs where w': "w = c # cs" using w by (cases w) (auto simp: word_ok_def)
  then have c: "\<not> ends_word c" "\<forall>x \<in> set cs. \<not> ends_word x" using w by (auto simp: word_ok_def)
  then have "\<not> blank c" "c \<noteq> CHR ''(''" "c \<noteq> CHR '')''" "c \<noteq> CHR '',''" "c \<noteq> quote"
    by (auto simp: ends_word_def)
  moreover have "quoted (odata_literal s) @ rest = quote # odata_literal s @ quote # rest"
    by (simp add: quoted_def quote_def)
  ultimately show ?thesis
    using w' word_split [OF c(2), of "quote # odata_literal s @ quote # rest"] quoted_rest_literal [OF rest]
    by (simp add: scan.simps(2) [of n c])
qed

lemma op_word_ok [simp]: "word_ok (op_word oper)"
  by (cases oper) (simp_all add: word_ok_def ends_word_def blank_def quote_def)

lemma ident_words:
  assumes "path_ok path"
  shows "word_ok (join ''/'' path)" and "path_of (join ''/'' path) = Inr path"
proof -
  have i: "\<not> ends_word c \<and> c \<noteq> CHR ''/''" if "ident_char c" for c
    using that by (auto simp: ident_char_def ends_word_def blank_def quote_def Let_def)
  then have slash: "\<forall>s \<in> set path. CHR ''/'' \<notin> set s" using assms by (auto simp: path_ok_def ident_def)
  then have "split_on CHR ''/'' (join ''/'' path) = path"
    using assms by (intro split_on_join) (auto simp: path_ok_def)
  then show "path_of (join ''/'' path) = Inr path"
    using assms by (simp add: path_of_def path_ok_def)
  have sub: "set (join ''/'' ws) \<subseteq> insert CHR ''/'' (\<Union>w \<in> set ws. set w)" for ws
    by (induction "''/''" ws rule: join.induct) auto
  have "\<not> ends_word c" if c: "c \<in> set (join ''/'' path)" for c
  proof -
    from sub [of path] c consider "c = CHR ''/''" | w where "w \<in> set path" "c \<in> set w" by blast
    then show ?thesis
    proof cases
      case 1
      then show ?thesis by (simp add: ends_word_def blank_def quote_def)
    next
      case 2
      then have "ident_char c" using assms by (simp add: path_ok_def ident_def)
      then show ?thesis using i by blast
    qed
  qed
  moreover have "join ''/'' path \<noteq> []"
  proof -
    obtain w ws where "path = w # ws" "w \<noteq> []" using assms by (cases path) (auto simp: path_ok_def ident_def)
    then show ?thesis by (cases ws) auto
  qed
  ultimately show "word_ok (join ''/'' path)" by (simp add: word_ok_def)
qed

fun token_ok :: "token \<Rightarrow> bool" where
  "token_ok (TWord w) \<longleftrightarrow> word_ok w"
| "token_ok _ \<longleftrightarrow> True"

lemma tokens_ok:
  "filter_ok fl num f \<Longrightarrow> (\<forall>t \<in> set (or_tokens num f). token_ok t) \<and>
    (\<forall>t \<in> set (and_tokens_of num f). token_ok t) \<and> (\<forall>t \<in> set (primary_tokens num f). token_ok t)"
proof (induction f)
  case (FCompare path oper l)
  then show ?case
    by (cases l) (auto simp: ident_words(1), simp_all add: word_ok_def ends_word_def blank_def quote_def)
next
  case (FStartsWith path p)
  then show ?case by (auto simp: ident_words(1)) (simp add: word_ok_def ends_word_def blank_def quote_def)
qed (auto simp: word_ok_def ends_word_def blank_def quote_def)

lemma scan_spelled:
  "\<forall>t \<in> set ts. token_ok t \<Longrightarrow> scan n (concat (map (\<lambda>t. spell t @ '' '') ts)) = Inr ts"
proof (induction ts)
  case (Cons t ts)
  let ?rest = "concat (map (\<lambda>t. spell t @ '' '') ts)"
  have q: "CHR '' '' \<noteq> quote" by (simp add: quote_def)
  have "scan n (spell t @ '' '' @ ?rest) = and_tokens t (scan n ?rest)"
  proof (cases t)
    case (TWord w)
    then show ?thesis using Cons.prems q scan_word [of w "'' '' @ ?rest" n] by simp
  next
    case (TStr s)
    then show ?thesis using q scan_string [of "'' '' @ ?rest" n s] by simp
  qed simp_all
  then show ?case using Cons by simp
qed simp

subsection \<open>Reading the tokens back\<close>

definition reads_or :: "'f floats \<Rightarrow> token list \<Rightarrow> 'f filter_expr \<Rightarrow> token list \<Rightarrow> bool" where
  "reads_or fl ts f rest \<longleftrightarrow> (\<exists>n. read_or fl n ts = Some (Inr (f, rest)))"

definition or_loops :: "'f floats \<Rightarrow> 'f filter_expr \<Rightarrow> token list \<Rightarrow> 'f filter_expr \<times> token list \<Rightarrow> bool" where
  "or_loops fl left ts z \<longleftrightarrow> (\<exists>n. or_loop fl n left ts = Some (Inr z))"

definition and_loops :: "'f floats \<Rightarrow> 'f filter_expr \<Rightarrow> token list \<Rightarrow> 'f filter_expr \<times> token list \<Rightarrow> bool" where
  "and_loops fl left ts z \<longleftrightarrow> (\<exists>n. and_loop fl n left ts = Some (Inr z))"

definition reads_and :: "'f floats \<Rightarrow> token list \<Rightarrow> 'f filter_expr \<times> token list \<Rightarrow> bool" where
  "reads_and fl ts z \<longleftrightarrow> (\<exists>n. read_and fl n ts = Some (Inr z))"

definition reads_primary :: "'f floats \<Rightarrow> token list \<Rightarrow> 'f filter_expr \<times> token list \<Rightarrow> bool" where
  "reads_primary fl ts z \<longleftrightarrow> (\<exists>n. read_primary fl n ts = Some (Inr z))"

lemma loops_stop:
  "\<not> word_is ''or'' ts \<Longrightarrow> or_loops fl f ts (f, ts)" "\<not> word_is ''and'' ts \<Longrightarrow> and_loops fl f ts (f, ts)"
  by (auto simp: or_loops_def and_loops_def intro: exI [of _ 1])

lemma reads_and_step:
  assumes "reads_primary fl ts (f, ts1)" and "and_loops fl f ts1 z"
  shows "reads_and fl ts z"
proof -
  obtain n m where "read_primary fl n ts = Some (Inr (f, ts1))" and "and_loop fl m f ts1 = Some (Inr z)"
    using assms by (auto simp: reads_primary_def and_loops_def)
  then have "read_primary fl (max n m) ts = Some (Inr (f, ts1))" and "and_loop fl (max n m) f ts1 = Some (Inr z)"
    by (auto intro: more_fuel_le(4,5) [rotated])
  then have "read_and fl (Suc (max n m)) ts = Some (Inr z)" by simp
  then show ?thesis unfolding reads_and_def by blast
qed

lemma and_loops_step:
  assumes "reads_primary fl ts (f, ts1)" and "and_loops fl (FAnd left f) ts1 z"
  shows "and_loops fl left (TWord ''and'' # ts) z"
proof -
  obtain n m where "read_primary fl n ts = Some (Inr (f, ts1))" and "and_loop fl m (FAnd left f) ts1 = Some (Inr z)"
    using assms by (auto simp: reads_primary_def and_loops_def)
  then have "read_primary fl (max n m) ts = Some (Inr (f, ts1))" and "and_loop fl (max n m) (FAnd left f) ts1 = Some (Inr z)"
    by (auto intro: more_fuel_le(4,5) [rotated])
  then have "and_loop fl (Suc (max n m)) left (TWord ''and'' # ts) = Some (Inr z)" by (simp add: word_is_def)
  then show ?thesis unfolding and_loops_def by blast
qed

lemma or_loops_step:
  assumes "reads_and fl ts (f, ts1)" and "or_loops fl (FOr left f) ts1 z"
  shows "or_loops fl left (TWord ''or'' # ts) z"
proof -
  obtain n m where "read_and fl n ts = Some (Inr (f, ts1))" and "or_loop fl m (FOr left f) ts1 = Some (Inr z)"
    using assms by (auto simp: reads_and_def or_loops_def)
  then have "read_and fl (max n m) ts = Some (Inr (f, ts1))" and "or_loop fl (max n m) (FOr left f) ts1 = Some (Inr z)"
    by (auto intro: more_fuel_le(2,3) [rotated])
  then have "or_loop fl (Suc (max n m)) left (TWord ''or'' # ts) = Some (Inr z)" by (simp add: word_is_def)
  then show ?thesis unfolding or_loops_def by blast
qed

lemma reads_or_step:
  assumes "reads_and fl ts (f, ts1)" and "or_loops fl f ts1 (g, rest)"
  shows "reads_or fl ts g rest"
proof -
  obtain n m where "read_and fl n ts = Some (Inr (f, ts1))" and "or_loop fl m f ts1 = Some (Inr (g, rest))"
    using assms by (auto simp: reads_and_def or_loops_def)
  then have "read_and fl (max n m) ts = Some (Inr (f, ts1))" and "or_loop fl (max n m) f ts1 = Some (Inr (g, rest))"
    by (auto intro: more_fuel_le(2,3) [rotated])
  then have "read_or fl (Suc (max n m)) ts = Some (Inr (g, rest))" by simp
  then show ?thesis unfolding reads_or_def by blast
qed

lemma reads_parenthesis:
  assumes "reads_or fl ts f (TClose # rest)"
  shows "reads_primary fl (TOpen # ts) (f, rest)"
proof -
  obtain n where "read_or fl n ts = Some (Inr (f, TClose # rest))" using assms by (auto simp: reads_or_def)
  then have "read_primary fl (Suc n) (TOpen # ts) = Some (Inr (f, rest))" by (simp add: expect_def)
  then show ?thesis unfolding reads_primary_def by blast
qed

lemma leaves_read:
  "path_ok path \<Longrightarrow> reads_primary fl (primary_tokens num (FStartsWith path p) @ rest) (FStartsWith path p, rest)"
  "path_ok path \<Longrightarrow> literal_ok fl num l \<Longrightarrow> \<not> eq_ignore_ascii_case (join ''/'' path) ''startswith'' \<Longrightarrow>
    reads_primary fl (primary_tokens num (FCompare path oper l) @ rest) (FCompare path oper l, rest)"
proof -
  assume "path_ok path"
  then have "read_primary fl 1 (primary_tokens num (FStartsWith path p) @ rest) = Some (Inr (FStartsWith path p, rest))"
    by (simp add: read_starts_with_def expect_def ident_words(2))
  then show "reads_primary fl (primary_tokens num (FStartsWith path p) @ rest) (FStartsWith path p, rest)"
    unfolding reads_primary_def by blast
next
  assume p: "path_ok path" and l: "literal_ok fl num l" and w: "\<not> eq_ignore_ascii_case (join ''/'' path) ''startswith''"
  have o: "op_of (op_word oper) = Inr oper" by (cases oper) (simp_all add: op_of_def to_lower_def Let_def)
  have "read_primary fl 1 (primary_tokens num (FCompare path oper l) @ rest) = Some (Inr (FCompare path oper l, rest))"
    using l w o ident_words(2) [OF p] by (cases l) (auto simp: read_compare_def literal_of_def)
  then show "reads_primary fl (primary_tokens num (FCompare path oper l) @ rest) (FCompare path oper l, rest)"
    unfolding reads_primary_def by blast
qed

lemma words_apart [simp]:
  "word_is ''or'' (TWord ''or'' # ts)" "word_is ''and'' (TWord ''and'' # ts)" "\<not> word_is ''and'' (TWord ''or'' # ts)"
  "\<not> word_is w (TClose # ts)" "\<not> word_is w []"
  by (simp_all add: word_is_def eq_ignore_ascii_case_def to_lower_def Let_def)

text \<open>
  A spelled expression is read whole: whatever the loop of its level would make of it and what
  follows, the level's reader answers.
\<close>

definition spelled_reads :: "'f floats \<Rightarrow> ('f \<Rightarrow> string) \<Rightarrow> 'f filter_expr \<Rightarrow> bool" where
  "spelled_reads fl num f \<longleftrightarrow>
     (\<forall>rest g r. \<not> word_is ''and'' rest \<longrightarrow> or_loops fl f rest (g, r) \<longrightarrow> reads_or fl (or_tokens num f @ rest) g r) \<and>
     (\<forall>rest z. and_loops fl f rest z \<longrightarrow> reads_and fl (and_tokens_of num f @ rest) z) \<and>
     (\<forall>rest. reads_primary fl (primary_tokens num f @ rest) (f, rest))"

lemma spelled_leaf:
  assumes "\<And>rest. reads_primary fl (primary_tokens num f @ rest) (f, rest)"
    and "or_tokens num f = primary_tokens num f" and "and_tokens_of num f = primary_tokens num f"
  shows "spelled_reads fl num f"
  unfolding spelled_reads_def assms(2,3)
  using assms(1) reads_and_step reads_or_step loops_stop(2) by metis

lemma all_spelled: "filter_ok fl num f \<Longrightarrow> spelled_reads fl num f"
proof (induction f)
  case (FCompare path oper l)
  then show ?case by (intro spelled_leaf leaves_read) simp_all
next
  case (FStartsWith path p)
  then show ?case by (intro spelled_leaf leaves_read) simp_all
next
  case (FAnd a b)
  then have a: "\<And>rest z. and_loops fl a rest z \<Longrightarrow> reads_and fl (and_tokens_of num a @ rest) z"
    and b: "\<And>rest. reads_primary fl (primary_tokens num b @ rest) (b, rest)"
    by (auto simp: spelled_reads_def)
  have and_level: "reads_and fl (and_tokens_of num (FAnd a b) @ rest) z" if "and_loops fl (FAnd a b) rest z" for rest z
    using a [OF and_loops_step [OF b that]] by simp
  have or_level: "reads_or fl (or_tokens num (FAnd a b) @ rest) g r"
    if "\<not> word_is ''and'' rest" "or_loops fl (FAnd a b) rest (g, r)" for rest g r
    using reads_or_step [OF and_level [OF loops_stop(2) [OF that(1)]] that(2)] by simp
  have "reads_or fl (or_tokens num (FAnd a b) @ TClose # rest) (FAnd a b) (TClose # rest)" for rest
    by (rule or_level) (simp_all add: loops_stop)
  then have "reads_primary fl (primary_tokens num (FAnd a b) @ rest) (FAnd a b, rest)" for rest
    using reads_parenthesis by fastforce
  then show ?case using and_level or_level unfolding spelled_reads_def by blast
next
  case (FOr a b)
  then have a: "\<And>rest g r. \<not> word_is ''and'' rest \<Longrightarrow> or_loops fl a rest (g, r) \<Longrightarrow> reads_or fl (or_tokens num a @ rest) g r"
    and b: "\<And>rest z. and_loops fl b rest z \<Longrightarrow> reads_and fl (and_tokens_of num b @ rest) z"
    by (auto simp: spelled_reads_def)
  have or_level: "reads_or fl (or_tokens num (FOr a b) @ rest) g r"
    if "\<not> word_is ''and'' rest" "or_loops fl (FOr a b) rest (g, r)" for rest g r
    using a [OF words_apart(3) or_loops_step [OF b [OF loops_stop(2) [OF that(1)]] that(2)]] by simp
  have "reads_or fl (or_tokens num (FOr a b) @ TClose # rest) (FOr a b) (TClose # rest)" for rest
    by (rule or_level) (simp_all add: loops_stop)
  then have prim: "reads_primary fl (primary_tokens num (FOr a b) @ rest) (FOr a b, rest)" for rest
    using reads_parenthesis by fastforce
  have "and_tokens_of num (FOr a b) = primary_tokens num (FOr a b)" by simp
  then have "reads_and fl (and_tokens_of num (FOr a b) @ rest) z" if "and_loops fl (FOr a b) rest z" for rest z
    using reads_and_step [OF prim that] by metis
  then show ?case using prim or_level unfolding spelled_reads_def by blast
qed

lemma parse_tokens:
  assumes "tokens input = Inr ts" and "reads_or fl ts f []"
  shows "parse_filter fl input = Some (Inr f)"
proof -
  obtain n where n: "read_or fl n ts = Some (Inr (f, []))" using assms(2) by (auto simp: reads_or_def)
  obtain r where r: "read_or fl (4 * length ts + 4) ts = Some r"
    using all_return [of fl "4 * length ts + 4"] unfolding returns_def by fastforce
  have "r = Inr (f, [])"
    using n r more_fuel_le(1) [of n "max n (4 * length ts + 4)" fl ts] more_fuel_le(1) [of "4 * length ts + 4" "max n (4 * length ts + 4)" fl ts]
    by simp
  then show ?thesis using assms(1) r by (simp add: parse_filter_def del: read_or.simps)
qed

lemma spelled_or: "filter_ok fl num f \<Longrightarrow> reads_or fl (or_tokens num f) f []"
proof -
  assume "filter_ok fl num f"
  moreover have "or_loops fl f [] (f, [])" by (rule loops_stop) simp
  ultimately have "reads_or fl (or_tokens num f @ []) f []"
    using all_spelled [of fl num f] words_apart(5) unfolding spelled_reads_def by blast
  then show ?thesis by simp
qed

text \<open>C0: Every filter of the grammar has a spelling the parser reads back as that filter: \<open>and\<close> binds tighter than
  \<open>or\<close>, both group to the left, parentheses regroup, and any text at all survives its quotes.\<close>

theorem filters_read_back:
  assumes "filter_ok fl num f"
  shows "parse_filter fl (spell_filter num f) = Some (Inr f)"
proof (rule parse_tokens)
  show "tokens (spell_filter num f) = Inr (or_tokens num f)"
    using tokens_ok [OF assms] by (simp add: tokens_def spell_filter_def scan_spelled)
  show "reads_or fl (or_tokens num f) f []" by (rule spelled_or [OF assms])
qed

definition no_floats :: "string floats" where
  "no_floats = \<lparr>fl_parse = (\<lambda>s. if s = ''2'' then Some s else None), fl_of = (\<lambda>_. None), fl_cmp = (\<lambda>_ _. None)\<rparr>"

definition running_or_named :: "string filter_expr" where
  "running_or_named = FAnd (FOr (FCompare [''cluster'', ''extId''] OpEq (LText ''c1'')) (FStartsWith [''name''] (quoted ''x'')))
     (FCompare [''numSockets''] OpGe (LNumber ''2''))"

lemma filters_read_back_witness:
  "parse_filter no_floats (spell_filter id running_or_named) = Some (Inr running_or_named)"
proof (rule filters_read_back)
  have w: "ident ''cluster''" "ident ''extId''" "ident ''name''" "ident ''numSockets''"
    by (simp_all add: ident_def ident_char_def)
  show "filter_ok no_floats id running_or_named"
    by (simp add: running_or_named_def path_ok_def w eq_ignore_ascii_case_def no_floats_def word_ok_def ends_word_def
        blank_def quote_def to_lower_def Let_def)
qed

end
