(* ===== verification/Columns.thy ===== *)
theory Columns
  imports Store
begin

text \<open>
  The parts of the catalog only the views read (\<open>crates/catalog/src/lib.rs\<close>): column kinds,
  columns, the fields of a composed detail and the conditions they are drawn under, the menu, and how a
  kind is reached. What the source keeps in the same \<open>Kind\<close> is a second record here, found by the
  kind.
\<close>

section \<open>Columns and fields\<close>

datatype column_kind =
    CText | CEnum | CStatus | CBytes | CDuration | CTimestamp | CIp | CPercent | CMicros | CBool | CCount | CReference

record column =
  cl_header :: string
  cl_path :: string
  cl_kind :: column_kind

record detail_field =
  df_label :: string
  df_path :: string
  df_kind :: column_kind
  df_when :: "string option"

record detail_section =
  ds_title :: string
  ds_fields :: "detail_field list"
  ds_when :: "string option"

record kind_view =
  kv_columns :: "column list"
  kv_fallback_columns :: "column list"
  kv_detail :: "detail_section list"
  kv_filter_fields :: "string list"

type_synonym views = "kind \<Rightarrow> kind_view"

section \<open>Conditions\<close>

datatype when_cond = Present string | Absent string | Equals string string

definition object_type :: string where
  "object_type = CHR 0x24 # ''objectType''"

definition parse_when :: "string \<Rightarrow> when_cond option" where
  "parse_when typed =
     (let w = trim typed
      in if w = [] then None
         else case split_once CHR ''='' w of
             Some (p, v) \<Rightarrow>
               (let path = trim p; value = trim v
                in if path = [] \<or> value = [] \<or> prefix ''!'' path then None else Some (Equals path value))
           | None \<Rightarrow> (case strip_prefix ''!'' w of
               Some rest \<Rightarrow> (if trim rest \<noteq> [] then Some (Absent (trim rest)) else None)
             | None \<Rightarrow> Some (Present w)))"

definition object_type_prefix :: "string \<Rightarrow> string option" where
  "object_type_prefix path = (case strip_suffix object_type path of
       None \<Rightarrow> None
     | Some head \<Rightarrow> (if head = [] then Some [] else strip_suffix ''.'' head))"

definition short_type :: "string \<Rightarrow> string" where
  "short_type t = last (split_on CHR ''.'' t)"

section \<open>The menu\<close>

datatype nav_target = NavKind string | NavPage string | NavContexts | NavSettings | NavMissing

record nav_item =
  ni_label :: string
  ni_target :: nav_target
  ni_note :: "string option"

record nav_group =
  ng_name :: string
  ng_items :: "nav_item list"

section \<open>How a kind is reached\<close>

datatype reach = Direct | FromParent kind | NeedsParameter

fun reach_reason :: "reach \<Rightarrow> string option" where
  "reach_reason Direct = None"
| "reach_reason (FromParent p) = Some (''open from '' @ k_display p)"
| "reach_reason NeedsParameter = Some ''needs a parameter''"

text \<open>
  The parents of a kind, nearest first. The source follows them until one has none: on a table
  where a kind is its own ancestor it does not return, which is \<open>None\<close> here.
\<close>

definition parent_of :: "kind list \<Rightarrow> kind \<Rightarrow> kind option" where
  "parent_of kinds k = Option.bind (k_parent k) (kind_of_id kinds)"

partial_function (option) ancestors :: "kind list \<Rightarrow> kind option \<Rightarrow> kind list option" where
  "ancestors kinds current = (case current of
       None \<Rightarrow> Some []
     | Some p \<Rightarrow> Option.bind (ancestors kinds (parent_of kinds p)) (\<lambda>ps. Some (p # ps)))"

definition parent_chain :: "kind list \<Rightarrow> kind \<Rightarrow> kind list option" where
  "parent_chain kinds k = map_option rev (ancestors kinds (parent_of kinds k))"

definition reach_of :: "kind list \<Rightarrow> kind \<Rightarrow> reach option" where
  "reach_of kinds k =
     (if lp_required (k_list_params k) then Some NeedsParameter
      else case parent_chain kinds k of
          None \<Rightarrow> None
        | Some chain \<Rightarrow>
            (if length chain \<noteq> placeholder_count (k_list_path k) then Some NeedsParameter
             else if chain = [] then Some Direct else Some (FromParent (last chain))))"

section \<open>Properties\<close>

text \<open>No kind of the table is its own ancestor.\<close>

definition parents_ranked :: "kind list \<Rightarrow> (kind \<Rightarrow> nat) \<Rightarrow> bool" where
  "parents_ranked kinds height \<longleftrightarrow> (\<forall>k p. parent_of kinds k = Some p \<longrightarrow> height p < height k)"

lemma ancestors_return:
  assumes "parents_ranked kinds height"
  shows "\<exists>ps. ancestors kinds (parent_of kinds k) = Some ps"
proof (induction "height k" arbitrary: k rule: less_induct)
  case less
  show ?case
  proof (cases "parent_of kinds k")
    case None
    then show ?thesis by (subst ancestors.simps) simp
  next
    case (Some p)
    with assms have "height p < height k" by (simp add: parents_ranked_def)
    from less [OF this] obtain ps where "ancestors kinds (parent_of kinds p) = Some ps" by blast
    then show ?thesis using Some by (subst ancestors.simps) simp
  qed
qed

text \<open>C0: On a catalog where no kind is its own ancestor every kind has a way to be reached: following the parents
  ends, and a kind that is opened directly needs no identifier in its list path.\<close>

theorem every_kind_is_placed:
  assumes "parents_ranked kinds height"
  shows "\<exists>r. reach_of kinds k = Some r \<and> (r = Direct \<longrightarrow> placeholder_count (k_list_path k) = 0)"
proof -
  obtain ps where "ancestors kinds (parent_of kinds k) = Some ps" using ancestors_return [OF assms] by blast
  then show ?thesis by (auto simp: reach_of_def parent_chain_def)
qed

end
