(* ===== verification/Search.thy ===== *)
theory Search
  imports Columns Odata "HOL-Library.Multiset"
begin

text \<open>
  What a search matches a row on, what it sends, and what it finds in the store
  (\<open>crates/core/src/search.rs\<close>). Lower-casing follows Unicode's tables, which are a parameter
  (\<open>lower\<close>); the hash map of the store is read as a list, in an order nothing here relies on.
\<close>

section \<open>Dotted terms\<close>

record dotted =
  dt_exact :: "string list"
  dt_partial :: "string option"

definition is_digit :: "char \<Rightarrow> bool" where
  "is_digit c \<longleftrightarrow> digit_val c \<noteq> None"

definition dotted_parse :: "string \<Rightarrow> dotted option" where
  "dotted_parse term =
     (if CHR ''.'' \<notin> set term \<or> \<not> (\<exists>c \<in> set term. is_digit c) then None
      else if \<not> (\<forall>c \<in> set term. is_digit c \<or> c = CHR ''.'') then None
      else let parts = split_on CHR ''.'' term;
               partial = (if last parts = [] then None else Some (last parts));
               exact = butlast parts
           in if [] \<in> set exact then None else Some \<lparr>dt_exact = exact, dt_partial = partial\<rparr>)"

definition wanted_octets :: "dotted \<Rightarrow> nat" where
  "wanted_octets d = length (dt_exact d) + (if dt_partial d = None then 0 else 1)"

definition run_starts :: "dotted \<Rightarrow> string list \<Rightarrow> nat \<Rightarrow> bool" where
  "run_starts d candidate start \<longleftrightarrow>
     (\<forall>i \<in> set [0..<length (dt_exact d)]. candidate ! (start + i) = dt_exact d ! i) \<and>
     (case dt_partial d of None \<Rightarrow> True | Some p \<Rightarrow> prefix p (candidate ! (start + length (dt_exact d))))"

definition dotted_matches :: "dotted \<Rightarrow> string \<Rightarrow> bool" where
  "dotted_matches d address =
     (let candidate = split_on CHR ''.'' address; wanted = wanted_octets d
      in if wanted = 0 \<or> length candidate < wanted then False
         else \<exists>start \<in> set [0..<length candidate - wanted + 1]. run_starts d candidate start)"

section \<open>Queries\<close>

record query =
  qy_text :: string
  qy_needle :: string
  qy_dotted :: "dotted option"

definition query_new :: "(string \<Rightarrow> string) \<Rightarrow> string \<Rightarrow> query" where
  "query_new lower term = \<lparr>qy_text = term, qy_needle = lower term, qy_dotted = dotted_parse term\<rparr>"

definition query_is_empty :: "query \<Rightarrow> bool" where
  "query_is_empty q \<longleftrightarrow> qy_needle q = []"

definition is_address :: "query \<Rightarrow> bool" where
  "is_address q \<longleftrightarrow> qy_dotted q \<noteq> None"

definition contains_ci :: "(string \<Rightarrow> string) \<Rightarrow> string \<Rightarrow> string \<Rightarrow> bool" where
  "contains_ci lower hay needle \<longleftrightarrow> sublist needle (lower hay)"

datatype match_reason = MName | MExtId | MAddress string string

definition matches_address :: "(string \<Rightarrow> string) \<Rightarrow> query \<Rightarrow> string \<Rightarrow> bool" where
  "matches_address lower q v = (case qy_dotted q of
       Some d \<Rightarrow> dotted_matches d v
     | None \<Rightarrow> contains_ci lower v (qy_needle q))"

text \<open>Every path a kind keeps an address at.\<close>

definition addresses :: "kind_view \<Rightarrow> (string \<times> string) list" where
  "addresses kv =
     map (\<lambda>c. (cl_header c, cl_path c)) (filter (\<lambda>c. cl_kind c = CIp) (kv_columns kv @ kv_fallback_columns kv)) @
     map (\<lambda>f. (df_label f, df_path f)) (filter (\<lambda>f. df_kind f = CIp) (concat (map ds_fields (kv_detail kv))))"

fun some_strs :: "json list \<Rightarrow> string list" where
  "some_strs [] = []"
| "some_strs (v # vs) = (case as_str v of Some s \<Rightarrow> s # some_strs vs | None \<Rightarrow> some_strs vs)"

definition row_values :: "views \<Rightarrow> entity \<Rightarrow> (string \<times> string) list" where
  "row_values views e = concat (map (\<lambda>(label, path). map (Pair label) (some_strs (path_get (e_raw e) path)))
     (addresses (views (e_kind e))))"

definition context_key :: string where
  "context_key = CHR 0x24 # ''context''"

definition why :: "(string \<Rightarrow> string) \<Rightarrow> views \<Rightarrow> query \<Rightarrow> entity \<Rightarrow> match_reason option" where
  "why lower views q e =
     (if query_is_empty q then Some MName
      else if contains_ci lower (e_name e) (qy_needle q) then Some MName
      else if contains_ci lower (e_ext_id e) (qy_needle q) then Some MExtId
      else if (case Option.bind (jget context_key (e_raw e)) as_str of
          Some c \<Rightarrow> contains_ci lower c (qy_needle q) | None \<Rightarrow> False) then Some MName
      else map_option (\<lambda>(label, v). MAddress label v)
        (find (\<lambda>(_, v). matches_address lower q v) (row_values views e)))"

definition query_matches :: "(string \<Rightarrow> string) \<Rightarrow> views \<Rightarrow> query \<Rightarrow> entity \<Rightarrow> bool" where
  "query_matches lower views q e \<longleftrightarrow> why lower views q e \<noteq> None"

section \<open>What is sent\<close>

text \<open>The doubling of quotes is \<open>odata_literal\<close> of \<open>Pollers\<close>, in both modules.\<close>

definition hex_digit :: "char \<Rightarrow> bool" where
  "hex_digit c \<longleftrightarrow> (let n = (of_char c :: nat) in
     48 \<le> n \<and> n \<le> 57 \<or> 65 \<le> n \<and> n \<le> 70 \<or> 97 \<le> n \<and> n \<le> 102)"

definition is_uuid :: "string \<Rightarrow> bool" where
  "is_uuid s = (let parts = split_on CHR ''-'' s
     in map length parts = [8, 4, 4, 4, 12] \<and> (\<forall>p \<in> set parts. \<forall>c \<in> set p. hex_digit c))"

definition search_filter :: "views \<Rightarrow> kind \<Rightarrow> query \<Rightarrow> string option" where
  "search_filter views k q =
     (if \<not> lp_filter (k_list_params k) \<or> query_is_empty q \<or> is_address q then None
      else if ''name'' \<in> set (kv_filter_fields (views k))
      then Some (''startswith(name,'' @ quoted (odata_literal (qy_text q)) @ '')'')
      else if ''extId'' \<in> set (kv_filter_fields (views k)) \<and> is_uuid (qy_text q)
      then Some (''extId eq '' @ quoted (odata_literal (qy_text q)))
      else None)"

text \<open>\<open>None\<close> where following a kind's parents does not end.\<close>

definition ask_one :: "kind list \<Rightarrow> views \<Rightarrow> query \<Rightarrow> kind \<Rightarrow> (kind \<times> string option) list" where
  "ask_one kinds views q k =
     (if reach_of kinds k \<noteq> Some Direct then []
      else if is_address q then (if addresses (views k) = [] then [] else [(k, None)])
      else case search_filter views k q of None \<Rightarrow> [] | Some f \<Rightarrow> [(k, Some f)])"

definition search_plan :: "kind list \<Rightarrow> views \<Rightarrow> query \<Rightarrow> (kind \<times> string option) list" where
  "search_plan kinds views q = (if query_is_empty q then [] else concat (map (ask_one kinds views q) kinds))"

section \<open>What the store holds\<close>

record hit =
  ht_kind :: kind
  ht_ext_id :: string
  ht_name :: string
  ht_detail :: string

record hit_group =
  hg_kind :: kind
  hg_hits :: "hit list"

record found =
  fo_groups :: "hit_group list"
  fo_loaded :: nat
  fo_not_loaded :: nat

definition labelled :: "string \<Rightarrow> string \<Rightarrow> string" where
  "labelled label v = label @ '' '' @ v"

definition hit_detail :: "views \<Rightarrow> entity \<Rightarrow> match_reason \<Rightarrow> string" where
  "hit_detail views e m = (case m of
       MAddress label v \<Rightarrow> labelled label v
     | MExtId \<Rightarrow> e_ext_id e
     | MName \<Rightarrow> (case row_values views e of [] \<Rightarrow> [] | (label, v) # _ \<Rightarrow> labelled label v))"

definition hit_of :: "views \<Rightarrow> entity \<Rightarrow> match_reason \<Rightarrow> hit" where
  "hit_of views e m = \<lparr>ht_kind = e_kind e, ht_ext_id = e_ext_id e, ht_name = e_name e, ht_detail = hit_detail views e m\<rparr>"

text \<open>One row into the groups, which are kept by the kind's id.\<close>

definition add_row :: "(string \<Rightarrow> string) \<Rightarrow> views \<Rightarrow> query \<Rightarrow> entity \<Rightarrow> (string \<times> hit_group) list \<Rightarrow> (string \<times> hit_group) list" where
  "add_row lower views q e groups =
     (case why lower views q e of
        None \<Rightarrow> groups
      | Some m \<Rightarrow>
          (let i = k_id (e_kind e);
               g = (case map_of groups i of Some g \<Rightarrow> g | None \<Rightarrow> \<lparr>hg_kind = e_kind e, hg_hits = []\<rparr>)
           in if \<exists>h \<in> set (hg_hits g). ht_ext_id h = e_ext_id e then im_insert i g groups
              else im_insert i (g\<lparr>hg_hits := hg_hits g @ [hit_of views e m]\<rparr>) groups))"

definition own_tables :: "(table_key \<times> table) list \<Rightarrow> (table_key \<times> table) list" where
  "own_tables ts = filter (\<lambda>(key, _). tk_context key = None) ts"

definition own_rows :: "(table_key \<times> table) list \<Rightarrow> entity list" where
  "own_rows ts = concat (map (\<lambda>(_, t). map snd (tb_rows t)) (own_tables ts))"

fun nav_position :: "nav_item list \<Rightarrow> string \<Rightarrow> nat \<Rightarrow> nat option" where
  "nav_position [] i n = None"
| "nav_position (it # its) i n = (if ni_target it = NavKind i then Some n else nav_position its i (Suc n))"

definition menu_position :: "nav_group list \<Rightarrow> kind \<Rightarrow> nat" where
  "menu_position nav k = (case nav_position (concat (map ng_items nav)) (k_id k) 0 of Some n \<Rightarrow> n | None \<Rightarrow> u64_max)"

text \<open>The groups come out of the ordered map by id, then stably by the menu and the display name.\<close>

definition search_across :: "(string \<Rightarrow> string) \<Rightarrow> views \<Rightarrow> nav_group list \<Rightarrow> kind list \<Rightarrow> query \<Rightarrow> (table_key \<times> table) list \<Rightarrow> found" where
  "search_across lower views nav kinds q ts =
     (let groups = fold (add_row lower views q) (own_rows ts) [];
          loaded = card (set (map (\<lambda>(key, _). k_id (tk_kind key)) (own_tables ts)))
      in \<lparr>fo_groups = sort_key (\<lambda>g. menu_position nav (hg_kind g))
            (sort_key (\<lambda>g. k_display (hg_kind g)) (map snd (sort_key fst groups))),
          fo_loaded = loaded, fo_not_loaded = length kinds - loaded\<rparr>)"

definition found_hits :: "found \<Rightarrow> nat" where
  "found_hits f = sum_list (map (\<lambda>g. length (hg_hits g)) (fo_groups f))"

section \<open>Properties\<close>

subsection \<open>Addresses\<close>

text \<open>A run of an address: whole octets, then one that starts with the unfinished one.\<close>

definition names_run :: "dotted \<Rightarrow> string list \<Rightarrow> bool" where
  "names_run d octets \<longleftrightarrow> (\<exists>before rest. octets = before @ dt_exact d @ rest \<and>
     (case dt_partial d of None \<Rightarrow> dt_exact d \<noteq> [] | Some p \<Rightarrow> \<exists>oct after. rest = oct # after \<and> prefix p oct))"

lemma run_at:
  "(\<forall>i < length xs. ys ! (start + i) = xs ! i) \<longleftrightarrow> take (length xs) (drop start ys) = xs"
  if "start + length xs \<le> length ys"
proof -
  have l: "length (take (length xs) (drop start ys)) = length xs" using that by simp
  show ?thesis
    using that by (auto simp: list_eq_iff_nth_eq [of "take (length xs) (drop start ys)"] l)
qed

lemma start_in_range:
  "0 < (w::nat) \<and> w \<le> l \<and> (\<exists>s. s < l - w + 1 \<and> P s) \<longleftrightarrow> 0 < w \<and> (\<exists>s. s + w \<le> l \<and> P s)"
proof (cases "w \<le> l")
  case True
  then have "(s < l - w + 1) = (s + w \<le> l)" for s by linarith
  then show ?thesis using True by simp
next
  case False
  then have "\<not> (s + w \<le> l)" for s by linarith
  then show ?thesis using False by simp
qed

lemma dotted_matches_run:
  "dotted_matches d address \<longleftrightarrow> 0 < wanted_octets d \<and>
     (\<exists>start. start + wanted_octets d \<le> length (split_on CHR ''.'' address) \<and> run_starts d (split_on CHR ''.'' address) start)"
  unfolding start_in_range [symmetric]
  by (auto simp: dotted_matches_def Let_def not_less simp del: upt_Suc)

lemma run_starts_take:
  "start + wanted_octets d \<le> length ys \<Longrightarrow> run_starts d ys start \<longleftrightarrow>
     take (length (dt_exact d)) (drop start ys) = dt_exact d \<and>
     (case dt_partial d of None \<Rightarrow> True | Some p \<Rightarrow> prefix p (ys ! (start + length (dt_exact d))))"
  using run_at [of start "dt_exact d" ys] by (auto simp: run_starts_def wanted_octets_def split: if_splits)

text \<open>C0: An address term matches an address exactly when its octets line up with a run of the address's: every
  octet before the last whole, the unfinished last one as the beginning of an octet - never a piece of text that
  happens to occur across a dot.\<close>

theorem addresses_match_by_octet:
  "dotted_matches d address \<longleftrightarrow> names_run d (split_on CHR ''.'' address)"
proof -
  let ?c = "split_on CHR ''.'' address" and ?n = "length (dt_exact d)"
  show ?thesis
  proof
    assume "dotted_matches d address"
    then obtain start where w: "0 < wanted_octets d" and l: "start + wanted_octets d \<le> length ?c"
      and r: "run_starts d ?c start"
      using dotted_matches_run by blast
    have s: "take ?n (drop start ?c) = dt_exact d"
      "case dt_partial d of None \<Rightarrow> True | Some p \<Rightarrow> prefix p (?c ! (start + ?n))"
      using run_starts_take [OF l] r by blast+
    have c: "?c = take start ?c @ dt_exact d @ drop (start + ?n) ?c"
      using s(1) by (metis append_take_drop_id drop_drop add.commute)
    show "names_run d ?c"
    proof (cases "dt_partial d")
      case None
      then have "dt_exact d \<noteq> []" using w by (auto simp: wanted_octets_def)
      then show ?thesis using None c unfolding names_run_def by auto
    next
      case (Some p)
      then have "start + ?n < length ?c" using l by (simp add: wanted_octets_def)
      then have "drop (start + ?n) ?c = ?c ! (start + ?n) # drop (Suc (start + ?n)) ?c" by (rule Cons_nth_drop_Suc [symmetric])
      then show ?thesis using c s(2) Some unfolding names_run_def by fastforce
    qed
  next
    assume "names_run d ?c"
    then obtain before rest where c: "?c = before @ dt_exact d @ rest"
      and r: "case dt_partial d of None \<Rightarrow> dt_exact d \<noteq> [] | Some p \<Rightarrow> \<exists>oct after. rest = oct # after \<and> prefix p oct"
      unfolding names_run_def by blast
    have l: "0 < wanted_octets d" "length before + wanted_octets d \<le> length ?c"
      using c r by (auto simp: wanted_octets_def split: option.splits)
    have "take ?n (drop (length before) ?c) = dt_exact d" using c by simp
    moreover have "case dt_partial d of None \<Rightarrow> True | Some p \<Rightarrow> prefix p (?c ! (length before + ?n))"
      using c r by (auto simp: nth_append split: option.splits)
    ultimately have "run_starts d ?c (length before)" using run_starts_take [OF l(2)] by blast
    then show "dotted_matches d address" using dotted_matches_run l by blast
  qed
qed

subsection \<open>What is sent is what is meant\<close>

lemma word_ok_literals:
  "word_ok ''startswith''" "word_ok ''name''" "word_ok ''extId''" "word_ok ''eq''"
  by (simp_all add: word_ok_def ends_word_def blank_def quote_def)

lemma starts_with_tokens:
  "tokens (''startswith(name,'' @ quoted (odata_literal t) @ '')'') =
    Inr [TWord ''startswith'', TOpen, TWord ''name'', TComma, TStr t, TClose]"
proof -
  have q: "CHR ''('' \<noteq> quote" "CHR '','' \<noteq> quote" "CHR '')'' \<noteq> quote" by (simp_all add: quote_def)
  have 1: "scan n (''startswith'' @ ''('' @ rest) = and_tokens (TWord ''startswith'') (scan n (''('' @ rest))" for n rest
    using q by (intro scan_word word_ok_literals) simp
  have 2: "scan n (''name'' @ '','' @ rest) = and_tokens (TWord ''name'') (scan n ('','' @ rest))" for n rest
    using q by (intro scan_word word_ok_literals) simp
  have 3: "scan n (quoted (odata_literal t) @ '')'') = and_tokens (TStr t) (scan n '')'')" for n
    using q by (intro scan_string) simp
  show ?thesis
    unfolding tokens_def using 1 2 3 by simp
qed

lemma ext_id_tokens:
  "tokens (''extId eq '' @ quoted (odata_literal t)) = Inr [TWord ''extId'', TWord ''eq'', TStr t]"
proof -
  have q: "CHR '' '' \<noteq> quote" by (simp add: quote_def)
  have 1: "scan n (''extId'' @ '' '' @ rest) = and_tokens (TWord ''extId'') (scan n ('' '' @ rest))" for n rest
    using q by (intro scan_word word_ok_literals) simp
  have 2: "scan n (''eq'' @ '' '' @ rest) = and_tokens (TWord ''eq'') (scan n ('' '' @ rest))" for n rest
    using q by (intro scan_word word_ok_literals) simp
  have 3: "scan n (quoted (odata_literal t)) = and_tokens (TStr t) (scan n [])" for n
    using scan_string [of "[]" n t] by simp
  show ?thesis
    unfolding tokens_def using 1 2 3 by simp
qed

lemma path_words: "path_of ''name'' = Inr [''name'']" "path_of ''extId'' = Inr [''extId'']"
  by (simp_all add: path_of_def ident_def ident_char_def Let_def)

lemma starts_with_meaning:
  fixes fl :: "'f floats"
  shows "parse_filter fl (''startswith(name,'' @ quoted (odata_literal t) @ '')'') = Some (Inr (FStartsWith [''name''] t))"
proof (rule parse_tokens [OF starts_with_tokens])
  have "reads_or fl (or_tokens undefined (FStartsWith [''name''] t :: 'f filter_expr)) (FStartsWith [''name''] t) []"
    by (rule spelled_or) (simp add: path_ok_def ident_def ident_char_def)
  then show "reads_or fl [TWord ''startswith'', TOpen, TWord ''name'', TComma, TStr t, TClose] (FStartsWith [''name''] t) []"
    by simp
qed

lemma ext_id_meaning:
  fixes fl :: "'f floats"
  shows "parse_filter fl (''extId eq '' @ quoted (odata_literal t)) = Some (Inr (FCompare [''extId''] OpEq (LText t)))"
proof (rule parse_tokens [OF ext_id_tokens])
  have "reads_or fl (or_tokens undefined (FCompare [''extId''] OpEq (LText t) :: 'f filter_expr)) (FCompare [''extId''] OpEq (LText t)) []"
    by (rule spelled_or)
      (simp add: path_ok_def ident_def ident_char_def eq_ignore_ascii_case_def to_lower_def Let_def)
  then show "reads_or fl [TWord ''extId'', TWord ''eq'', TStr t] (FCompare [''extId''] OpEq (LText t)) []"
    by simp
qed

text \<open>The rows of an answer a search's filter selects.\<close>

definition selects :: "'f floats \<Rightarrow> string \<Rightarrow> json \<Rightarrow> bool option" where
  "selects fl text row = (case parse_filter fl text of Some (Inr f) \<Rightarrow> Some (filter_matches fl f row) | _ \<Rightarrow> None)"

lemma instant_key_same: "compare_text a b = REqual \<longleftrightarrow> a = b"
  by (auto simp: compare_text_def)

lemma set_split_on: "set s \<subseteq> insert c (\<Union>p \<in> set (split_on c s). set p)"
proof (induction s)
  case (Cons x s)
  obtain w ws where "split_on c s = w # ws" by (cases "split_on c s") auto
  then show ?case using Cons by (cases "x = c") auto
qed simp

lemma uuid_chars:
  assumes "is_uuid t" and "c \<in> set t"
  shows "c = CHR ''-'' \<or> hex_digit c"
proof -
  have "c = CHR ''-'' \<or> (\<exists>p \<in> set (split_on CHR ''-'' t). c \<in> set p)"
    using set_split_on [of t "CHR ''-''"] assms(2) by blast
  moreover have "\<forall>p \<in> set (split_on CHR ''-'' t). \<forall>c \<in> set p. hex_digit c"
    using assms(1) unfolding is_uuid_def Let_def by blast
  ultimately show ?thesis by blast
qed

lemma uuid_text:
  assumes "is_uuid t"
  shows "compare_text (instant_key v) (instant_key t) = REqual \<longleftrightarrow> v = t"
proof -
  have no: "CHR ''T'' \<notin> set t" "CHR ''.'' \<notin> set t"
    using uuid_chars [OF assms, of "CHR ''T''"] uuid_chars [OF assms, of "CHR ''.''"] by (auto simp: hex_digit_def)
  moreover have "t ! 10 \<in> set t" if "20 \<le> length t"
    using that by (intro nth_mem) linarith
  ultimately have "\<not> is_instant t" unfolding is_instant_def by metis
  then have t: "instant_key t = t" by (simp add: instant_key_def)
  have "instant_key v = t \<Longrightarrow> v = t"
    using no(2) by (auto simp: instant_key_def split: if_splits option.splits prod.splits)
  with t show ?thesis by (auto simp: instant_key_same)
qed

text \<open>C0: Whatever is typed, the filter a search sends is read by the server as that term and nothing else: no quote,
  parenthesis or keyword in it can close the literal. It selects the rows whose name starts with the term, or, for a
  kind that can only be filtered by identifier, the row whose identifier is the term.\<close>

theorem search_filters_mean_the_term:
  assumes "search_filter views k (query_new lower term) = Some text"
  shows "selects fl text row = Some (if ''name'' \<in> set (kv_filter_fields (views k))
    then (case lookup_value row [''name''] of Some (JStr n) \<Rightarrow> prefix term n | _ \<Rightarrow> False)
    else (case lookup_value row [''extId''] of Some (JStr i) \<Rightarrow> i = term | _ \<Rightarrow> False))"
proof (cases "''name'' \<in> set (kv_filter_fields (views k))")
  case True
  with assms have "text = ''startswith(name,'' @ quoted (odata_literal term) @ '')''"
    by (auto simp: search_filter_def query_new_def split: if_splits)
  then show ?thesis using True by (simp only: selects_def starts_with_meaning) simp
next
  case False
  with assms have t: "text = ''extId eq '' @ quoted (odata_literal term)" and u: "is_uuid term"
    by (auto simp: search_filter_def query_new_def split: if_splits)
  have "filter_matches fl (FCompare [''extId''] OpEq (LText term)) row =
      (case lookup_value row [''extId''] of Some (JStr i) \<Rightarrow> i = term | _ \<Rightarrow> False)"
    using uuid_text [OF u] by (auto split: option.split json.split)
  then show ?thesis using False by (simp only: selects_def t ext_id_meaning) simp
qed

definition lab_views :: views where
  "lab_views k = \<lparr>kv_columns = [], kv_fallback_columns = [], kv_detail = [], kv_filter_fields = [''name'']\<rparr>"

lemma search_filters_mean_the_term_witness:
  "selects no_floats (''startswith(name,'' @ quoted (odata_literal (CHR 0x27 # '') or (true'')) @ '')'')
     (JObj [(''name'', JStr (CHR 0x27 # '') or (true-01''))]) = Some True"
proof -
  let ?t = "CHR 0x27 # '') or (true''"
  have "search_filter lab_views lab_kind (query_new id ?t) = Some (''startswith(name,'' @ quoted (odata_literal ?t) @ '')'')"
    by (simp add: search_filter_def lab_views_def lab_kind_def query_new_def query_is_empty_def is_address_def dotted_parse_def)
  from search_filters_mean_the_term [OF this, of no_floats "JObj [(''name'', JStr (?t @ ''-01''))]"]
  show ?thesis by (simp add: lab_views_def lookup_value_def)
qed

subsection \<open>What is found\<close>

definition group_ids :: "(string \<times> hit_group) list \<Rightarrow> string \<Rightarrow> string set" where
  "group_ids groups i = (case map_of groups i of None \<Rightarrow> {} | Some g \<Rightarrow> ht_ext_id ` set (hg_hits g))"

definition matching_ids :: "(string \<Rightarrow> string) \<Rightarrow> views \<Rightarrow> query \<Rightarrow> entity list \<Rightarrow> string \<Rightarrow> string set" where
  "matching_ids lower views q es i = e_ext_id ` {e \<in> set es. k_id (e_kind e) = i \<and> query_matches lower views q e}"

definition groups_ok :: "(string \<times> hit_group) list \<Rightarrow> bool" where
  "groups_ok groups \<longleftrightarrow> distinct (map fst groups) \<and>
     (\<forall>(i, g) \<in> set groups. k_id (hg_kind g) = i \<and> distinct (map ht_ext_id (hg_hits g)))"

lemma groups_ok_of: "groups_ok groups \<Longrightarrow> map_of groups i = Some g \<Longrightarrow> k_id (hg_kind g) = i \<and> distinct (map ht_ext_id (hg_hits g))"
  using map_of_SomeD by (fastforce simp: groups_ok_def)

lemma groups_ok_insert:
  assumes "groups_ok groups" and "k_id (hg_kind g) = i" and "distinct (map ht_ext_id (hg_hits g))"
  shows "groups_ok (im_insert i g groups)"
  using assms distinct_im_insert [of groups i g] set_im_insert [of _ i g groups] unfolding groups_ok_def by fastforce

lemma group_ids_insert:
  "group_ids (im_insert j g groups) i = (if i = j then ht_ext_id ` set (hg_hits g) else group_ids groups i)"
  by (simp add: group_ids_def map_of_im_insert)

lemma matching_ids_snoc:
  "matching_ids lower views q (es @ [e]) i = matching_ids lower views q es i \<union>
     (if k_id (e_kind e) = i \<and> query_matches lower views q e then {e_ext_id e} else {})"
  by (auto simp: matching_ids_def)

lemma add_row_step:
  assumes ok: "groups_ok groups"
  shows "groups_ok (add_row lower views q e groups)"
    and "group_ids (add_row lower views q e groups) i = group_ids groups i \<union>
      (if k_id (e_kind e) = i \<and> query_matches lower views q e then {e_ext_id e} else {})"
proof -
  let ?k = "k_id (e_kind e)"
  define g where "g = (case map_of groups ?k of Some g \<Rightarrow> g | None \<Rightarrow> \<lparr>hg_kind = e_kind e, hg_hits = []\<rparr>)"
  have g: "k_id (hg_kind g) = ?k \<and> distinct (map ht_ext_id (hg_hits g))"
    using groups_ok_of [OF ok] by (auto simp: g_def split: option.split)
  have ids: "ht_ext_id ` set (hg_hits g) = group_ids groups ?k"
    by (auto simp: g_def group_ids_def split: option.split)
  have "groups_ok (add_row lower views q e groups) \<and>
      group_ids (add_row lower views q e groups) i = group_ids groups i \<union>
        (if ?k = i \<and> query_matches lower views q e then {e_ext_id e} else {})"
  proof (cases "why lower views q e")
    case None
    then show ?thesis using ok by (simp add: add_row_def query_matches_def)
  next
    case (Some m)
    show ?thesis
    proof (cases "\<exists>h \<in> set (hg_hits g). ht_ext_id h = e_ext_id e")
      case True
      then have add: "add_row lower views q e groups = im_insert ?k g groups"
        using Some by (simp add: add_row_def Let_def g_def [symmetric])
      obtain h where h: "h \<in> set (hg_hits g)" "ht_ext_id h = e_ext_id e" using True by blast
      have known: "e_ext_id e \<in> group_ids groups ?k"
        using imageI [OF h(1), of ht_ext_id] unfolding ids h(2) .
      have "groups_ok (im_insert ?k g groups)" using groups_ok_insert [OF ok] g by blast
      moreover have "(if i = ?k then group_ids groups ?k else group_ids groups i) = group_ids groups i \<union>
          (if ?k = i \<and> Some m \<noteq> None then {e_ext_id e} else {})"
        using known by (cases "i = ?k") auto
      ultimately show ?thesis unfolding add group_ids_insert ids query_matches_def Some by blast
    next
      case False
      let ?g = "g\<lparr>hg_hits := hg_hits g @ [hit_of views e m]\<rparr>"
      have "add_row lower views q e groups = im_insert ?k ?g groups"
        using Some False by (simp add: add_row_def Let_def g_def [symmetric])
      moreover have "groups_ok (im_insert ?k ?g groups)"
        using g False by (intro groups_ok_insert [OF ok]) (auto simp: hit_of_def)
      ultimately show ?thesis
        using ids Some by (simp add: group_ids_insert query_matches_def hit_of_def)
    qed
  qed
  then show "groups_ok (add_row lower views q e groups)"
    and "group_ids (add_row lower views q e groups) i = group_ids groups i \<union>
      (if k_id (e_kind e) = i \<and> query_matches lower views q e then {e_ext_id e} else {})" by blast+
qed

lemma add_rows:
  "groups_ok (fold (add_row lower views q) es []) \<and>
    group_ids (fold (add_row lower views q) es []) i = matching_ids lower views q es i"
proof (induction es arbitrary: i rule: rev_induct)
  case Nil
  then show ?case by (simp add: groups_ok_def group_ids_def matching_ids_def)
next
  case (snoc e es)
  then show ?case using add_row_step [of "fold (add_row lower views q) es []"] by (simp add: matching_ids_snoc)
qed

definition hits_of_kind :: "string \<Rightarrow> found \<Rightarrow> hit list" where
  "hits_of_kind i f = concat (map hg_hits (filter (\<lambda>g. k_id (hg_kind g) = i) (fo_groups f)))"

lemma only_group:
  assumes "groups_ok groups"
  shows "filter (\<lambda>g. k_id (hg_kind g) = i) (map snd groups) = (case map_of groups i of None \<Rightarrow> [] | Some g \<Rightarrow> [g])"
  using assms
proof (induction groups)
  case (Cons p groups)
  obtain j g where p: "p = (j, g)" by force
  have ok: "groups_ok groups" and j: "k_id (hg_kind g) = j" "j \<notin> fst ` set groups"
    using Cons.prems p by (auto simp: groups_ok_def)
  have "map_of groups j = None" using j(2) by (simp add: map_of_eq_None_iff)
  then show ?case using Cons.IH [OF ok] p j(1) by auto
qed (simp add: groups_ok_def)

text \<open>C0: A search of the store finds every row of this session's tables that the term names, once per kind and
  identifier however many tables hold it, and nothing else: no row of a joined context, no row the term does not
  match. The groups come out in the menu's order.\<close>

theorem search_finds_each_row_once:
  "distinct (map ht_ext_id (hits_of_kind i (search_across lower views nav kinds q ts))) \<and>
   ht_ext_id ` set (hits_of_kind i (search_across lower views nav kinds q ts)) = matching_ids lower views q (own_rows ts) i \<and>
   sorted (map (\<lambda>g. menu_position nav (hg_kind g)) (fo_groups (search_across lower views nav kinds q ts)))"
proof -
  define groups where "groups = fold (add_row lower views q) (own_rows ts) []"
  have ok: "groups_ok groups" and ids: "group_ids groups i = matching_ids lower views q (own_rows ts) i"
    using add_rows unfolding groups_def by blast+
  let ?out = "fo_groups (search_across lower views nav kinds q ts)"
  have "mset ?out = mset (map snd groups)"
    by (simp add: search_across_def Let_def groups_def)
  then have "mset (filter (\<lambda>g. k_id (hg_kind g) = i) ?out) = mset (filter (\<lambda>g. k_id (hg_kind g) = i) (map snd groups))"
    by simp
  then have "filter (\<lambda>g. k_id (hg_kind g) = i) ?out = (case map_of groups i of None \<Rightarrow> [] | Some g \<Rightarrow> [g])"
    unfolding only_group [OF ok] by (cases "map_of groups i") (simp_all del: mset_filter add: mset_single_iff)
  then have h: "hits_of_kind i (search_across lower views nav kinds q ts) = (case map_of groups i of None \<Rightarrow> [] | Some g \<Rightarrow> hg_hits g)"
    by (auto simp: hits_of_kind_def split: option.split)
  have "sorted (map (\<lambda>g. menu_position nav (hg_kind g)) ?out)"
    by (simp add: search_across_def Let_def)
  then show ?thesis
    using h ids groups_ok_of [OF ok] by (auto simp: group_ids_def split: option.splits)
qed

end
