(* ===== verification/Tasks.thy ===== *)
theory Tasks
  imports Scheduler Journal
begin

text \<open>
  Following the task an action returned (\<open>crates/core/src/tasks.rs\<close>): the status words, a watch and
  its index. The kind of a task is looked up in the catalog by the source; here it is an argument.
\<close>

section \<open>Status words\<close>

datatype task_status =
    TsQueued | TsRunning | TsCanceling | TsSucceeded | TsFailed | TsCanceled | TsSuspended | TsUnknown

definition parse_status :: "string \<Rightarrow> task_status" where
  "parse_status s =
     (if s = ''QUEUED'' then TsQueued
      else if s = ''RUNNING'' then TsRunning
      else if s = ''CANCELING'' \<or> s = ''CANCELLING'' then TsCanceling
      else if s = ''SUCCEEDED'' then TsSucceeded
      else if s = ''FAILED'' then TsFailed
      else if s = ''CANCELED'' \<or> s = ''CANCELLED'' then TsCanceled
      else if s = ''SUSPENDED'' then TsSuspended
      else TsUnknown)"

fun is_terminal :: "task_status \<Rightarrow> bool" where
  "is_terminal TsSucceeded = True"
| "is_terminal TsFailed = True"
| "is_terminal TsCanceled = True"
| "is_terminal _ = False"

fun status_label :: "task_status \<Rightarrow> string" where
  "status_label TsQueued = ''queued''"
| "status_label TsRunning = ''running''"
| "status_label TsCanceling = ''cancelling''"
| "status_label TsSucceeded = ''succeeded''"
| "status_label TsFailed = ''failed''"
| "status_label TsCanceled = ''cancelled''"
| "status_label TsSuspended = ''suspended''"
| "status_label TsUnknown = ''unknown''"

section \<open>Watches\<close>

definition give_up_after :: duration where
  "give_up_after = from_secs (15 * 60)"

record task_watch =
  tw_task :: string
  tw_kind :: kind
  tw_row_kind :: kind
  tw_ext_id :: string
  tw_name :: string
  tw_action :: string
  tw_parents :: "string list"
  tw_status :: task_status
  tw_progress :: nat
  tw_started :: instant
  tw_sub :: sub_id
  tw_errors :: "string list"
  tw_completion :: "(string \<times> string) list"
  tw_cancelable :: bool
  tw_journal :: journal_id

definition fresh_watch :: "kind \<Rightarrow> instant \<Rightarrow> sub_id \<Rightarrow> journal_id \<Rightarrow> task_watch" where
  "fresh_watch tkind now sub j =
     \<lparr>tw_task = [], tw_kind = tkind, tw_row_kind = tkind, tw_ext_id = [], tw_name = [], tw_action = [],
      tw_parents = [], tw_status = TsQueued, tw_progress = 0, tw_started = now, tw_sub = sub, tw_errors = [],
      tw_completion = [], tw_cancelable = True, tw_journal = j\<rparr>"

definition watch_line :: "task_watch \<Rightarrow> string" where
  "watch_line w =
     (let head = tw_action w @ '' '' @ tw_name w @ '' '' @ status_label (tw_status w)
      in if tw_status w = TsRunning \<or> tw_status w = TsQueued then head @ '' '' @ show_nat (tw_progress w) @ ''%'' else head)"

record finished =
  fi_watch :: task_watch
  fi_outcome :: journal_outcome

definition outcome_text :: "finished \<Rightarrow> string" where
  "outcome_text f = outcome_label (fi_outcome f)"

text \<open>\<open>by_entity\<close>: the tasks that touched an entity, none for one that is not in the map.\<close>

record task_index =
  ti_by_entity :: "string \<Rightarrow> string list"
  ti_watched :: "(string \<times> task_watch) list"

definition index_empty :: task_index where
  "index_empty = \<lparr>ti_by_entity = (\<lambda>_. []), ti_watched = []\<rparr>"

definition watch_task :: "kind \<Rightarrow> instant \<Rightarrow> string option \<Rightarrow> plan \<Rightarrow> string \<Rightarrow> journal_id \<Rightarrow> task_index \<Rightarrow> scheduler
    \<Rightarrow> sub_id \<times> task_index \<times> scheduler" where
  "watch_task tkind now ctxt p task j ix sc =
     (let key = (case ctxt of Some name \<Rightarrow> in_context name (key_top tkind) | None \<Rightarrow> key_top tkind);
          every = from_secs (max (k_poll_secs (tk_kind key)) 1);
          (sub, sc') = subscribe (watching (sub_single key every task)) sc;
          w = (fresh_watch tkind now sub j)\<lparr>tw_task := task, tw_kind := pl_kind p, tw_row_kind := pl_row_kind p,
                tw_ext_id := pl_ext_id p, tw_name := pl_name p, tw_action := a_name (pl_action p),
                tw_parents := pl_parents p\<rparr>
      in (sub, ix\<lparr>ti_watched := im_insert task w (ti_watched ix)\<rparr>, sc'))"

section \<open>A task's entity\<close>

definition array_at :: "string \<Rightarrow> json \<Rightarrow> json list" where
  "array_at key raw = (case Option.bind (jget key raw) as_array of Some xs \<Rightarrow> xs | None \<Rightarrow> [])"

definition str_at :: "string \<Rightarrow> json \<Rightarrow> string option" where
  "str_at key v = Option.bind (jget key v) as_str"

definition strings_at :: "json \<Rightarrow> string \<Rightarrow> string \<Rightarrow> string list" where
  "strings_at raw arr fld = List.map_filter (str_at fld) (array_at arr raw)"

definition touched_entities :: "json \<Rightarrow> string list" where
  "touched_entities raw = strings_at raw ''entitiesAffected'' ''extId''"

definition note_task :: "string \<Rightarrow> string \<Rightarrow> (string \<Rightarrow> string list) \<Rightarrow> (string \<Rightarrow> string list)" where
  "note_task task ent m = (if task \<in> set (m ent) then m else m(ent := m ent @ [task]))"

definition completion_pair :: "json \<Rightarrow> (string \<times> string) option" where
  "completion_pair d = (case str_at ''name'' d of
       None \<Rightarrow> None
     | Some name \<Rightarrow> (case jget ''value'' d of
         None \<Rightarrow> None
       | Some v \<Rightarrow> Some (name, case as_str v of Some s \<Rightarrow> s | None \<Rightarrow> [])))"

definition observed :: "json \<Rightarrow> task_watch \<Rightarrow> task_watch" where
  "observed raw w = w\<lparr>
     tw_status := parse_status (case str_at ''status'' raw of Some s \<Rightarrow> s | None \<Rightarrow> []),
     tw_progress := min (case Option.bind (jget ''progressPercentage'' raw) as_u64 of Some n \<Rightarrow> n | None \<Rightarrow> 0) 100,
     tw_cancelable := (case Option.bind (jget ''isCancelable'' raw) as_bool of Some b \<Rightarrow> b | None \<Rightarrow> False),
     tw_errors := strings_at raw ''errorMessages'' ''message'',
     tw_completion := List.map_filter completion_pair (array_at ''completionDetails'' raw)\<rparr>"

definition outcome_of :: "task_watch \<Rightarrow> journal_outcome" where
  "outcome_of w = (case tw_status w of
       TsSucceeded \<Rightarrow> Succeeded
     | TsFailed \<Rightarrow> Failed (if tw_errors w = [] then ''the task failed'' else join ''; '' (tw_errors w))
     | TsCanceled \<Rightarrow> Cancelled
     | other \<Rightarrow> UnknownAs (status_label other))"

definition apply_task :: "entity \<Rightarrow> task_index \<Rightarrow> finished option \<times> task_index" where
  "apply_task e ix =
     (let i = e_ext_id e
      in case map_of (ti_watched ix) i of
           None \<Rightarrow> (None, ix)
         | Some w0 \<Rightarrow>
             (let by = fold (note_task i) (touched_entities (e_raw e)) (ti_by_entity ix);
                  w = observed (e_raw e) w0
              in if \<not> is_terminal (tw_status w)
                 then (None, \<lparr>ti_by_entity = by, ti_watched = im_insert i w (ti_watched ix)\<rparr>)
                 else (Some \<lparr>fi_watch = w, fi_outcome = outcome_of w\<rparr>,
                       \<lparr>ti_by_entity = by, ti_watched = im_remove i (ti_watched ix)\<rparr>)))"

definition gave_up :: "task_watch \<Rightarrow> finished" where
  "gave_up w = \<lparr>fi_watch = w, fi_outcome = UnknownAs ''still running after 15m''\<rparr>"

definition expire :: "instant \<Rightarrow> task_index \<Rightarrow> finished list \<times> task_index" where
  "expire now ix =
     (let stale = map fst (filter (\<lambda>(_, w). give_up_after \<le> now - tw_started w) (ti_watched ix))
      in (List.map_filter (\<lambda>i. map_option gave_up (map_of (ti_watched ix) i)) stale,
          ix\<lparr>ti_watched := fold im_remove stale (ti_watched ix)\<rparr>))"

definition running_tasks :: "task_index \<Rightarrow> task_watch list" where
  "running_tasks ix = map snd (ti_watched ix)"

definition status_of :: "string \<Rightarrow> task_index \<Rightarrow> task_status option" where
  "status_of task ix = map_option tw_status (map_of (ti_watched ix) task)"

definition for_entity :: "string \<Rightarrow> task_index \<Rightarrow> string list" where
  "for_entity ext_id ix = ti_by_entity ix ext_id"

section \<open>Properties\<close>

text \<open>
  The index is sound: one watch per task, filed under its own id and not finished, a percentage
  in range, and each entity's tasks listed once.
\<close>

definition watch_ok :: "string \<Rightarrow> task_watch \<Rightarrow> bool" where
  "watch_ok i w \<longleftrightarrow> tw_task w = i \<and> \<not> is_terminal (tw_status w) \<and> tw_progress w \<le> 100"

definition watched_ok :: "(string \<times> task_watch) list \<Rightarrow> bool" where
  "watched_ok m \<longleftrightarrow> distinct (map fst m) \<and> (\<forall>iw \<in> set m. watch_ok (fst iw) (snd iw))"

definition index_ok :: "task_index \<Rightarrow> bool" where
  "index_ok ix \<longleftrightarrow> watched_ok (ti_watched ix) \<and> (\<forall>ent. distinct (ti_by_entity ix ent))"

lemma observed_frame [simp]:
  "tw_task (observed raw w) = tw_task w" "tw_sub (observed raw w) = tw_sub w" "tw_journal (observed raw w) = tw_journal w"
  "tw_started (observed raw w) = tw_started w" "tw_progress (observed raw w) \<le> 100"
  "tw_row_kind (observed raw w) = tw_row_kind w" "tw_ext_id (observed raw w) = tw_ext_id w"
  by (simp_all add: observed_def)

lemma note_tasks_distinct:
  "\<forall>ent. distinct (m ent) \<Longrightarrow> distinct (fold (note_task i) es m ent)"
  by (induction es arbitrary: m) (auto simp: note_task_def)

lemma watched_ok_insert: "watched_ok m \<Longrightarrow> watch_ok i w \<Longrightarrow> watched_ok (im_insert i w m)"
  using set_im_insert [of _ i w m] by (fastforce simp: watched_ok_def distinct_im_insert)

lemma watched_ok_remove: "watched_ok m \<Longrightarrow> watched_ok (im_remove i m)"
  unfolding watched_ok_def using distinct_im_remove [of m i] by (auto simp: im_remove_def)

lemma watched_ok_of: "watched_ok m \<Longrightarrow> map_of m i = Some w \<Longrightarrow> watch_ok i w"
  using map_of_SomeD [of m i w] by (fastforce simp: watched_ok_def)

lemma index_ok_watch: "index_ok ix \<Longrightarrow> index_ok (fst (snd (watch_task tkind now ctxt p task j ix sc)))"
  by (auto simp: index_ok_def watch_task_def Let_def fresh_watch_def watch_ok_def split: prod.split
      intro!: watched_ok_insert)

lemma apply_task_cases:
  obtains (Unwatched) "map_of (ti_watched ix) (e_ext_id e) = None" "apply_task e ix = (None, ix)"
  | (Going) w where "map_of (ti_watched ix) (e_ext_id e) = Some w" "\<not> is_terminal (tw_status (observed (e_raw e) w))"
      "apply_task e ix = (None, \<lparr>ti_by_entity = fold (note_task (e_ext_id e)) (touched_entities (e_raw e)) (ti_by_entity ix),
         ti_watched = im_insert (e_ext_id e) (observed (e_raw e) w) (ti_watched ix)\<rparr>)"
  | (Over) w where "map_of (ti_watched ix) (e_ext_id e) = Some w" "is_terminal (tw_status (observed (e_raw e) w))"
      "apply_task e ix = (Some \<lparr>fi_watch = observed (e_raw e) w, fi_outcome = outcome_of (observed (e_raw e) w)\<rparr>,
         \<lparr>ti_by_entity = fold (note_task (e_ext_id e)) (touched_entities (e_raw e)) (ti_by_entity ix),
          ti_watched = im_remove (e_ext_id e) (ti_watched ix)\<rparr>)"
  by (cases "map_of (ti_watched ix) (e_ext_id e)"; cases "is_terminal (tw_status (observed (e_raw e) (the (map_of (ti_watched ix) (e_ext_id e)))))")
    (simp_all add: apply_task_def Let_def)

lemma index_ok_apply:
  assumes "index_ok ix"
  shows "index_ok (snd (apply_task e ix))"
proof (cases rule: apply_task_cases [of ix e])
  case Unwatched
  then show ?thesis using assms by simp
next
  case (Going w)
  then have "watch_ok (e_ext_id e) (observed (e_raw e) w)"
    using assms watched_ok_of [of "ti_watched ix"] by (auto simp: index_ok_def watch_ok_def)
  then show ?thesis using Going assms by (simp add: index_ok_def watched_ok_insert note_tasks_distinct)
next
  case (Over w)
  then show ?thesis using assms by (simp add: index_ok_def watched_ok_remove note_tasks_distinct)
qed

lemma index_ok_expire: "index_ok ix \<Longrightarrow> index_ok (snd (expire now ix))"
proof -
  assume ok: "index_ok ix"
  have "watched_ok m \<Longrightarrow> watched_ok (fold im_remove ks m)" for ks and m :: "(string \<times> task_watch) list"
    by (induction ks arbitrary: m) (auto intro: watched_ok_remove)
  with ok show ?thesis by (simp add: expire_def Let_def index_ok_def)
qed

end
