(* ===== verification/Inbox.thy ===== *)
theory Inbox
  imports Tasks CanI "HOL-Library.Multiset"
begin

text \<open>
  What the application does with a message of the poll channel
  (\<open>crates/tui/src/app/messages.rs\<close>): the gates, the store, the task watches, the journal, the result
  of an action, and the two directions of the idle pause; with the helpers of \<open>Live\<close> it calls
  (\<open>crates/tui/src/app.rs\<close>). What only redraws a view - the selection's clamp, a page's summary and
  regrade, a form's picker, the pane over an answered document - is left out, and the debounced
  cache write of a tick.

  Subscription ids come from one counter of the process (\<open>NEXT_SUB\<close>), which the application carries.
\<close>

section \<open>State\<close>

record peer =
  pe_name :: string
  pe_scheduler :: scheduler

record live =
  lv_primary :: string
  lv_store :: "(stats, protection_sample) store"
  lv_scheduler :: scheduler
  lv_peers :: "peer list"
  lv_top :: "table_key option"
  lv_journal :: journal
  lv_tasks :: task_index
  lv_can_i :: can_slot

text \<open>The single subscription of a detail pane, and what it last failed with.\<close>

record pane =
  pn_sub :: "sub_id option"
  pn_error :: "failure option"

record app =
  ap_live :: "live option"
  ap_next_sub :: sub_id
  ap_generation :: nat
  ap_cache_dirty :: bool
  ap_stats_seen :: bool
  ap_names_seen :: bool
  ap_sample_seen :: bool
  ap_pane :: "pane option"
  ap_status :: "string option"
  ap_last_input :: instant

definition on_schedulers :: "(scheduler \<Rightarrow> scheduler) \<Rightarrow> live \<Rightarrow> live" where
  "on_schedulers f lv = lv\<lparr>lv_scheduler := f (lv_scheduler lv),
     lv_peers := map (\<lambda>p. p\<lparr>pe_scheduler := f (pe_scheduler p)\<rparr>) (lv_peers lv)\<rparr>"

definition schedulers_of :: "live \<Rightarrow> scheduler list" where
  "schedulers_of lv = lv_scheduler lv # map pe_scheduler (lv_peers lv)"

definition any_live :: "sub_id \<Rightarrow> live \<Rightarrow> bool" where
  "any_live i lv \<longleftrightarrow> is_live i (lv_scheduler lv) \<or> (\<exists>p \<in> set (lv_peers lv). is_live i (pe_scheduler p))"

text \<open>The first scheduler that holds the subscription drops it.\<close>

fun unsubscribe_first :: "sub_id \<Rightarrow> peer list \<Rightarrow> peer list" where
  "unsubscribe_first i [] = []"
| "unsubscribe_first i (p # ps) =
     (if is_live i (pe_scheduler p) then p\<lparr>pe_scheduler := unsubscribe i (pe_scheduler p)\<rparr> # ps
      else p # unsubscribe_first i ps)"

definition unsubscribe_any :: "sub_id \<Rightarrow> live \<Rightarrow> live" where
  "unsubscribe_any i lv =
     (if is_live i (lv_scheduler lv) then lv\<lparr>lv_scheduler := unsubscribe i (lv_scheduler lv)\<rparr>
      else lv\<lparr>lv_peers := unsubscribe_first i (lv_peers lv)\<rparr>)"

text \<open>\<open>scheduler_for\<close>, as what is done to the scheduler it answers with: nothing when there is none.\<close>

fun on_peer :: "string \<Rightarrow> (scheduler \<Rightarrow> scheduler) \<Rightarrow> peer list \<Rightarrow> peer list" where
  "on_peer name f [] = []"
| "on_peer name f (p # ps) =
     (if pe_name p = name then p\<lparr>pe_scheduler := f (pe_scheduler p)\<rparr> # ps else p # on_peer name f ps)"

definition scheduler_for :: "string option \<Rightarrow> live \<Rightarrow> scheduler option" where
  "scheduler_for ctxt lv = (case ctxt of
       None \<Rightarrow> Some (lv_scheduler lv)
     | Some name \<Rightarrow> map_option pe_scheduler (find (\<lambda>p. pe_name p = name) (lv_peers lv)))"

definition put_scheduler :: "string option \<Rightarrow> scheduler \<Rightarrow> live \<Rightarrow> live" where
  "put_scheduler ctxt sc lv = (case ctxt of
       None \<Rightarrow> lv\<lparr>lv_scheduler := sc\<rparr>
     | Some name \<Rightarrow> lv\<lparr>lv_peers := on_peer name (\<lambda>_. sc) (lv_peers lv)\<rparr>)"

section \<open>The idle pause\<close>

definition woke :: "instant \<Rightarrow> app \<Rightarrow> app" where
  "woke now a =
     (let a1 = a\<lparr>ap_last_input := now\<rparr>
      in case ap_live a1 of
           None \<Rightarrow> a1
         | Some lv \<Rightarrow> (if sc_idle (lv_scheduler lv)
             then a1\<lparr>ap_live := Some (on_schedulers (\<lambda>sc. refresh_all (set_idle False sc)) lv)\<rparr> else a1))"

definition tick_idle :: "instant \<Rightarrow> app \<Rightarrow> app" where
  "tick_idle clock a = (case ap_live a of
       None \<Rightarrow> a
     | Some lv \<Rightarrow>
         (let idle = idle_state (ap_last_input a) clock
          in if idle \<noteq> sc_idle (lv_scheduler lv) then a\<lparr>ap_live := Some (on_schedulers (set_idle idle) lv)\<rparr> else a))"

section \<open>The result of an action\<close>

text \<open>The context a request went to, when it is not the session's own.\<close>

definition site_of :: "journal_id \<Rightarrow> live \<Rightarrow> string option" where
  "site_of j lv = (case context_of j (lv_journal lv) of
       Some c \<Rightarrow> (if c \<noteq> lv_primary lv then Some c else None)
     | None \<Rightarrow> None)"

definition settle_in :: "journal_id \<Rightarrow> journal_outcome \<Rightarrow> string option \<Rightarrow> live \<Rightarrow> live" where
  "settle_in j out task lv = lv\<lparr>lv_journal := settle_journal j out task (lv_journal lv)\<rparr>"

definition refresh_row :: "kind \<Rightarrow> string \<Rightarrow> string option \<Rightarrow> app \<Rightarrow> app" where
  "refresh_row k ext_id site a = (case ap_live a of
       None \<Rightarrow> a
     | Some lv \<Rightarrow> (case lv_top lv of
         None \<Rightarrow> a
       | Some key0 \<Rightarrow>
           (if k_id (tk_kind key0) \<noteq> k_id k \<or> k_get_path k = None then a
            else let key = (case (site, tk_context key0) of (Some name, None) \<Rightarrow> in_context name key0 | _ \<Rightarrow> key0)
                 in case scheduler_for (tk_context key) lv of
                      None \<Rightarrow> a
                    | Some sc \<Rightarrow>
                        (case subscribe (sub_once_entity key ext_id) (sc\<lparr>sc_next := ap_next_sub a\<rparr>) of (i, sc') \<Rightarrow>
                          a\<lparr>ap_live := Some (put_scheduler (tk_context key) sc' lv), ap_next_sub := Suc (ap_next_sub a)\<rparr>))))"

definition full_plan :: "plan_ref \<Rightarrow> plan" where
  "full_plan pr = \<lparr>pl_kind = pr_kind pr, pl_ext_id = pr_ext_id pr, pl_name = pr_name pr, pl_action = pr_action pr,
     pl_body = None, pl_parents = [], pl_row_kind = pr_row_kind pr\<rparr>"

definition action_line :: "plan_ref \<Rightarrow> string \<Rightarrow> string" where
  "action_line pr rest = a_name (pr_action pr) @ '' '' @ pr_name pr @ rest"

definition open_watch :: "kind \<Rightarrow> instant \<Rightarrow> string option \<Rightarrow> plan_ref \<Rightarrow> string \<Rightarrow> journal_id \<Rightarrow> live \<times> sub_id \<Rightarrow> live \<times> sub_id" where
  "open_watch tkind now site pr task j = (\<lambda>(lv, next_id).
     (case scheduler_for site lv of
        None \<Rightarrow> (lv, next_id)
      | Some sc \<Rightarrow>
          (case watch_task tkind now site (full_plan pr) task j (lv_tasks lv) (sc\<lparr>sc_next := next_id\<rparr>) of (i, ix, sc') \<Rightarrow>
            ((put_scheduler site sc' lv)\<lparr>lv_tasks := ix\<rparr>, Suc next_id))))"

definition acted :: "kind \<Rightarrow> instant \<Rightarrow> journal_id \<Rightarrow> plan_ref \<Rightarrow> string + act_outcome \<Rightarrow> app \<Rightarrow> app" where
  "acted tkind now j pr result a =
     (case ap_live a of
        None \<Rightarrow> a
      | Some lv \<Rightarrow>
          (let outcome = (case result of Inl e \<Rightarrow> outcome_failed e | Inr out \<Rightarrow> out);
               site = site_of j lv
           in case outcome of
                ActStarted task \<Rightarrow>
                  (case open_watch tkind now site pr task j (lv, ap_next_sub a) of (lv1, next_id) \<Rightarrow>
                    a\<lparr>ap_live := Some (settle_in j Started (Some task) lv1), ap_next_sub := next_id,
                      ap_status := Some (action_line pr '': task started'')\<rparr>)
              | ActDone \<Rightarrow>
                  (refresh_row (pr_row_kind pr) (pr_ext_id pr) site (a\<lparr>ap_live := Some (settle_in j Succeeded None lv)\<rparr>))
                    \<lparr>ap_status := Some (action_line pr '': done'')\<rparr>
              | ActReturned v \<Rightarrow>
                  a\<lparr>ap_live := Some (settle_in j Succeeded None lv), ap_status := Some (action_line pr '': done'')\<rparr>
              | ActFailed failure forbidden \<Rightarrow>
                  (let lv1 = settle_in j (Failed (fl_upstream failure)) None lv
                   in a\<lparr>ap_live := Some (if forbidden then lv1\<lparr>lv_can_i := invalidate (lv_can_i lv1)\<rparr> else lv1),
                        ap_status := Some (action_line pr ('' failed: '' @ failure_text failure))\<rparr>)))"

section \<open>A message\<close>

definition task_ended :: "finished \<Rightarrow> live \<Rightarrow> live" where
  "task_ended f lv = settle_in (tw_journal (fi_watch f)) (fi_outcome f) (Some (tw_task (fi_watch f)))
     (unsubscribe_any (tw_sub (fi_watch f)) lv)"

definition after_task :: "finished \<Rightarrow> app \<Rightarrow> app" where
  "after_task f a =
     (let w = fi_watch f;
          a1 = (if tw_status w = TsSucceeded
                then refresh_row (tw_row_kind w) (tw_ext_id w)
                  (case ap_live a of Some lv \<Rightarrow> site_of (tw_journal w) lv | None \<Rightarrow> None) a
                else a)
      in a1\<lparr>ap_status := Some (tw_action w @ '' '' @ tw_name w @ '': '' @ status_label (tw_status w))\<rparr>)"

text \<open>A pane's own message: its entity reaches the store, its failure the pane, the rest nothing.\<close>

definition pane_message :: "instant \<Rightarrow> msg \<Rightarrow> pane \<Rightarrow> live \<Rightarrow> app \<Rightarrow> app" where
  "pane_message now m p lv a = (case m of
       MEntity s key g e \<Rightarrow>
         a\<lparr>ap_pane := Some (p\<lparr>pn_error := None\<rparr>), ap_live := Some (lv\<lparr>lv_store := store_apply now key (UEntity g e) (lv_store lv)\<rparr>)\<rparr>
     | MError s key g f \<Rightarrow> a\<lparr>ap_pane := Some (p\<lparr>pn_error := Some f\<rparr>)\<rparr>
     | _ \<Rightarrow> a)"

definition table_message :: "instant \<Rightarrow> msg \<Rightarrow> live \<Rightarrow> app \<Rightarrow> app" where
  "table_message now m lv a =
     (let (fin, ix) = (case m of MEntity s key g e \<Rightarrow> apply_task e (lv_tasks lv) | _ \<Rightarrow> (None, lv_tasks lv));
          lv1 = lv\<lparr>lv_tasks := ix\<rparr>;
          a1 = (case fin of
                  None \<Rightarrow> a\<lparr>ap_live := Some lv1\<rparr>
                | Some f \<Rightarrow> after_task f (a\<lparr>ap_live := Some (task_ended f lv1)\<rparr>))
      in case (ap_live a1, into_update m) of
           (Some lv2, Some (key, u)) \<Rightarrow> a1\<lparr>ap_live := Some (lv2\<lparr>lv_store := store_apply now key u (lv_store lv2)\<rparr>)\<rparr>
         | _ \<Rightarrow> a1)"

definition gated :: "instant \<Rightarrow> msg \<Rightarrow> sub_id \<Rightarrow> live \<Rightarrow> app \<Rightarrow> app" where
  "gated now m s lv a =
     (if \<not> any_live s lv then a
      else case ap_pane a of
          Some p \<Rightarrow> (if pn_sub p = Some s then pane_message now m p lv a else table_message now m lv a)
        | None \<Rightarrow> table_message now m lv a)"

definition with_store :: "((stats, protection_sample) store \<Rightarrow> (stats, protection_sample) store) \<Rightarrow> live \<Rightarrow> live" where
  "with_store f lv = lv\<lparr>lv_store := f (lv_store lv)\<rparr>"

definition marks_cache :: "msg \<Rightarrow> bool" where
  "marks_cache m = (case m of MComplete _ _ _ \<Rightarrow> True | MStats _ _ \<Rightarrow> True | MSample _ _ \<Rightarrow> True | _ \<Rightarrow> False)"

definition receive :: "kind \<Rightarrow> instant \<Rightarrow> msg \<Rightarrow> app \<Rightarrow> app" where
  "receive tkind now m a0 =
     (let a = (if marks_cache m then a0\<lparr>ap_cache_dirty := True\<rparr> else a0)
      in case m of
           MActed j pr result \<Rightarrow>
             (let a1 = woke now a;
                  a2 = a1\<lparr>ap_live := map_option (on_schedulers (refresh_kind (k_id (pr_row_kind pr)))) (ap_live a1)\<rparr>
              in acted tkind now j pr result a2)
         | _ \<Rightarrow>
             (case ap_live a of
                None \<Rightarrow> a
              | Some lv \<Rightarrow>
                  (case m of
                     MDone epoch s \<Rightarrow>
                       a\<lparr>ap_live := Some (on_schedulers (\<lambda>sc. if sc_epoch sc = epoch then reap epoch s sc else sc) lv)\<rparr>
                   | MSample g sample \<Rightarrow>
                       (if g = ap_generation a then a\<lparr>ap_live := Some (with_store (set_sample sample) lv), ap_sample_seen := True\<rparr> else a)
                   | MStats g st \<Rightarrow>
                       (if g = ap_generation a then a\<lparr>ap_live := Some (with_store (set_stats st) lv), ap_stats_seen := True\<rparr> else a)
                   | MNames g ns \<Rightarrow>
                       (if g = ap_generation a then a\<lparr>ap_live := Some (with_store (apply_names ns) lv), ap_names_seen := True\<rparr> else a)
                   | _ \<Rightarrow> (case msg_sub m of None \<Rightarrow> a | Some s \<Rightarrow> gated now m s lv a))))"

section \<open>Subscription ids across schedulers\<close>

definition ids_of :: "live \<Rightarrow> sub_id list" where
  "ids_of lv = concat (map sub_ids (schedulers_of lv))"

text \<open>No two subscriptions of the session share an id, whichever scheduler polls them, and the counter is past all.\<close>

definition app_ok :: "app \<Rightarrow> bool" where
  "app_ok a \<longleftrightarrow> (\<forall>lv. ap_live a = Some lv \<longrightarrow>
     distinct (ids_of lv) \<and> (\<forall>i \<in> set (ids_of lv). i < ap_next_sub a))"

lemma any_live_ids: "any_live i lv \<longleftrightarrow> i \<in> set (ids_of lv)"
proof -
  have "is_live i sc \<longleftrightarrow> i \<in> set (sub_ids sc)" for sc
    by (simp add: is_live_def task_of_def sub_ids_def map_of_eq_None_iff)
  then show ?thesis by (auto simp: any_live_def ids_of_def schedulers_of_def)
qed

text \<open>An operation on every scheduler that only drops ids.\<close>

definition drops_ids :: "(scheduler \<Rightarrow> scheduler) \<Rightarrow> bool" where
  "drops_ids f \<longleftrightarrow> (\<forall>sc. subseq (sub_ids (f sc)) (sub_ids sc))"

lemma subseq_concat_map:
  "(\<And>x. subseq (f x) (g x)) \<Longrightarrow> subseq (concat (map f xs)) (concat (map g xs))"
  by (induction xs) (auto intro: list_emb_append_mono)

lemma ids_on_schedulers: "drops_ids f \<Longrightarrow> subseq (ids_of (on_schedulers f lv)) (ids_of lv)"
  by (auto simp: ids_of_def schedulers_of_def on_schedulers_def drops_ids_def comp_def
      intro!: list_emb_append_mono subseq_concat_map)

lemma distinct_subseq: "subseq xs ys \<Longrightarrow> distinct ys \<Longrightarrow> distinct xs"
  by (auto simp: subseq_conv_nths intro: distinct_nthsI)

lemma set_subseq: "subseq xs ys \<Longrightarrow> set xs \<subseteq> set ys"
  by (auto simp: subseq_conv_nths set_nths)

lemma subseq_ids_ok:
  assumes "subseq (ids_of lv') (ids_of lv)" and "distinct (ids_of lv) \<and> (\<forall>i \<in> set (ids_of lv). i < n)"
  shows "distinct (ids_of lv') \<and> (\<forall>i \<in> set (ids_of lv'). i < n)"
  using assms distinct_subseq [of "ids_of lv'" "ids_of lv"] set_subseq [of "ids_of lv'" "ids_of lv"] by auto

lemma sub_ids_unsubscribe: "sub_ids (unsubscribe i sc) = filter (\<lambda>j. j \<noteq> i) (sub_ids sc)"
  by (simp add: sub_ids_def unsubscribe_def filter_map comp_def case_prod_unfold)

lemma drops_upd: "drops_ids (upd_tasks P f)" "drops_ids (set_idle b)"
  by (simp_all add: drops_ids_def set_idle_def sub_ids_def [of "_\<lparr>sc_idle := b\<rparr>"]) (simp add: sub_ids_def)

lemma drops_unsubscribe: "drops_ids (unsubscribe i)"
  by (simp add: drops_ids_def sub_ids_unsubscribe)

lemma drops_reap: "drops_ids (\<lambda>sc. if sc_epoch sc = epoch then reap epoch i sc else sc)"
  by (simp add: drops_ids_def reap_def sub_ids_unsubscribe)

lemma drops_comp: "drops_ids f \<Longrightarrow> drops_ids g \<Longrightarrow> drops_ids (\<lambda>sc. f (g sc))"
  unfolding drops_ids_def using subseq_order.order_trans by blast

lemma drops_refresh: "drops_ids (refresh_kind k)" "drops_ids refresh_all"
  by (simp_all add: refresh_kind_def refresh_all_def drops_upd)

lemma ids_frame [simp]:
  "ids_of (lv\<lparr>lv_store := st\<rparr>) = ids_of lv" "ids_of (lv\<lparr>lv_tasks := ix\<rparr>) = ids_of lv"
  "ids_of (lv\<lparr>lv_journal := jo\<rparr>) = ids_of lv" "ids_of (lv\<lparr>lv_can_i := ci\<rparr>) = ids_of lv"
  "ids_of (settle_in j out task lv) = ids_of lv" "ids_of (with_store g lv) = ids_of lv"
  by (simp_all add: ids_of_def schedulers_of_def settle_in_def with_store_def)

lemma ids_unsubscribe_any: "distinct (ids_of lv) \<Longrightarrow> ids_of (unsubscribe_any i lv) = filter (\<lambda>j. j \<noteq> i) (ids_of lv)"
proof -
  assume d: "distinct (ids_of lv)"
  have no: "filter (\<lambda>j. j \<noteq> i) xs = xs" if "i \<notin> set xs" for xs
    using that by (induction xs) auto
  have live: "is_live i sc \<longleftrightarrow> i \<in> set (sub_ids sc)" for sc
    by (simp add: is_live_def task_of_def sub_ids_def map_of_eq_None_iff)
  let ?all = "\<lambda>ps. concat (map (sub_ids \<circ> pe_scheduler) ps)"
  have first: "?all (unsubscribe_first i ps) = filter (\<lambda>j. j \<noteq> i) (?all ps)" if "distinct (?all ps)" for ps
    using that
  proof (induction ps)
    case (Cons p ps)
    show ?case
    proof (cases "is_live i (pe_scheduler p)")
      case True
      then have "i \<notin> set (?all ps)" using Cons.prems live by auto
      then show ?thesis using True no by (simp add: sub_ids_unsubscribe)
    next
      case False
      then show ?thesis using Cons live no by simp
    qed
  qed simp
  have ids: "ids_of lv = sub_ids (lv_scheduler lv) @ ?all (lv_peers lv)"
    by (simp add: ids_of_def schedulers_of_def)
  show ?thesis
  proof (cases "is_live i (lv_scheduler lv)")
    case True
    then have "i \<notin> set (?all (lv_peers lv))" using d ids live by auto
    then show ?thesis
      using True ids no by (simp add: unsubscribe_any_def ids_of_def schedulers_of_def sub_ids_unsubscribe)
  next
    case False
    then show ?thesis
      using d ids live no first [of "lv_peers lv"]
      by (simp add: unsubscribe_any_def ids_of_def schedulers_of_def)
  qed
qed

lemma on_peer_frame: "find (\<lambda>p. pe_name p = name) ps = Some p \<Longrightarrow>
    map pe_scheduler (on_peer name (\<lambda>_. sc) ps) = (map pe_scheduler ps)[length (takeWhile (\<lambda>p. pe_name p \<noteq> name) ps) := sc] \<and>
    length (takeWhile (\<lambda>p. pe_name p \<noteq> name) ps) < length ps \<and>
    ps ! length (takeWhile (\<lambda>p. pe_name p \<noteq> name) ps) = p"
  by (induction ps) (auto split: if_splits)

text \<open>Replacing one scheduler, the one a context names, by itself with one id more.\<close>

lemma concat_update:
  assumes "n < length xs"
  shows "mset (concat (map f (xs[n := y]))) + mset (f (xs ! n)) = mset (concat (map f xs)) + mset (f y)"
  using assms
proof (induction xs arbitrary: n)
  case (Cons x xs)
  then show ?case by (cases n) (auto simp: ac_simps)
qed simp

lemma ids_put:
  assumes "scheduler_for ctxt lv = Some sc"
  shows "mset (ids_of (put_scheduler ctxt sc' lv)) + mset (sub_ids sc) = mset (ids_of lv) + mset (sub_ids sc')"
proof (cases ctxt)
  case None
  then show ?thesis using assms by (simp add: scheduler_for_def put_scheduler_def ids_of_def schedulers_of_def)
next
  case (Some name)
  then obtain p where p: "find (\<lambda>p. pe_name p = name) (lv_peers lv) = Some p" "sc = pe_scheduler p"
    using assms by (auto simp: scheduler_for_def)
  let ?n = "length (takeWhile (\<lambda>p. pe_name p \<noteq> name) (lv_peers lv))"
  note f = on_peer_frame [OF p(1), of sc']
  have "mset (concat (map sub_ids ((map pe_scheduler (lv_peers lv))[?n := sc']))) + mset (sub_ids (map pe_scheduler (lv_peers lv) ! ?n))
      = mset (concat (map sub_ids (map pe_scheduler (lv_peers lv)))) + mset (sub_ids sc')"
    using f by (intro concat_update) simp
  then show ?thesis
    using f p(2) Some by (simp add: put_scheduler_def ids_of_def schedulers_of_def)
qed

lemma sub_ids_subscribe:
  "subscribe s (sc\<lparr>sc_next := n\<rparr>) = (i, sc') \<Longrightarrow> i = n \<and> sub_ids sc' = sub_ids sc @ [n]"
  by (auto simp: subscribe_def Let_def sub_ids_def)

lemma ids_subscribed:
  assumes "scheduler_for ctxt lv = Some sc" and "subscribe s (sc\<lparr>sc_next := n\<rparr>) = (i, sc')"
    and "distinct (ids_of lv) \<and> (\<forall>i \<in> set (ids_of lv). i < n)"
  shows "distinct (ids_of (put_scheduler ctxt sc' lv)) \<and> (\<forall>i \<in> set (ids_of (put_scheduler ctxt sc' lv)). i < Suc n) \<and>
    set (ids_of (put_scheduler ctxt sc' lv)) = insert n (set (ids_of lv))"
proof -
  have "mset (ids_of (put_scheduler ctxt sc' lv)) = add_mset n (mset (ids_of lv))"
    using ids_put [OF assms(1), of sc'] sub_ids_subscribe [OF assms(2)] by simp
  then have m: "mset (ids_of (put_scheduler ctxt sc' lv)) = mset (n # ids_of lv)" by simp
  then have "distinct (ids_of (put_scheduler ctxt sc' lv)) = distinct (n # ids_of lv)"
    by (rule mset_eq_imp_distinct_iff)
  moreover have "set (ids_of (put_scheduler ctxt sc' lv)) = set (n # ids_of lv)" using m by (rule mset_eq_setD)
  ultimately show ?thesis using assms(3) by auto
qed

definition ids_ok :: "live \<Rightarrow> sub_id \<Rightarrow> bool" where
  "ids_ok lv n \<longleftrightarrow> distinct (ids_of lv) \<and> (\<forall>i \<in> set (ids_of lv). i < n)"

lemma app_ok_live: "app_ok a \<longleftrightarrow> (case ap_live a of None \<Rightarrow> True | Some lv \<Rightarrow> ids_ok lv (ap_next_sub a))"
  by (auto simp: app_ok_def ids_ok_def split: option.split)

lemma app_ok_frame [simp]:
  "app_ok (a\<lparr>ap_status := st\<rparr>) = app_ok a" "app_ok (a\<lparr>ap_cache_dirty := b\<rparr>) = app_ok a"
  "app_ok (a\<lparr>ap_pane := pn\<rparr>) = app_ok a" "app_ok (a\<lparr>ap_live := Some lv\<rparr>) = ids_ok lv (ap_next_sub a)"
  "app_ok (a\<lparr>ap_live := Some lv, ap_status := st\<rparr>) = ids_ok lv (ap_next_sub a)"
  "app_ok (a\<lparr>ap_live := Some lv, ap_next_sub := n\<rparr>) = ids_ok lv n"
  "app_ok (a\<lparr>ap_live := Some lv, ap_next_sub := n, ap_status := st\<rparr>) = ids_ok lv n"
  "app_ok (a\<lparr>ap_live := Some lv, ap_sample_seen := b\<rparr>) = ids_ok lv (ap_next_sub a)"
  "app_ok (a\<lparr>ap_live := Some lv, ap_stats_seen := b\<rparr>) = ids_ok lv (ap_next_sub a)"
  "app_ok (a\<lparr>ap_live := Some lv, ap_names_seen := b\<rparr>) = ids_ok lv (ap_next_sub a)"
  by (auto simp: app_ok_def ids_ok_def)

lemma app_okD: "app_ok a \<Longrightarrow> ap_live a = Some lv \<Longrightarrow> ids_ok lv (ap_next_sub a)"
  by (simp add: app_ok_live)

lemma ids_ok_frame [simp]:
  "ids_ok (lv\<lparr>lv_store := st\<rparr>) n = ids_ok lv n" "ids_ok (lv\<lparr>lv_tasks := ix\<rparr>) n = ids_ok lv n"
  "ids_ok (lv\<lparr>lv_journal := jo\<rparr>) n = ids_ok lv n" "ids_ok (lv\<lparr>lv_can_i := ci\<rparr>) n = ids_ok lv n"
  "ids_ok (settle_in j out task lv) n = ids_ok lv n" "ids_ok (with_store g lv) n = ids_ok lv n"
  by (simp_all add: ids_ok_def)

lemma ids_ok_drop: "drops_ids f \<Longrightarrow> ids_ok lv n \<Longrightarrow> ids_ok (on_schedulers f lv) n"
  unfolding ids_ok_def by (rule subseq_ids_ok [OF ids_on_schedulers])

lemma ids_ok_unsubscribe_any: "ids_ok lv n \<Longrightarrow> ids_ok (unsubscribe_any i lv) n"
  by (simp add: ids_ok_def ids_unsubscribe_any)

lemma app_ok_woke: "app_ok a \<Longrightarrow> app_ok (woke now a)"
proof -
  assume ok: "app_ok a"
  have d: "drops_ids (\<lambda>sc. refresh_all (set_idle False sc))" by (rule drops_comp [OF drops_refresh(2) drops_upd(2)])
  show ?thesis using ok ids_ok_drop [OF d] by (auto simp: woke_def app_ok_live Let_def split: option.splits)
qed

lemma app_ok_tick: "app_ok a \<Longrightarrow> app_ok (tick_idle clock a)"
  using ids_ok_drop [OF drops_upd(2)] by (auto simp: tick_idle_def app_ok_live Let_def split: option.splits)

lemma app_ok_refresh_row: "app_ok a \<Longrightarrow> app_ok (refresh_row k ext_id site a)"
proof -
  assume ok: "app_ok a"
  have "app_ok (case subscribe s (sc\<lparr>sc_next := ap_next_sub a\<rparr>) of (i, sc') \<Rightarrow>
      a\<lparr>ap_live := Some (put_scheduler ctxt sc' lv), ap_next_sub := Suc (ap_next_sub a)\<rparr>)"
    if "ap_live a = Some lv" "scheduler_for ctxt lv = Some sc" for lv ctxt sc s
    using ids_subscribed [OF that(2)] ok that(1)
    by (auto simp: app_ok_live ids_ok_def split: prod.split)
  then show ?thesis using ok by (simp add: refresh_row_def Let_def split: option.split)
qed

lemma sub_ids_watch:
  "watch_task tkind now ctxt p task j ix (sc\<lparr>sc_next := n\<rparr>) = (i, ix', sc') \<Longrightarrow> \<exists>s. subscribe s (sc\<lparr>sc_next := n\<rparr>) = (i, sc')"
  by (auto simp: watch_task_def Let_def split: prod.splits)

lemma ids_ok_open_watch:
  assumes "ids_ok lv n"
  shows "(case open_watch tkind now site pr task j (lv, n) of (lv', n') \<Rightarrow> ids_ok lv' n')"
proof (cases "scheduler_for site lv")
  case None
  then show ?thesis using assms by (simp add: open_watch_def)
next
  case (Some sc)
  obtain i ix sc' where w: "watch_task tkind now site (full_plan pr) task j (lv_tasks lv) (sc\<lparr>sc_next := n\<rparr>) = (i, ix, sc')"
    by (rule prod_cases3)
  obtain s where "subscribe s (sc\<lparr>sc_next := n\<rparr>) = (i, sc')" using sub_ids_watch [OF w] by blast
  from ids_subscribed [OF Some this] show ?thesis
    using assms Some w by (simp add: open_watch_def ids_ok_def)
qed

lemma app_ok_acted: "app_ok a \<Longrightarrow> app_ok (acted tkind now j pr result a)"
proof -
  assume ok: "app_ok a"
  show ?thesis
  proof (cases "ap_live a")
    case (Some lv)
    define out where "out = (case result of Inl e \<Rightarrow> outcome_failed e | Inr out \<Rightarrow> out)"
    have l: "ids_ok lv (ap_next_sub a)" using ok Some by (simp add: app_ok_live)
    show ?thesis
    proof (cases out)
      case (ActStarted task)
      then show ?thesis
        using ids_ok_open_watch [OF l, of tkind now "site_of j lv" pr task j] Some
        by (auto simp: acted_def Let_def out_def [symmetric] app_ok_live split: prod.splits)
    next
      case ActDone
      have "app_ok (a\<lparr>ap_live := Some (settle_in j Succeeded None lv)\<rparr>)" using l by (simp add: app_ok_live)
      from app_ok_refresh_row [OF this] show ?thesis
        using ActDone Some by (simp add: acted_def Let_def out_def [symmetric])
    qed (use l Some in \<open>auto simp: acted_def Let_def out_def [symmetric]\<close>)
  qed (use ok in \<open>simp add: acted_def\<close>)
qed

lemma app_ok_after_task: "app_ok a \<Longrightarrow> app_ok (after_task f a)"
  by (simp add: after_task_def Let_def app_ok_refresh_row)

lemma ids_ok_task_ended: "ids_ok lv n \<Longrightarrow> ids_ok (task_ended f lv) n"
  by (simp add: task_ended_def ids_ok_unsubscribe_any)

lemma app_ok_table: "app_ok a \<Longrightarrow> ap_live a = Some lv \<Longrightarrow> app_ok (table_message now m lv a)"
proof -
  assume ok: "app_ok a" "ap_live a = Some lv"
  obtain fin ix where f: "(case m of MEntity s key g e \<Rightarrow> apply_task e (lv_tasks lv) | _ \<Rightarrow> (None, lv_tasks lv)) = (fin, ix)"
    by force
  define a1 where "a1 = (case fin of None \<Rightarrow> a\<lparr>ap_live := Some (lv\<lparr>lv_tasks := ix\<rparr>)\<rparr>
    | Some f \<Rightarrow> after_task f (a\<lparr>ap_live := Some (task_ended f (lv\<lparr>lv_tasks := ix\<rparr>))\<rparr>))"
  have "app_ok a1"
    using app_okD [OF ok] by (auto simp: a1_def ids_ok_task_ended app_ok_after_task split: option.split)
  then have "app_ok (case (ap_live a1, into_update m) of
      (Some lv2, Some (key, u)) \<Rightarrow> a1\<lparr>ap_live := Some (lv2\<lparr>lv_store := store_apply now key u (lv_store lv2)\<rparr>)\<rparr> | _ \<Rightarrow> a1)"
    by (auto simp: app_okD split: option.splits)
  then show ?thesis unfolding table_message_def f Let_def a1_def by simp
qed

lemma app_ok_pane: "app_ok a \<Longrightarrow> ap_live a = Some lv \<Longrightarrow> app_ok (pane_message now m p lv a)"
  by (auto simp: pane_message_def app_ok_live split: msg.split)

lemma app_ok_gated: "app_ok a \<Longrightarrow> ap_live a = Some lv \<Longrightarrow> app_ok (gated now m s lv a)"
  by (auto simp: gated_def app_ok_pane app_ok_table split: option.split)

lemma app_ok_receive: "app_ok a \<Longrightarrow> app_ok (receive tkind now m a)"
proof -
  assume ok: "app_ok a"
  let ?a = "if marks_cache m then a\<lparr>ap_cache_dirty := True\<rparr> else a"
  have ok': "app_ok ?a" using ok by simp
  show ?thesis
  proof (cases "\<exists>j pr r. m = MActed j pr r")
    case True
    then obtain j pr r where m: "m = MActed j pr r" by blast
    have "app_ok ((woke now ?a)\<lparr>ap_live := map_option (on_schedulers (refresh_kind (k_id (pr_row_kind pr)))) (ap_live (woke now ?a))\<rparr>)"
      using app_ok_woke [OF ok', of now] ids_ok_drop [OF drops_refresh(1)] by (auto simp: app_ok_live split: option.splits)
    from app_ok_acted [OF this] show ?thesis using m by (simp add: receive_def Let_def)
  next
    case False
    show ?thesis
    proof (cases "ap_live ?a")
      case None
      then show ?thesis using ok' False by (auto simp: receive_def Let_def split: msg.split)
    next
      case (Some lv)
      then have l: "ids_ok lv (ap_next_sub ?a)" using ok' by (rule app_okD [rotated])
      show ?thesis
      proof (cases m)
        case (MDone epoch s)
        then show ?thesis using Some l ids_ok_drop [OF drops_reap] by (simp add: receive_def Let_def)
      next
        case (MActed j pr r)
        then show ?thesis using False by blast
      qed (use Some l ok' app_ok_gated [OF ok' Some] in \<open>auto simp: receive_def Let_def\<close>)
    qed
  qed
qed

datatype app_event = Receive instant msg | Woke instant | Tick instant

fun app_step :: "kind \<Rightarrow> app_event \<Rightarrow> app \<Rightarrow> app" where
  "app_step tkind (Receive now m) = receive tkind now m"
| "app_step tkind (Woke now) = woke now"
| "app_step tkind (Tick clock) = tick_idle clock"

text \<open>C0: Across a session's scheduler and those of its joined contexts no two subscriptions ever share an id, whatever
  messages arrive, actions land and clocks tick: a message names its subscription without saying whose it is.\<close>

theorem ids_name_one_subscription:
  assumes "app_ok a"
  shows "app_ok (fold (app_step tkind) es a)"
  using assms
proof (induction es arbitrary: a)
  case (Cons e es)
  then have "app_ok (app_step tkind e a)"
    using app_ok_receive app_ok_woke app_ok_tick by (cases e) auto
  then show ?case using Cons.IH by simp
qed simp

section \<open>Messages of views that are gone\<close>

text \<open>C0: A message of a subscription no scheduler holds any more - its view was closed, its peer dropped - changes
  nothing: not the store, not a watch, not the journal, not the pane.\<close>

theorem popped_views_change_nothing:
  assumes "ap_live a = Some lv" and "msg_sub m = Some s" and "\<not> any_live s lv" and "\<forall>epoch. m \<noteq> MDone epoch s"
  shows "receive tkind now m a = a\<lparr>ap_cache_dirty := ap_cache_dirty a \<or> marks_cache m\<rparr>"
  using assms by (cases m) (simp_all add: receive_def Let_def gated_def marks_cache_def)

section \<open>A task's last answer\<close>

definition ends_task :: "string \<Rightarrow> msg \<Rightarrow> bool" where
  "ends_task i m = (case m of
       MEntity s key g e \<Rightarrow> e_ext_id e = i \<and>
         is_terminal (parse_status (case str_at ''status'' (e_raw e) of Some st \<Rightarrow> st | None \<Rightarrow> []))
     | _ \<Rightarrow> False)"

definition watched_in :: "string \<Rightarrow> app \<Rightarrow> task_watch option" where
  "watched_in i a = Option.bind (ap_live a) (\<lambda>lv. map_of (ti_watched (lv_tasks lv)) i)"

lemma watched_iff:
  "watched_in i a \<noteq> None \<longleftrightarrow> (\<exists>lv. ap_live a = Some lv \<and> map_of (ti_watched (lv_tasks lv)) i \<noteq> None)"
  by (cases "ap_live a") (auto simp: watched_in_def)

lemma observed_terminal:
  "is_terminal (tw_status (observed raw w)) = is_terminal (parse_status (case str_at ''status'' raw of Some st \<Rightarrow> st | None \<Rightarrow> []))"
  by (simp add: observed_def)

lemma apply_task_keeps:
  assumes "map_of (ti_watched ix) i \<noteq> None" and "\<not> ends_task i (MEntity s key g e)"
  shows "map_of (ti_watched (snd (apply_task e ix))) i \<noteq> None"
proof (cases rule: apply_task_cases [of ix e])
  case Unwatched
  then show ?thesis using assms(1) by simp
next
  case (Going w)
  then show ?thesis using assms(1) by (simp add: map_of_im_insert)
next
  case (Over w)
  then have "e_ext_id e \<noteq> i" using assms(2) by (auto simp: ends_task_def observed_terminal)
  then show ?thesis using Over assms(1) by (simp add: map_of_im_remove)
qed

lemma tasks_frame [simp]:
  "lv_tasks (on_schedulers f lv) = lv_tasks lv" "lv_tasks (settle_in j out task lv) = lv_tasks lv"
  "lv_tasks (unsubscribe_any k lv) = lv_tasks lv" "lv_tasks (with_store g lv) = lv_tasks lv"
  "lv_tasks (put_scheduler ctxt sc lv) = lv_tasks lv"
  by (simp_all add: on_schedulers_def settle_in_def unsubscribe_any_def with_store_def put_scheduler_def split: option.split)

lemma watched_refresh_row [simp]: "watched_in i (refresh_row k ext_id site a) = watched_in i a"
  by (simp add: refresh_row_def watched_in_def Let_def split: option.split prod.split)

lemma watched_frame [simp]:
  "watched_in i (a\<lparr>ap_status := st\<rparr>) = watched_in i a" "watched_in i (a\<lparr>ap_cache_dirty := b\<rparr>) = watched_in i a"
  by (simp_all add: watched_in_def)

lemma watched_woke [simp]: "watched_in i (woke now a) = watched_in i a"
  by (simp add: watched_in_def woke_def Let_def split: option.split)

lemma watched_tick [simp]: "watched_in i (tick_idle clock a) = watched_in i a"
  by (simp add: watched_in_def tick_idle_def Let_def split: option.split)

lemma watch_task_keeps:
  "map_of (ti_watched ix) i \<noteq> None \<Longrightarrow> map_of (ti_watched (fst (snd (watch_task tkind now ctxt p task j ix sc)))) i \<noteq> None"
  by (simp add: watch_task_def Let_def map_of_im_insert split: prod.split)

lemma watched_acted: "watched_in i a \<noteq> None \<Longrightarrow> watched_in i (acted tkind now j pr result a) \<noteq> None"
proof -
  assume w: "watched_in i a \<noteq> None"
  then obtain lv where lv: "ap_live a = Some lv" "map_of (ti_watched (lv_tasks lv)) i \<noteq> None"
    by (cases "ap_live a") (auto simp: watched_in_def)
  define out where "out = (case result of Inl e \<Rightarrow> outcome_failed e | Inr out \<Rightarrow> out)"
  have open_w: "map_of (ti_watched (lv_tasks (fst (open_watch tkind now site pr task j (lv, n))))) i \<noteq> None" for site task n
    using lv(2) watch_task_keeps [OF lv(2), of tkind now site "full_plan pr" task j]
    by (auto simp: open_watch_def split: option.split prod.split) (metis fst_conv snd_conv)
  show ?thesis
  proof (cases out)
    case (ActStarted task)
    then show ?thesis
      using open_w [of "site_of j lv" task "ap_next_sub a"] lv(1)
      by (auto simp: acted_def Let_def out_def [symmetric] watched_in_def split: prod.split)
  next
    case ActDone
    then show ?thesis using lv by (simp add: acted_def Let_def out_def [symmetric]) (simp add: watched_in_def)
  qed (use lv in \<open>auto simp: acted_def Let_def out_def [symmetric] watched_in_def\<close>)
qed

lemma watched_table:
  assumes "ap_live a = Some lv" and "watched_in i a \<noteq> None" and "\<not> ends_task i m"
  shows "watched_in i (table_message now m lv a) \<noteq> None"
proof -
  obtain fin ix where f: "(case m of MEntity s key g e \<Rightarrow> apply_task e (lv_tasks lv) | _ \<Rightarrow> (None, lv_tasks lv)) = (fin, ix)"
    by force
  have w: "map_of (ti_watched (lv_tasks lv)) i \<noteq> None" using assms(1,2) by (simp add: watched_in_def)
  have ix: "map_of (ti_watched ix) i \<noteq> None"
  proof (cases m)
    case (MEntity s key g e)
    then show ?thesis using f apply_task_keeps [OF w, of s key g e] assms(3) by simp
  qed (use f w in auto)
  define a1 where "a1 = (case fin of None \<Rightarrow> a\<lparr>ap_live := Some (lv\<lparr>lv_tasks := ix\<rparr>)\<rparr>
    | Some f \<Rightarrow> after_task f (a\<lparr>ap_live := Some (task_ended f (lv\<lparr>lv_tasks := ix\<rparr>))\<rparr>))"
  have "watched_in i a1 \<noteq> None"
    using ix by (auto simp: a1_def after_task_def Let_def task_ended_def split: option.split) (auto simp: watched_in_def)
  then have "watched_in i (case (ap_live a1, into_update m) of
      (Some lv2, Some (key, u)) \<Rightarrow> a1\<lparr>ap_live := Some (lv2\<lparr>lv_store := store_apply now key u (lv_store lv2)\<rparr>)\<rparr> | _ \<Rightarrow> a1) \<noteq> None"
    unfolding watched_iff by (cases "into_update m") auto
  then show ?thesis unfolding table_message_def f Let_def a1_def by simp
qed

lemma watched_pane: "ap_live a = Some lv \<Longrightarrow> watched_in i a \<noteq> None \<Longrightarrow> watched_in i (pane_message now m p lv a) \<noteq> None"
  by (cases m) (simp_all add: pane_message_def watched_in_def)

lemma watched_gated:
  "ap_live a = Some lv \<Longrightarrow> watched_in i a \<noteq> None \<Longrightarrow> \<not> ends_task i m \<Longrightarrow> watched_in i (gated now m s lv a) \<noteq> None"
  using watched_table [of a lv i m now] watched_pane [of a lv i now m] by (simp add: gated_def split: option.split)

lemma receive_gated:
  assumes "msg_sub m = Some s" and "\<forall>epoch. m \<noteq> MDone epoch s" and "ap_live b = Some lv"
    and "b = (if marks_cache m then a\<lparr>ap_cache_dirty := True\<rparr> else a)"
  shows "receive tkind now m a = gated now m s lv b"
proof -
  have "(case ap_live b of None \<Rightarrow> b | Some lv \<Rightarrow> f lv) = f lv" for f :: "live \<Rightarrow> app" using assms(3) by simp
  then show ?thesis using assms(1,2) unfolding receive_def Let_def assms(4) [symmetric] by (cases m) simp_all
qed

lemma watched_receive:
  assumes "watched_in i a \<noteq> None" and e: "\<not> ends_task i m"
  shows "watched_in i (receive tkind now m a) \<noteq> None"
proof -
  define b where "b = (if marks_cache m then a\<lparr>ap_cache_dirty := True\<rparr> else a)"
  have w: "watched_in i b \<noteq> None" using assms(1) by (simp add: b_def)
  then obtain lv where lv: "ap_live b = Some lv" "map_of (ti_watched (lv_tasks lv)) i \<noteq> None"
    unfolding watched_iff by blast
  have g: "watched_in i (gated now m s lv b) \<noteq> None" for s by (rule watched_gated [OF lv(1) w e])
  show ?thesis
  proof (cases m)
    case (MActed j pr r)
    have "watched_in i (woke now b) \<noteq> None" using w by simp
    then have "watched_in i ((woke now b)\<lparr>ap_live := map_option (on_schedulers (refresh_kind (k_id (pr_row_kind pr)))) (ap_live (woke now b))\<rparr>) \<noteq> None"
      by (cases "ap_live (woke now b)") (simp_all add: watched_in_def)
    from watched_acted [OF this] show ?thesis
      using MActed unfolding receive_def b_def [symmetric] by (simp add: Let_def)
  next
    case (MDone epoch s)
    then show ?thesis using lv unfolding receive_def b_def [symmetric] by (simp add: Let_def watched_in_def)
  next
    case (MSample g sample)
    then show ?thesis using lv w unfolding receive_def b_def [symmetric] by (simp add: Let_def watched_in_def)
  next
    case (MStats g st)
    then show ?thesis using lv w unfolding receive_def b_def [symmetric] by (simp add: Let_def watched_in_def)
  next
    case (MNames g ns)
    then show ?thesis using lv w unfolding receive_def b_def [symmetric] by (simp add: Let_def watched_in_def)
  qed (use receive_gated [OF _ _ lv(1) b_def, of _ tkind now] g in simp_all)
qed

text \<open>C0: A watch opened for a task stays until that task's own entity reports a terminal status: no other message, no
  action, no wake and no tick of the clock, however late, ends it - so a task whose status cannot be read is polled
  for as long as the session lasts.\<close>

theorem only_its_answer_ends_a_watch:
  assumes "watched_in i a \<noteq> None" and "\<forall>now m. Receive now m \<in> set es \<longrightarrow> \<not> ends_task i m"
  shows "watched_in i (fold (app_step tkind) es a) \<noteq> None"
  using assms
proof (induction es arbitrary: a)
  case (Cons e es)
  have "watched_in i (app_step tkind e a) \<noteq> None"
    using Cons.prems watched_receive [of i a] by (cases e) auto
  then show ?case using Cons by simp
qed simp

lemma settle_find:
  "find (\<lambda>e. je_id e = j) (settle_entries j out task es) = map_option (settled out task) (find (\<lambda>e. je_id e = j) es)"
  by (induction es) (auto simp: settled_def)

definition entry_of :: "journal_id \<Rightarrow> live \<Rightarrow> journal_entry option" where
  "entry_of j lv = find (\<lambda>e. je_id e = j) (jo_entries (lv_journal lv))"

text \<open>What a refresh of a row adds is one subscription, with the next id.\<close>

lemma refresh_row_live:
  assumes "app_ok a" and "ap_live a = Some lv"
  shows "\<exists>lv'. ap_live (refresh_row k ext_id site a) = Some lv' \<and> lv_journal lv' = lv_journal lv \<and> lv_tasks lv' = lv_tasks lv \<and>
    set (ids_of lv') \<subseteq> insert (ap_next_sub a) (set (ids_of lv))"
proof -
  have put: "lv_journal (put_scheduler ctxt sc lv) = lv_journal lv" for ctxt sc
    by (simp add: put_scheduler_def split: option.split)
  have "\<exists>lv'. ap_live (case subscribe s (sc\<lparr>sc_next := ap_next_sub a\<rparr>) of (i, sc') \<Rightarrow>
      a\<lparr>ap_live := Some (put_scheduler ctxt sc' lv), ap_next_sub := Suc (ap_next_sub a)\<rparr>) = Some lv' \<and>
    lv_journal lv' = lv_journal lv \<and> lv_tasks lv' = lv_tasks lv \<and> set (ids_of lv') \<subseteq> insert (ap_next_sub a) (set (ids_of lv))"
    if "scheduler_for ctxt lv = Some sc" for ctxt sc s
    using ids_subscribed [OF that] app_okD [OF assms] put by (auto simp: ids_ok_def split: prod.split)
  then show ?thesis
    using assms(2) by (auto simp: refresh_row_def Let_def split: option.split)
qed

lemma after_task_live:
  assumes "app_ok a" and "ap_live a = Some lv"
  shows "\<exists>lv'. ap_live (after_task f a) = Some lv' \<and> lv_journal lv' = lv_journal lv \<and> lv_tasks lv' = lv_tasks lv \<and>
    set (ids_of lv') \<subseteq> insert (ap_next_sub a) (set (ids_of lv))"
proof (cases "tw_status (fi_watch f) = TsSucceeded")
  case True
  then show ?thesis using refresh_row_live [OF assms] by (simp add: after_task_def Let_def)
next
  case False
  then show ?thesis using assms(2) by (auto simp: after_task_def Let_def)
qed

text \<open>C0: When a watched task's entity arrives with a terminal status, its watch goes, its subscription ends on
  whichever scheduler polls it, and the journal entry of the action that started it is settled with the outcome and the
  task's id: succeeded, cancelled, or failed with every message the task carries.\<close>

theorem terminal_answer_settles:
  assumes ok: "app_ok a" and live: "ap_live a = Some lv" and watched: "map_of (ti_watched (lv_tasks lv)) (e_ext_id e) = Some w"
    and poll: "any_live s lv" "any_live (tw_sub w) lv" "\<forall>p. ap_pane a = Some p \<longrightarrow> pn_sub p \<noteq> Some s"
    and over: "is_terminal (tw_status (observed (e_raw e) w))"
  shows "\<exists>lv'. ap_live (receive tkind now (MEntity s key g e) a) = Some lv' \<and>
    map_of (ti_watched (lv_tasks lv')) (e_ext_id e) = None \<and> \<not> any_live (tw_sub w) lv' \<and>
    entry_of (tw_journal w) lv' =
      map_option (settled (outcome_of (observed (e_raw e) w)) (Some (tw_task w))) (entry_of (tw_journal w) lv)"
proof -
  let ?w = "observed (e_raw e) w"
  define f where "f = \<lparr>fi_watch = ?w, fi_outcome = outcome_of ?w\<rparr>"
  define ix where "ix = \<lparr>ti_by_entity = fold (note_task (e_ext_id e)) (touched_entities (e_raw e)) (ti_by_entity (lv_tasks lv)),
    ti_watched = im_remove (e_ext_id e) (ti_watched (lv_tasks lv))\<rparr>"
  have applied: "apply_task e (lv_tasks lv) = (Some f, ix)"
    using watched over by (simp add: apply_task_def Let_def f_def ix_def)
  define lv1 where "lv1 = task_ended f (lv\<lparr>lv_tasks := ix\<rparr>)"
  have l: "ids_ok lv (ap_next_sub a)" by (rule app_okD [OF ok live])
  have lv1: "lv_tasks lv1 = ix" "ids_of lv1 = filter (\<lambda>i. i \<noteq> tw_sub w) (ids_of lv)"
    "entry_of (tw_journal w) lv1 = map_option (settled (outcome_of ?w) (Some (tw_task w))) (entry_of (tw_journal w) lv)"
    using l ids_unsubscribe_any [of "lv\<lparr>lv_tasks := ix\<rparr>" "tw_sub w"]
    by (simp_all add: lv1_def task_ended_def f_def ids_ok_def entry_of_def settle_in_def settle_journal_def settle_find
        unsubscribe_any_def)
  have ok1: "app_ok (a\<lparr>ap_live := Some lv1\<rparr>)" using l by (simp add: lv1_def ids_ok_task_ended)
  obtain lv2 where lv2: "ap_live (after_task f (a\<lparr>ap_live := Some lv1\<rparr>)) = Some lv2" "lv_journal lv2 = lv_journal lv1"
    "lv_tasks lv2 = lv_tasks lv1" "set (ids_of lv2) \<subseteq> insert (ap_next_sub a) (set (ids_of lv1))"
    using after_task_live [OF ok1, of lv1 f] by auto
  have gone: "tw_sub w \<notin> set (ids_of lv2)"
  proof
    assume "tw_sub w \<in> set (ids_of lv2)"
    then have "tw_sub w \<in> insert (ap_next_sub a) (set (ids_of lv1))" by (rule subsetD [OF lv2(4)])
    then have "tw_sub w = ap_next_sub a" using lv1(2) by simp
    moreover have "tw_sub w < ap_next_sub a" using l poll(2) by (simp add: ids_ok_def any_live_ids)
    ultimately show False by simp
  qed
  have "receive tkind now (MEntity s key g e) a = table_message now (MEntity s key g e) lv a"
    using live poll by (auto simp: receive_def Let_def marks_cache_def gated_def split: option.split)
  also have "\<dots> = (after_task f (a\<lparr>ap_live := Some lv1\<rparr>))\<lparr>ap_live := Some (lv2\<lparr>lv_store := store_apply now key (UEntity g e) (lv_store lv2)\<rparr>)\<rparr>"
    using lv2(1) by (simp add: table_message_def applied lv1_def)
  finally show ?thesis
    using lv2 lv1 gone by (simp add: any_live_ids ix_def map_of_im_remove entry_of_def)
qed

section \<open>A session with one watched task\<close>

definition lab_task_kind :: kind where
  "lab_task_kind = lab_kind\<lparr>k_id := ''task''\<rparr>"

definition lab_task_sub :: subscription where
  "lab_task_sub = watching (sub_single (key_top lab_task_kind) (from_secs 3) ''t1'')"

definition lab_watch :: task_watch where
  "lab_watch = (fresh_watch lab_task_kind 0 0 1)\<lparr>tw_task := ''t1'', tw_ext_id := ''v1'', tw_name := ''web'', tw_action := ''power_off''\<rparr>"

definition lab_journal :: journal where
  "lab_journal = snd (record_attempt
     \<lparr>at_context = ''lab'', at_kind = lab_kind, at_ext_id = ''v1'', at_name = ''web'', at_action = ''power_off''\<rparr>
     0 Started journal_default)"

definition lab_live :: live where
  "lab_live = \<lparr>lv_primary = ''lab'', lv_store = empty_store undefined undefined,
     lv_scheduler = snd (subscribe lab_task_sub (new_scheduler 1 0)), lv_peers = [], lv_top = None,
     lv_journal = lab_journal, lv_tasks = index_empty\<lparr>ti_watched := [(''t1'', lab_watch)]\<rparr>, lv_can_i = slot_default\<rparr>"

definition lab_session :: app where
  "lab_session = \<lparr>ap_live = Some lab_live, ap_next_sub = 1, ap_generation = 1, ap_cache_dirty = False,
     ap_stats_seen = False, ap_names_seen = False, ap_sample_seen = False, ap_pane = None, ap_status = None,
     ap_last_input = 0\<rparr>"

definition lab_answer :: entity where
  "lab_answer = \<lparr>e_kind = lab_task_kind, e_ext_id = ''t1'', e_name = ''t1'', e_etag = None,
     e_raw = JObj [(''status'', JStr ''SUCCEEDED'')]\<rparr>"

lemma lab_live_facts:
  "ap_live lab_session = Some lab_live" "ap_next_sub lab_session = 1" "ap_pane lab_session = None"
  "lv_tasks lab_live = index_empty\<lparr>ti_watched := [(''t1'', lab_watch)]\<rparr>" "ids_of lab_live = [0]" "tw_sub lab_watch = 0"
  by (simp_all add: lab_session_def lab_live_def ids_of_def schedulers_of_def subscribe_def Let_def new_scheduler_def
      sub_ids_def lab_watch_def fresh_watch_def)

lemma lab_ok: "app_ok lab_session"
  by (simp add: app_ok_def lab_live_facts)

lemma ids_name_one_subscription_witness:
  "app_ok (fold (app_step lab_task_kind) [Receive 5 (MEntity 0 (key_top lab_task_kind) 1 lab_answer), Tick 400] lab_session)"
  by (rule ids_name_one_subscription [OF lab_ok])

lemma popped_views_change_nothing_witness:
  "receive lab_task_kind 5 (MComplete 7 (key_top lab_kind) 1) lab_session = lab_session\<lparr>ap_cache_dirty := True\<rparr>"
  using popped_views_change_nothing [of lab_session lab_live "MComplete 7 (key_top lab_kind) 1" 7 lab_task_kind 5]
  by (simp add: lab_live_facts any_live_ids marks_cache_def)

lemma only_its_answer_ends_a_watch_witness:
  "watched_in ''t1'' (fold (app_step lab_task_kind)
     [Receive 5 (MEntity 0 (key_top lab_task_kind) 1 (lab_answer\<lparr>e_raw := JObj []\<rparr>)), Tick 86400000000000] lab_session) \<noteq> None"
proof (rule only_its_answer_ends_a_watch)
  show "watched_in ''t1'' lab_session \<noteq> None"
    by (simp add: watched_in_def lab_live_facts)
  show "\<forall>now m. Receive now m \<in> set [Receive 5 (MEntity 0 (key_top lab_task_kind) 1 (lab_answer\<lparr>e_raw := JObj []\<rparr>)),
      Tick 86400000000000] \<longrightarrow> \<not> ends_task ''t1'' m"
    by (simp add: ends_task_def str_at_def jget_def parse_status_def)
qed

lemma terminal_answer_settles_witness:
  "\<exists>lv. ap_live (receive lab_task_kind 5 (MEntity 0 (key_top lab_task_kind) 1 lab_answer) lab_session) = Some lv \<and>
    map_of (ti_watched (lv_tasks lv)) ''t1'' = None \<and> \<not> any_live 0 lv \<and>
    entry_of 1 lv = map_option (settled Succeeded (Some ''t1'')) (entry_of 1 lab_live)"
proof -
  have j: "tw_journal lab_watch = 1" "tw_task lab_watch = ''t1''" by (simp_all add: lab_watch_def fresh_watch_def)
  have st: "tw_status (observed (e_raw lab_answer) lab_watch) = TsSucceeded"
    by (simp add: observed_def lab_answer_def str_at_def jget_def parse_status_def)
  then have o: "outcome_of (observed (e_raw lab_answer) lab_watch) = Succeeded" by (simp add: outcome_of_def)
  have i: "e_ext_id lab_answer = ''t1''" by (simp add: lab_answer_def)
  show ?thesis
    using terminal_answer_settles [OF lab_ok lab_live_facts(1), of lab_answer lab_watch 0 lab_task_kind 5 "key_top lab_task_kind" 1]
    by (simp add: lab_live_facts any_live_ids st o i j)
qed

end
