(* ===== verification/Spec2Isabelle.thy ===== *)
theory Spec2Isabelle
  imports Prelude Catalog Bucket Valve Rate_Limits Metrics Pacing Json Answers Session Gate Client Send Negotiate Requests CanI Guardrails Write_Path Failure Kept Connected Actions Store Status Journal Pollers Silence Messages Probe Polling Scheduler Refresh Retime Odata Columns Search Tasks Inbox
begin

text \<open>
  nutsh is a terminal client for Nutanix Prism Central. This library models its core.
\<close>

end
